theory Spec2Isabelle
  imports Main "HOL-Library.Monad_Syntax"
begin

section \<open>Data model of cave.c\<close>

text \<open>
  The per-cell flag bits of \<^verbatim>\<open>c->info[y][x]\<close> (the SQUARE_ constants) and the terrain
  flags of \<^verbatim>\<open>f_info[f].flags\<close> (the TF_ constants) that cave.c tests.
\<close>

datatype square_flag =
    SQUARE_VIEW | SQUARE_SEEN | SQUARE_WASSEEN | SQUARE_GLOW | SQUARE_MARK
  | SQUARE_ROOM | SQUARE_VAULT | SQUARE_TRAP | SQUARE_INVIS | SQUARE_DTRAP
  | SQUARE_DEDGE | SQUARE_FEEL | SQUARE_WALL_INNER | SQUARE_WALL_OUTER
  | SQUARE_WALL_SOLID | SQUARE_MON_RESTRICT | SQUARE_NO_TELEPORT
  | SQUARE_NO_MAP | SQUARE_NO_ESP

datatype terrain_flag =
    TF_PROJECT | TF_PASSABLE | TF_NO_FLOW | TF_INTERESTING | TF_ROCK

datatype race_flag = RF_HAS_LIGHT | RF_STUPID | RF_SMART

record feature =
  flags :: "terrain_flag set"

record monster_race =
  rflags :: "race_flag set"

text \<open>A monster slot; \<open>race = None\<close> is the dead slot (\<^verbatim>\<open>!m->race\<close>).\<close>

record monster =
  fy :: int
  fx :: int
  race :: "monster_race option"

text \<open>
  \<^verbatim>\<open>struct chunk\<close>: the two-dimensional arrays are functions of the pair \<open>(y, x)\<close>;
  \<open>cost\<close> and \<open>when_c\<close> (the source's \<^verbatim>\<open>when\<close>) hold bytes, kept as integers in
  \<open>0..255\<close> by the writers. The monster array is the list of its slots from index 1.
\<close>

record chunk =
  height :: int
  width :: int
  feat :: "int \<times> int \<Rightarrow> nat"
  info :: "int \<times> int \<Rightarrow> square_flag set"
  cost :: "int \<times> int \<Rightarrow> int"
  when_c :: "int \<times> int \<Rightarrow> int"
  monsters :: "monster list"
  feeling_squares :: int

text \<open>
  A call that produces no result is \<open>None\<close>: a failed \<^verbatim>\<open>assert\<close>, an array access outside
  the grid (undefined in C), or a loop that does not end.
\<close>

definition c_assert :: "bool \<Rightarrow> unit option" where
  "c_assert b = (if b then Some () else None)"

definition square_in_bounds :: "chunk \<Rightarrow> int \<Rightarrow> int \<Rightarrow> bool" where
  "square_in_bounds c y x = (x \<ge> 0 \<and> x < width c \<and> y \<ge> 0 \<and> y < height c)"

definition square_in_bounds_fully :: "chunk \<Rightarrow> int \<Rightarrow> int \<Rightarrow> bool" where
  "square_in_bounds_fully c y x = (x > 0 \<and> x < width c - 1 \<and> y > 0 \<and> y < height c - 1)"

definition tf_has :: "terrain_flag set \<Rightarrow> terrain_flag \<Rightarrow> bool" where
  "tf_has fs f = (f \<in> fs)"

definition feat_isprojectable :: "feature \<Rightarrow> bool" where
  "feat_isprojectable f_ptr = tf_has (flags f_ptr) TF_PROJECT"

text \<open>The global terrain table \<^verbatim>\<open>f_info\<close> is the first argument of every function that reads it.\<close>

definition square_isprojectable :: "(nat \<Rightarrow> feature) \<Rightarrow> chunk \<Rightarrow> int \<Rightarrow> int \<Rightarrow> bool option" where
  "square_isprojectable f_info c y x =
     do { c_assert (square_in_bounds c y x);
          Some (feat_isprojectable (f_info (feat c (y, x)))) }"

definition square_iswall :: "(nat \<Rightarrow> feature) \<Rightarrow> chunk \<Rightarrow> int \<Rightarrow> int \<Rightarrow> bool option" where
  "square_iswall f_info c y x =
     do { c_assert (square_in_bounds c y x);
          p \<leftarrow> square_isprojectable f_info c y x;
          Some (\<not> p) }"

section \<open>distance and los\<close>

definition distance :: "int \<Rightarrow> int \<Rightarrow> int \<Rightarrow> int \<Rightarrow> int" where
  "distance y1 x1 y2 x2 =
     (let ay = \<bar>y2 - y1\<bar>; ax = \<bar>x2 - x1\<bar>
      in if ay > ax then ay + ax div 2 else ax + ay div 2)"

text \<open>The four scans of the orthogonal cases of \<^verbatim>\<open>los\<close>, one per \<^verbatim>\<open>for\<close> loop.\<close>

function los_south :: "(nat \<Rightarrow> feature) \<Rightarrow> chunk \<Rightarrow> int \<Rightarrow> int \<Rightarrow> int \<Rightarrow> bool option" where
  "los_south f_info c x1 y2 ty =
     (if ty < y2 then
        do { p \<leftarrow> square_isprojectable f_info c ty x1;
             if \<not> p then Some False else los_south f_info c x1 y2 (ty + 1) }
      else Some True)"
  by pat_completeness auto
termination
  by (relation "measure (\<lambda>(f_info, c, x1, y2, ty). nat (y2 - ty))") auto

function los_north :: "(nat \<Rightarrow> feature) \<Rightarrow> chunk \<Rightarrow> int \<Rightarrow> int \<Rightarrow> int \<Rightarrow> bool option" where
  "los_north f_info c x1 y2 ty =
     (if ty > y2 then
        do { p \<leftarrow> square_isprojectable f_info c ty x1;
             if \<not> p then Some False else los_north f_info c x1 y2 (ty - 1) }
      else Some True)"
  by pat_completeness auto
termination
  by (relation "measure (\<lambda>(f_info, c, x1, y2, ty). nat (ty - y2))") auto

function los_east :: "(nat \<Rightarrow> feature) \<Rightarrow> chunk \<Rightarrow> int \<Rightarrow> int \<Rightarrow> int \<Rightarrow> bool option" where
  "los_east f_info c y1 x2 tx =
     (if tx < x2 then
        do { p \<leftarrow> square_isprojectable f_info c y1 tx;
             if \<not> p then Some False else los_east f_info c y1 x2 (tx + 1) }
      else Some True)"
  by pat_completeness auto
termination
  by (relation "measure (\<lambda>(f_info, c, y1, x2, tx). nat (x2 - tx))") auto

function los_west :: "(nat \<Rightarrow> feature) \<Rightarrow> chunk \<Rightarrow> int \<Rightarrow> int \<Rightarrow> int \<Rightarrow> bool option" where
  "los_west f_info c y1 x2 tx =
     (if tx > x2 then
        do { p \<leftarrow> square_isprojectable f_info c y1 tx;
             if \<not> p then Some False else los_west f_info c y1 x2 (tx - 1) }
      else Some True)"
  by pat_completeness auto
termination
  by (relation "measure (\<lambda>(f_info, c, y1, x2, tx). nat (tx - x2))") auto

text \<open>
  The knight's-move special cases: \<open>Some True\<close> when the source returns TRUE there,
  \<open>Some False\<close> when it falls through to the general walk.
\<close>

definition los_knight ::
  "(nat \<Rightarrow> feature) \<Rightarrow> chunk \<Rightarrow> int \<Rightarrow> int \<Rightarrow> int \<Rightarrow> int \<Rightarrow> int \<Rightarrow> int \<Rightarrow> bool option" where
  "los_knight f_info c y1 x1 ax ay sx sy =
     (if ax = 1 then
        (if ay = 2 then square_isprojectable f_info c (y1 + sy) x1 else Some False)
      else if ay = 1 then
        (if ax = 2 then square_isprojectable f_info c y1 (x1 + sx) else Some False)
      else Some False)"

text \<open>
  The loop \<^verbatim>\<open>while (x2 - tx)\<close> of the horizontal walk and \<^verbatim>\<open>while (y2 - ty)\<close> of the
  vertical one. Neither has a bound of its own, so not returning is the value \<open>None\<close>.
\<close>

partial_function (option) los_travel_h ::
  "(nat \<Rightarrow> feature) \<Rightarrow> chunk \<Rightarrow> int \<Rightarrow> int \<Rightarrow> int \<Rightarrow> int \<Rightarrow> int \<Rightarrow> int \<Rightarrow> int \<Rightarrow> int \<Rightarrow> int \<Rightarrow> bool option"
  where
  "los_travel_h f_info c x2 sx sy f1 f2 m ty tx qy =
     (if x2 - tx \<noteq> 0 then
        do { p \<leftarrow> square_isprojectable f_info c ty tx;
             if \<not> p then Some False
             else if qy + m < f2 then
               los_travel_h f_info c x2 sx sy f1 f2 m ty (tx + sx) (qy + m)
             else if qy + m > f2 then
               do { p' \<leftarrow> square_isprojectable f_info c (ty + sy) tx;
                    if \<not> p' then Some False
                    else los_travel_h f_info c x2 sx sy f1 f2 m (ty + sy) (tx + sx) (qy + m - f1) }
             else los_travel_h f_info c x2 sx sy f1 f2 m (ty + sy) (tx + sx) (qy + m - f1) }
      else Some True)"

partial_function (option) los_travel_v ::
  "(nat \<Rightarrow> feature) \<Rightarrow> chunk \<Rightarrow> int \<Rightarrow> int \<Rightarrow> int \<Rightarrow> int \<Rightarrow> int \<Rightarrow> int \<Rightarrow> int \<Rightarrow> int \<Rightarrow> int \<Rightarrow> bool option"
  where
  "los_travel_v f_info c y2 sx sy f1 f2 m ty tx qx =
     (if y2 - ty \<noteq> 0 then
        do { p \<leftarrow> square_isprojectable f_info c ty tx;
             if \<not> p then Some False
             else if qx + m < f2 then
               los_travel_v f_info c y2 sx sy f1 f2 m (ty + sy) tx (qx + m)
             else if qx + m > f2 then
               do { p' \<leftarrow> square_isprojectable f_info c ty (tx + sx);
                    if \<not> p' then Some False
                    else los_travel_v f_info c y2 sx sy f1 f2 m (ty + sy) (tx + sx) (qx + m - f1) }
             else los_travel_v f_info c y2 sx sy f1 f2 m (ty + sy) (tx + sx) (qx + m - f1) }
      else Some True)"

declare los_travel_h.simps [code]
declare los_travel_v.simps [code]

text \<open>The general diagonal walk of \<^verbatim>\<open>los\<close>, from the scale factors on.\<close>

definition los_walk ::
  "(nat \<Rightarrow> feature) \<Rightarrow> chunk \<Rightarrow> int \<Rightarrow> int \<Rightarrow> int \<Rightarrow> int \<Rightarrow> int \<Rightarrow> int \<Rightarrow> int \<Rightarrow> int \<Rightarrow> bool option" where
  "los_walk f_info c y1 x1 y2 x2 ax ay sx sy =
     (let f2 = ax * ay; f1 = 2 * f2 in
      if ax \<ge> ay then
        (let qy = ay * ay; m = 2 * qy; tx = x1 + sx in
         if qy = f2 then los_travel_h f_info c x2 sx sy f1 f2 m (y1 + sy) tx (qy - f1)
         else los_travel_h f_info c x2 sx sy f1 f2 m y1 tx qy)
      else
        (let qx = ax * ax; m = 2 * qx; ty = y1 + sy in
         if qx = f2 then los_travel_v f_info c y2 sx sy f1 f2 m ty (x1 + sx) (qx - f1)
         else los_travel_v f_info c y2 sx sy f1 f2 m ty x1 qx))"

definition los :: "(nat \<Rightarrow> feature) \<Rightarrow> chunk \<Rightarrow> int \<Rightarrow> int \<Rightarrow> int \<Rightarrow> int \<Rightarrow> bool option" where
  "los f_info c y1 x1 y2 x2 =
     (let dy = y2 - y1; dx = x2 - x1; ay = \<bar>dy\<bar>; ax = \<bar>dx\<bar> in
      if ax < 2 \<and> ay < 2 then Some True
      else if dx = 0 then
        (if dy > 0 then los_south f_info c x1 y2 (y1 + 1)
         else los_north f_info c x1 y2 (y1 - 1))
      else if dy = 0 then
        (if dx > 0 then los_east f_info c y1 x2 (x1 + 1)
         else los_west f_info c y1 x2 (x1 - 1))
      else
        let sx = (if dx < 0 then - 1 else 1); sy = (if dy < 0 then - 1 else 1) in
        do { k \<leftarrow> los_knight f_info c y1 x1 ax ay sx sy;
             if k then Some True
             else los_walk f_info c y1 x1 y2 x2 ax ay sx sy })"
definition projectable :: "(nat \<Rightarrow> feature) \<Rightarrow> chunk \<Rightarrow> int \<Rightarrow> int \<Rightarrow> bool" where
  "projectable f_info c y x = feat_isprojectable (f_info (feat c (y, x)))"

definition strictly_between :: "int \<Rightarrow> int \<Rightarrow> int \<Rightarrow> int \<Rightarrow> int \<Rightarrow> int \<Rightarrow> bool" where
  "strictly_between y1 x1 y2 x2 y x =
     ((x = x1 \<and> x1 = x2 \<and> min y1 y2 < y \<and> y < max y1 y2) \<or>
      (y = y1 \<and> y1 = y2 \<and> min x1 x2 < x \<and> x < max x1 x2))"

definition crossed :: "int \<Rightarrow> int \<Rightarrow> int \<Rightarrow> int \<Rightarrow> bool" where
  "crossed ax ay j k = (\<bar>2 * (ax * j - ay * k)\<bar> < ax + ay)"

definition inner :: "int \<Rightarrow> int \<Rightarrow> int \<Rightarrow> int \<Rightarrow> bool" where
  "inner ax ay j k = (if ay \<le> ax then 1 \<le> k \<and> k < ax else 1 \<le> j \<and> j < ay)"

section \<open>The view engine\<close>

text \<open>
  \<^verbatim>\<open>sqinfo_on(c->info[y][x], F)\<close> and \<^verbatim>\<open>sqinfo_off(c->info[y][x], F)\<close> write the flag array
  without an assertion; outside the grid the write has no defined result.
\<close>

definition sqinfo_has :: "square_flag set \<Rightarrow> square_flag \<Rightarrow> bool" where
  "sqinfo_has fs f = (f \<in> fs)"

definition sqinfo_on :: "chunk \<Rightarrow> int \<Rightarrow> int \<Rightarrow> square_flag \<Rightarrow> chunk option" where
  "sqinfo_on c y x f =
     (if square_in_bounds c y x
      then Some (c\<lparr>info := (info c)((y, x) := insert f (info c (y, x)))\<rparr>)
      else None)"

definition sqinfo_off :: "chunk \<Rightarrow> int \<Rightarrow> int \<Rightarrow> square_flag \<Rightarrow> chunk option" where
  "sqinfo_off c y x f =
     (if square_in_bounds c y x
      then Some (c\<lparr>info := (info c)((y, x) := info c (y, x) - {f})\<rparr>)
      else None)"

definition square_ismark :: "chunk \<Rightarrow> int \<Rightarrow> int \<Rightarrow> bool option" where
  "square_ismark c y x =
     do { c_assert (square_in_bounds c y x); Some (sqinfo_has (info c (y, x)) SQUARE_MARK) }"

definition square_isglow :: "chunk \<Rightarrow> int \<Rightarrow> int \<Rightarrow> bool option" where
  "square_isglow c y x =
     do { c_assert (square_in_bounds c y x); Some (sqinfo_has (info c (y, x)) SQUARE_GLOW) }"

definition square_isroom :: "chunk \<Rightarrow> int \<Rightarrow> int \<Rightarrow> bool option" where
  "square_isroom c y x =
     do { c_assert (square_in_bounds c y x); Some (sqinfo_has (info c (y, x)) SQUARE_ROOM) }"

definition square_isseen :: "chunk \<Rightarrow> int \<Rightarrow> int \<Rightarrow> bool option" where
  "square_isseen c y x =
     do { c_assert (square_in_bounds c y x); Some (sqinfo_has (info c (y, x)) SQUARE_SEEN) }"

definition square_isview :: "chunk \<Rightarrow> int \<Rightarrow> int \<Rightarrow> bool option" where
  "square_isview c y x =
     do { c_assert (square_in_bounds c y x); Some (sqinfo_has (info c (y, x)) SQUARE_VIEW) }"

definition square_wasseen :: "chunk \<Rightarrow> int \<Rightarrow> int \<Rightarrow> bool option" where
  "square_wasseen c y x =
     do { c_assert (square_in_bounds c y x); Some (sqinfo_has (info c (y, x)) SQUARE_WASSEEN) }"

definition square_isfeel :: "chunk \<Rightarrow> int \<Rightarrow> int \<Rightarrow> bool option" where
  "square_isfeel c y x =
     do { c_assert (square_in_bounds c y x); Some (sqinfo_has (info c (y, x)) SQUARE_FEEL) }"


text \<open>
  \<^verbatim>\<open>square_light_spot\<close> only signals a redraw of the cell to the event sink
  (\<^verbatim>\<open>event_signal_point\<close>); the chunk is left as it is. In \<^verbatim>\<open>square_note_spot\<close> the loop
  over the objects of the cell marks objects, which are not part of the chunk's flags.
\<close>

definition square_light_spot :: "chunk \<Rightarrow> int \<Rightarrow> int \<Rightarrow> chunk option" where
  "square_light_spot c y x = Some c"

definition square_note_spot :: "chunk \<Rightarrow> int \<Rightarrow> int \<Rightarrow> chunk option" where
  "square_note_spot c y x =
     do { s \<leftarrow> square_isseen c y x;
          if \<not> s then Some c
          else do { m \<leftarrow> square_ismark c y x;
                    if m then Some c else sqinfo_on c y x SQUARE_MARK } }"

text \<open>
  The loops \<^verbatim>\<open>for (x = 0; x < c->width; x++)\<close> and \<^verbatim>\<open>for (y = 0; y < c->height; y++)\<close>
  with a body that updates the chunk; the bound is read from the current chunk at
  every test, as in the source.
\<close>

partial_function (option) for_x :: "(chunk \<Rightarrow> int \<Rightarrow> chunk option) \<Rightarrow> chunk \<Rightarrow> int \<Rightarrow> chunk option" where
  "for_x body c x =
     (if x < width c then Option.bind (body c x) (\<lambda>c'. for_x body c' (x + 1)) else Some c)"

partial_function (option) for_y :: "(chunk \<Rightarrow> int \<Rightarrow> chunk option) \<Rightarrow> chunk \<Rightarrow> int \<Rightarrow> chunk option" where
  "for_y body c y =
     (if y < height c then Option.bind (body c y) (\<lambda>c'. for_y body c' (y + 1)) else Some c)"

declare for_x.simps [code]
declare for_y.simps [code]

definition for_grid :: "(chunk \<Rightarrow> int \<Rightarrow> int \<Rightarrow> chunk option) \<Rightarrow> chunk \<Rightarrow> chunk option" where
  "for_grid body c = for_y (\<lambda>c y. for_x (\<lambda>c x. body c y x) c 0) c 0"



definition mark_wasseen_one :: "chunk \<Rightarrow> int \<Rightarrow> int \<Rightarrow> chunk option" where
  "mark_wasseen_one c y x =
     do { s \<leftarrow> square_isseen c y x;
          c1 \<leftarrow> (if s then sqinfo_on c y x SQUARE_WASSEEN else Some c);
          c2 \<leftarrow> sqinfo_off c1 y x SQUARE_VIEW;
          sqinfo_off c2 y x SQUARE_SEEN }"

definition mark_wasseen :: "chunk \<Rightarrow> chunk option" where
  "mark_wasseen c = for_grid mark_wasseen_one c"

definition rf_has :: "race_flag set \<Rightarrow> race_flag \<Rightarrow> bool" where
  "rf_has fs f = (f \<in> fs)"

text \<open>
  The 3x3 box of one light-carrying monster: the offsets \<open>(i, j)\<close> in the order of the two
  nested loops. \<open>max_sight\<close> is the constant MAX_SIGHT, which cave.c does not define.
\<close>

fun add_monster_light_box ::
  "(nat \<Rightarrow> feature) \<Rightarrow> int \<Rightarrow> int \<Rightarrow> int \<Rightarrow> monster \<Rightarrow> bool \<Rightarrow> (int \<times> int) list \<Rightarrow> chunk \<Rightarrow> chunk option"
  where
  "add_monster_light_box f_info max_sight from_y from_x m in_los [] c = Some c"
| "add_monster_light_box f_info max_sight from_y from_x m in_los ((i, j) # ijs) c =
     (let sy = fy m + i; sx = fx m + j in
      do { dark \<leftarrow> (if \<not> in_los
                     then do { p \<leftarrow> square_isprojectable f_info c sy sx; Some (\<not> p) }
                     else Some False);
           if dark then add_monster_light_box f_info max_sight from_y from_x m in_los ijs c
           else if distance from_y from_x sy sx > max_sight
             then add_monster_light_box f_info max_sight from_y from_x m in_los ijs c
           else do { l \<leftarrow> los f_info c from_y from_x sy sx;
                     if \<not> l then add_monster_light_box f_info max_sight from_y from_x m in_los ijs c
                     else do { c1 \<leftarrow> sqinfo_on c sy sx SQUARE_VIEW;
                               c2 \<leftarrow> sqinfo_on c1 sy sx SQUARE_SEEN;
                               add_monster_light_box f_info max_sight from_y from_x m in_los ijs c2 } } })"

definition box_offsets :: "(int \<times> int) list" where
  "box_offsets = [(- 1, - 1), (- 1, 0), (- 1, 1), (0, - 1), (0, 0), (0, 1), (1, - 1), (1, 0), (1, 1)]"

text \<open>The loop over the monster slots \<open>k = 1 .. m_max - 1\<close>, as the list of the slots.\<close>

fun add_monster_lights_from ::
  "(nat \<Rightarrow> feature) \<Rightarrow> int \<Rightarrow> int \<Rightarrow> int \<Rightarrow> monster list \<Rightarrow> chunk \<Rightarrow> chunk option" where
  "add_monster_lights_from f_info max_sight from_y from_x [] c = Some c"
| "add_monster_lights_from f_info max_sight from_y from_x (m # ms) c =
     do { in_los \<leftarrow> los f_info c from_y from_x (fy m) (fx m);
          c' \<leftarrow> (case race m of
                   None \<Rightarrow> Some c
                 | Some r \<Rightarrow>
                     if \<not> rf_has (rflags r) RF_HAS_LIGHT then Some c
                     else add_monster_light_box f_info max_sight from_y from_x m in_los box_offsets c);
          add_monster_lights_from f_info max_sight from_y from_x ms c' }"

definition add_monster_lights :: "(nat \<Rightarrow> feature) \<Rightarrow> int \<Rightarrow> chunk \<Rightarrow> int \<Rightarrow> int \<Rightarrow> chunk option" where
  "add_monster_lights f_info max_sight c from_y from_x =
     add_monster_lights_from f_info max_sight from_y from_x (monsters c) c"

text \<open>
  \<^verbatim>\<open>update_one\<close>; \<^verbatim>\<open>display_feeling\<close> only prints the level feeling and is left out.
  The two conditions are short-circuit conjunctions, so \<^verbatim>\<open>square_wasseen\<close> is called
  only when the first conjunct holds.
\<close>

definition update_one :: "chunk \<Rightarrow> int \<Rightarrow> int \<Rightarrow> int \<Rightarrow> chunk option" where
  "update_one c y x blind =
     do { c1 \<leftarrow> (if blind \<noteq> 0 then sqinfo_off c y x SQUARE_SEEN else Some c);
          s \<leftarrow> square_isseen c1 y x;
          w \<leftarrow> (if s then square_wasseen c1 y x else Some False);
          c2 \<leftarrow> (if s \<and> \<not> w then
                   do { f \<leftarrow> square_isfeel c1 y x;
                        ca \<leftarrow> (if f then
                                 sqinfo_off (c1\<lparr>feeling_squares := feeling_squares c1 + 1\<rparr>) y x SQUARE_FEEL
                               else Some c1);
                        cb \<leftarrow> square_note_spot ca y x;
                        square_light_spot cb y x }
                 else Some c1);
          s' \<leftarrow> square_isseen c2 y x;
          w' \<leftarrow> (if \<not> s' then square_wasseen c2 y x else Some False);
          c3 \<leftarrow> (if \<not> s' \<and> w' then square_light_spot c2 y x else Some c2);
          sqinfo_off c3 y x SQUARE_WASSEEN }"

definition toward :: "int \<Rightarrow> int \<Rightarrow> int" where
  "toward x px = (if x < px then x + 1 else if x > px then x - 1 else x)"

definition become_viewable ::
  "(nat \<Rightarrow> feature) \<Rightarrow> chunk \<Rightarrow> int \<Rightarrow> int \<Rightarrow> bool \<Rightarrow> int \<Rightarrow> int \<Rightarrow> chunk option" where
  "become_viewable f_info c y x lit py px =
     do { v \<leftarrow> square_isview c y x;
          if v then Some c
          else
            do { c1 \<leftarrow> sqinfo_on c y x SQUARE_VIEW;
                 c2 \<leftarrow> (if lit then sqinfo_on c1 y x SQUARE_SEEN else Some c1);
                 g \<leftarrow> square_isglow c2 y x;
                 if g then
                   do { w \<leftarrow> square_iswall f_info c2 y x;
                        let xc = (if w then toward x px else x);
                            yc = (if w then toward y py else y) in
                        do { g' \<leftarrow> square_isglow c2 yc xc;
                             if g' then sqinfo_on c2 y x SQUARE_SEEN else Some c2 } }
                 else Some c2 } }"

text \<open>
  The reference point \<open>(yc, xc)\<close> that \<^verbatim>\<open>update_view_one\<close> computes for a wall cell: the
  body of its \<^verbatim>\<open>if (square_iswall(c, y, x))\<close> block.
\<close>

definition wall_reference ::
  "(nat \<Rightarrow> feature) \<Rightarrow> chunk \<Rightarrow> int \<Rightarrow> int \<Rightarrow> int \<Rightarrow> int \<Rightarrow> (int \<times> int) option" where
  "wall_reference f_info c y x py px =
     (let dx = x - px; dy = y - py; ax = \<bar>dx\<bar>; ay = \<bar>dy\<bar>;
          sx = (if dx > 0 then 1 else - 1); sy = (if dy > 0 then 1 else - 1);
          xc = toward x px; yc = toward y py in
      do { w \<leftarrow> square_iswall f_info c yc xc;
           let (yc, xc) = (if w then (y, x) else (yc, xc)) in
           if ax = 2 \<and> ay = 1 then
             do { a \<leftarrow> square_iswall f_info c y (x - sx);
                  b \<leftarrow> (if \<not> a then square_iswall f_info c (y - sy) (x - sx) else Some False);
                  Some (if \<not> a \<and> b then (y, x) else (yc, xc)) }
           else if ax = 1 \<and> ay = 2 then
             do { a \<leftarrow> square_iswall f_info c (y - sy) x;
                  b \<leftarrow> (if \<not> a then square_iswall f_info c (y - sy) (x - sx) else Some False);
                  Some (if \<not> a \<and> b then (y, x) else (yc, xc)) }
           else Some (yc, xc) })"

definition update_view_one ::
  "(nat \<Rightarrow> feature) \<Rightarrow> int \<Rightarrow> chunk \<Rightarrow> int \<Rightarrow> int \<Rightarrow> int \<Rightarrow> int \<Rightarrow> int \<Rightarrow> chunk option" where
  "update_view_one f_info max_sight c y x radius py px =
     (let d = distance y x py px; lit = (d < radius) in
      if d > max_sight then Some c
      else
        do { w \<leftarrow> square_iswall f_info c y x;
             (yc, xc) \<leftarrow> (if w then wall_reference f_info c y x py px else Some (y, x));
             l \<leftarrow> los f_info c py px yc xc;
             if l then become_viewable f_info c y x lit py px else Some c })"

text \<open>
  The fields of \<^verbatim>\<open>struct player\<close> that \<^verbatim>\<open>update_view\<close> reads: \<^verbatim>\<open>p->py\<close>, \<^verbatim>\<open>p->px\<close>,
  \<^verbatim>\<open>p->state.cur_light\<close> and \<^verbatim>\<open>p->timed[TMD_BLIND]\<close>.
\<close>

record player =
  player_py :: int
  player_px :: int
  cur_light :: int
  timed_blind :: int

definition update_view :: "(nat \<Rightarrow> feature) \<Rightarrow> int \<Rightarrow> chunk \<Rightarrow> player \<Rightarrow> chunk option" where
  "update_view f_info max_sight c p =
     do { c1 \<leftarrow> mark_wasseen c;
          let radius = (if cur_light p > 0 then cur_light p + 1 else cur_light p) in
          do { c2 \<leftarrow> add_monster_lights f_info max_sight c1 (player_py p) (player_px p);
               c3 \<leftarrow> sqinfo_on c2 (player_py p) (player_px p) SQUARE_VIEW;
               g \<leftarrow> (if radius > 0 then Some True else square_isglow c3 (player_py p) (player_px p));
               c4 \<leftarrow> (if g then sqinfo_on c3 (player_py p) (player_px p) SQUARE_SEEN else Some c3);
               c5 \<leftarrow> for_grid (\<lambda>c y x. update_view_one f_info max_sight c y x radius
                                  (player_py p) (player_px p)) c4;
               for_grid (\<lambda>c y x. update_one c y x (timed_blind p)) c5 } }"

section \<open>Specification of the view engine\<close>

text \<open>
  A wall is a cell that is not projectable. \<open>knight_no_shift\<close> is the pair of diagonal
  sub-cases in which a wall cell keeps itself as reference point: the player is a knight's
  move away, the neighbour one step back along the longer axis is open and the neighbour
  one step back along both axes is a wall. \<open>view_reference\<close> is the reference point of a
  wall cell: the cell one step toward the player along each axis on which they differ,
  unless that cell is a wall or a knight sub-case applies.
\<close>

definition is_wall :: "(nat \<Rightarrow> feature) \<Rightarrow> chunk \<Rightarrow> int \<Rightarrow> int \<Rightarrow> bool" where
  "is_wall f_info c y x = (\<not> projectable f_info c y x)"

definition knight_no_shift :: "(nat \<Rightarrow> feature) \<Rightarrow> chunk \<Rightarrow> int \<Rightarrow> int \<Rightarrow> int \<Rightarrow> int \<Rightarrow> bool" where
  "knight_no_shift f_info c y x py px =
     (let sx = (if x - px > 0 then 1 else - 1); sy = (if y - py > 0 then 1 else - 1) in
      ((\<bar>x - px\<bar> = 2 \<and> \<bar>y - py\<bar> = 1) \<and>
         \<not> is_wall f_info c y (x - sx) \<and> is_wall f_info c (y - sy) (x - sx)) \<or>
      ((\<bar>x - px\<bar> = 1 \<and> \<bar>y - py\<bar> = 2) \<and>
         \<not> is_wall f_info c (y - sy) x \<and> is_wall f_info c (y - sy) (x - sx)))"

definition view_reference :: "(nat \<Rightarrow> feature) \<Rightarrow> chunk \<Rightarrow> int \<Rightarrow> int \<Rightarrow> int \<Rightarrow> int \<Rightarrow> int \<times> int" where
  "view_reference f_info c y x py px =
     (if is_wall f_info c (toward y py) (toward x px) \<or> knight_no_shift f_info c y x py px
      then (y, x) else (toward y py, toward x px))"

text \<open>
  When a wall cell that becomes viewable is also marked seen: it is lit by the torch, or
  it glows and the cell one step toward the player along each differing axis glows.
\<close>

definition wall_seen_rule :: "chunk \<Rightarrow> int \<Rightarrow> int \<Rightarrow> bool \<Rightarrow> int \<Rightarrow> int \<Rightarrow> bool" where
  "wall_seen_rule c y x lit py px =
     (lit \<or> (SQUARE_GLOW \<in> info c (y, x) \<and> SQUARE_GLOW \<in> info c (toward y py, toward x px)))"

text \<open>The invariant: on every cell of the grid, SEEN implies VIEW.\<close>

definition seen_in_view :: "chunk \<Rightarrow> bool" where
  "seen_in_view c =
     (\<forall>y x. square_in_bounds c y x \<longrightarrow> SQUARE_SEEN \<in> info c (y, x) \<longrightarrow> SQUARE_VIEW \<in> info c (y, x))"

text \<open>
  The states in which every array access of \<open>update_view\<close> is inside the grid: the
  player stands on the grid, every monster slot holds a position on the grid, and a
  living monster that carries a light is not on the border (its 3x3 box is on the grid).
\<close>

definition monster_ready :: "chunk \<Rightarrow> monster \<Rightarrow> bool" where
  "monster_ready c m =
     (square_in_bounds c (fy m) (fx m) \<and>
      (case race m of None \<Rightarrow> True
       | Some r \<Rightarrow> rf_has (rflags r) RF_HAS_LIGHT \<longrightarrow> square_in_bounds_fully c (fy m) (fx m)))"

definition view_ready :: "chunk \<Rightarrow> player \<Rightarrow> bool" where
  "view_ready c p =
     (square_in_bounds c (player_py p) (player_px p) \<and>
      (\<forall>m \<in> set (monsters c). monster_ready c m))"

text \<open>
  What every step of \<open>update_view\<close> after the first keeps: the level, the flow data, the
  flags other than the five that the view engine writes, the MARK flag, the VIEW flags
  already set, and the invariant.
\<close>

definition view_flags :: "square_flag set" where
  "view_flags = {SQUARE_VIEW, SQUARE_SEEN, SQUARE_WASSEEN, SQUARE_MARK, SQUARE_FEEL}"

definition keeps :: "chunk \<Rightarrow> chunk \<Rightarrow> bool" where
  "keeps c c' =
     (height c' = height c \<and> width c' = width c \<and> feat c' = feat c \<and> monsters c' = monsters c \<and>
      cost c' = cost c \<and> when_c c' = when_c c \<and>
      (\<forall>q. info c' q - view_flags = info c q - view_flags) \<and>
      (\<forall>q. SQUARE_MARK \<in> info c' q \<longleftrightarrow> SQUARE_MARK \<in> info c q) \<and>
      (\<forall>q. SQUARE_VIEW \<in> info c q \<longrightarrow> SQUARE_VIEW \<in> info c' q) \<and>
      (seen_in_view c \<longrightarrow> seen_in_view c'))"
section \<open>Lighting a room\<close>














section \<open>Lighting a room: notions used to state its properties\<close>



definition interesting :: "(nat \<Rightarrow> feature) \<Rightarrow> chunk \<Rightarrow> int \<times> int \<Rightarrow> bool" where
  "interesting f_info c p = tf_has (flags (f_info (feat c p))) TF_INTERESTING"

text \<open>
  Two chunks are the same map when they have the same size, terrain and monsters; they
  have the same rooms when the same cells carry ROOM. In a closed room every cell of the
  grid that carries ROOM and lets sight pass has its eight neighbours on the grid.
\<close>

definition same_map :: "chunk \<Rightarrow> chunk \<Rightarrow> bool" where
  "same_map c c' =
     (height c' = height c \<and> width c' = width c \<and> feat c' = feat c \<and> monsters c' = monsters c)"










section \<open>The flow field\<close>

definition FLOW_MAX :: int where
  "FLOW_MAX = 2048"

text \<open>
  Modelled from the spec: the direction tables \<^verbatim>\<open>ddy_ddd\<close> and \<^verbatim>\<open>ddx_ddd\<close> are declared
  in tables.h and not defined in cave.c; the spec says that the children of a cell are
  its 8 neighbours. Their first eight entries are the offsets to the eight neighbours,
  here in the order south, north, east, west, south-east, south-west, north-east,
  north-west.
\<close>

definition ddy_ddd :: "int list" where
  "ddy_ddd = [1, - 1, 0, 0, 1, 1, - 1, - 1]"

definition ddx_ddd :: "int list" where
  "ddx_ddd = [0, 0, 1, - 1, 1, - 1, 1, - 1]"

text \<open>
  The local variables of \<^verbatim>\<open>cave_update_flow\<close> that make the circular queue: the two byte
  arrays and the two indices.
\<close>

record flow_queue =
  flow_y :: "int \<Rightarrow> int"
  flow_x :: "int \<Rightarrow> int"
  flow_head :: int
  flow_tail :: int

text \<open>
  One pass of the body of \<^verbatim>\<open>for (d = 0; d < 8; d++)\<close>, for the dequeued cell \<open>(ty, tx)\<close>
  and the child cost \<open>n\<close>. The stores into the byte arrays \<^verbatim>\<open>when\<close>, \<^verbatim>\<open>cost\<close>, \<^verbatim>\<open>flow_y\<close>
  and \<^verbatim>\<open>flow_x\<close> keep the low eight bits.
\<close>

definition flow_child ::
  "(nat \<Rightarrow> feature) \<Rightarrow> int \<Rightarrow> int \<Rightarrow> int \<Rightarrow> int \<Rightarrow> chunk \<times> flow_queue \<Rightarrow> nat \<Rightarrow> chunk \<times> flow_queue" where
  "flow_child f_info flow_n n ty tx s d =
     (let c = fst s; q = snd s;
          old_head = flow_tail q;
          y = ty + ddy_ddd ! d; x = tx + ddx_ddd ! d in
      if \<not> square_in_bounds c y x then s
      else if when_c c (y, x) = flow_n then s
      else if tf_has (flags (f_info (feat c (y, x)))) TF_NO_FLOW then s
      else
        let c' = c\<lparr>cost := (cost c)((y, x) := n mod 256),
                   when_c := (when_c c)((y, x) := flow_n mod 256)\<rparr>;
            q' = q\<lparr>flow_y := (flow_y q)(flow_tail q := y mod 256),
                   flow_x := (flow_x q)(flow_tail q := x mod 256)\<rparr>;
            t = (if flow_tail q + 1 = FLOW_MAX then 0 else flow_tail q + 1);
            t' = (if t = flow_head q then old_head else t)
        in (c', q'\<lparr>flow_tail := t'\<rparr>))"

definition flow_children ::
  "(nat \<Rightarrow> feature) \<Rightarrow> int \<Rightarrow> int \<Rightarrow> int \<Rightarrow> int \<Rightarrow> chunk \<times> flow_queue \<Rightarrow> chunk \<times> flow_queue" where
  "flow_children f_info flow_n n ty tx s = foldl (flow_child f_info flow_n n ty tx) s [0..<8]"

text \<open>
  The loop \<^verbatim>\<open>while (flow_head != flow_tail)\<close>. \<open>flow_depth\<close> is the constant
  MONSTER_FLOW_DEPTH, which cave.c does not define. The read \<^verbatim>\<open>c->cost[ty][tx]\<close> has no
  defined result outside the grid.
\<close>

partial_function (option) flow_loop ::
  "(nat \<Rightarrow> feature) \<Rightarrow> int \<Rightarrow> int \<Rightarrow> chunk \<times> flow_queue \<Rightarrow> chunk option" where
  "flow_loop f_info flow_depth flow_n s =
     (let c = fst s; q = snd s in
      if flow_head q \<noteq> flow_tail q then
        (let ty = flow_y q (flow_head q); tx = flow_x q (flow_head q);
             q' = q\<lparr>flow_head := (if flow_head q + 1 = FLOW_MAX then 0 else flow_head q + 1)\<rparr> in
         if \<not> square_in_bounds c ty tx then None
         else
           let n = cost c (ty, tx) + 1 in
           if n = flow_depth then flow_loop f_info flow_depth flow_n (c, q')
           else flow_loop f_info flow_depth flow_n (flow_children f_info flow_n n ty tx (c, q')))
      else Some c)"

declare flow_loop.simps [code]

text \<open>The cycling of the time stamps, one cell of the scan.\<close>

definition flow_cycle_one :: "chunk \<Rightarrow> int \<Rightarrow> int \<Rightarrow> chunk option" where
  "flow_cycle_one c y x =
     (let w = when_c c (y, x) in
      Some (c\<lparr>when_c := (when_c c)((y, x) := (if w \<ge> 128 then w - 128 else 0))\<rparr>))"

text \<open>
  \<^verbatim>\<open>cave_update_flow\<close>. The static variable \<^verbatim>\<open>flow_save\<close> is passed in and returned with
  the chunk; the player's position \<open>(py, px)\<close> is read from the global \<^verbatim>\<open>player\<close>. The
  arrays \<^verbatim>\<open>flow_y\<close> and \<^verbatim>\<open>flow_x\<close> are not initialised by the source: \<open>init_y\<close> and \<open>init_x\<close>
  are whatever they hold on entry.
\<close>

definition cave_update_flow ::
  "(nat \<Rightarrow> feature) \<Rightarrow> int \<Rightarrow> (int \<Rightarrow> int) \<Rightarrow> (int \<Rightarrow> int) \<Rightarrow> int \<Rightarrow> int \<Rightarrow> chunk \<times> int \<Rightarrow> (chunk \<times> int) option" where
  "cave_update_flow f_info flow_depth init_y init_x py px s =
     (let c = fst s; flow_save = snd s in
      do { (c1, flow_save1) \<leftarrow>
             (if flow_save = 255
              then do { c' \<leftarrow> for_grid flow_cycle_one c; Some (c', 128) }
              else Some (c, flow_save + 1));
           let flow_n = flow_save1 in
           if \<not> square_in_bounds c1 py px then None
           else
             let c2 = c1\<lparr>when_c := (when_c c1)((py, px) := flow_n mod 256)\<rparr>;
                 c3 = c2\<lparr>cost := (cost c2)((py, px) := 0)\<rparr>;
                 q = \<lparr>flow_y = init_y(0 := py mod 256), flow_x = init_x(0 := px mod 256),
                      flow_head = 0, flow_tail = 1\<rparr>
             in do { c4 \<leftarrow> flow_loop f_info flow_depth flow_n (c3, q);
                     Some (c4, flow_save1) } })"
section \<open>The flow field: notions used to state its properties\<close>

text \<open>
  The operations on the circular queue as \<^verbatim>\<open>cave_update_flow\<close> writes them in line:
  taking the entry at \<open>flow_head\<close>, and storing an entry at \<open>flow_tail\<close> (the producer
  index is put back when advancing it would reach the consumer index). \<open>live q i\<close> says
  that slot \<open>i\<close> holds an entry that is queued, \<open>queue_length\<close> counts those slots.
\<close>

definition indices_ok :: "flow_queue \<Rightarrow> bool" where
  "indices_ok q = (0 \<le> flow_head q \<and> flow_head q < FLOW_MAX \<and> 0 \<le> flow_tail q \<and> flow_tail q < FLOW_MAX)"

definition queue_length :: "flow_queue \<Rightarrow> nat" where
  "queue_length q = nat ((flow_tail q - flow_head q) mod FLOW_MAX)"

definition dequeue :: "flow_queue \<Rightarrow> flow_queue" where
  "dequeue q = q\<lparr>flow_head := (if flow_head q + 1 = FLOW_MAX then 0 else flow_head q + 1)\<rparr>"

definition enqueue :: "int \<times> int \<Rightarrow> flow_queue \<Rightarrow> flow_queue" where
  "enqueue p q =
     (let t = (if flow_tail q + 1 = FLOW_MAX then 0 else flow_tail q + 1) in
      q\<lparr>flow_y := (flow_y q)(flow_tail q := fst p mod 256),
        flow_x := (flow_x q)(flow_tail q := snd p mod 256),
        flow_tail := (if t = flow_head q then flow_tail q else t)\<rparr>)"

definition front :: "flow_queue \<Rightarrow> int \<times> int" where
  "front q = (flow_y q (flow_head q), flow_x q (flow_head q))"

definition live :: "flow_queue \<Rightarrow> int \<Rightarrow> bool" where
  "live q i = (0 \<le> i \<and> i < FLOW_MAX \<and>
               (i - flow_head q) mod FLOW_MAX < (flow_tail q - flow_head q) mod FLOW_MAX)"

text \<open>
  A cell is stamped by writing the current generation and its cost. \<open>flows_to\<close> is the
  test that a child passes before it is stamped; \<open>unstamped\<close> are the cells of the grid
  that do not carry the generation \<open>n\<close>.
\<close>

definition stamp :: "int \<Rightarrow> int \<Rightarrow> int \<times> int \<Rightarrow> chunk \<Rightarrow> chunk" where
  "stamp flow_n n p c = c\<lparr>cost := (cost c)(p := n mod 256), when_c := (when_c c)(p := flow_n mod 256)\<rparr>"

definition flows_to :: "(nat \<Rightarrow> feature) \<Rightarrow> int \<Rightarrow> chunk \<Rightarrow> int \<times> int \<Rightarrow> bool" where
  "flows_to f_info flow_n c p =
     (square_in_bounds c (fst p) (snd p) \<and> when_c c p \<noteq> flow_n \<and>
      \<not> tf_has (flags (f_info (feat c p))) TF_NO_FLOW)"

definition unstamped :: "int \<Rightarrow> chunk \<Rightarrow> (int \<times> int) set" where
  "unstamped n c = {p. square_in_bounds c (fst p) (snd p) \<and> when_c c p \<noteq> n}"

text \<open>
  Two chunks are the same level when they have the same size and the same terrain. The
  queue stores coordinates in bytes, so the grid is to be at most 256 cells high and
  wide. \<open>when_range n c\<close>: every time stamp on the grid lies between 0 and \<open>n\<close>.
\<close>

definition same_level :: "chunk \<Rightarrow> chunk \<Rightarrow> bool" where
  "same_level c c' = (height c' = height c \<and> width c' = width c \<and> feat c' = feat c)"

definition small_grid :: "chunk \<Rightarrow> bool" where
  "small_grid c = (height c \<le> 256 \<and> width c \<le> 256)"

definition when_range :: "int \<Rightarrow> chunk \<Rightarrow> bool" where
  "when_range n c = (\<forall>y x. square_in_bounds c y x \<longrightarrow> 0 \<le> when_c c (y, x) \<and> when_c c (y, x) \<le> n)"

text \<open>
  The relation between two runs of the queue loop, one with generation \<open>n1\<close> and one
  with generation \<open>n2\<close>: the queued entries lie on the grid and are stamped; both queues
  have the same indices and the same queued entries; and the same cells carry the
  current generation in both chunks, with the same cost.
\<close>

definition flow_inv :: "int \<Rightarrow> chunk \<times> flow_queue \<Rightarrow> bool" where
  "flow_inv n s =
     (indices_ok (snd s) \<and>
      (\<forall>i. live (snd s) i \<longrightarrow>
         square_in_bounds (fst s) (flow_y (snd s) i) (flow_x (snd s) i) \<and>
         when_c (fst s) (flow_y (snd s) i, flow_x (snd s) i) = n))"

definition queue_agree :: "flow_queue \<Rightarrow> flow_queue \<Rightarrow> bool" where
  "queue_agree q1 q2 =
     (flow_head q2 = flow_head q1 \<and> flow_tail q2 = flow_tail q1 \<and>
      (\<forall>i. live q1 i \<longrightarrow> flow_y q2 i = flow_y q1 i \<and> flow_x q2 i = flow_x q1 i))"

definition flow_rel :: "int \<Rightarrow> int \<Rightarrow> chunk \<Rightarrow> chunk \<Rightarrow> bool" where
  "flow_rel n1 n2 c1 c2 =
     (height c2 = height c1 \<and> width c2 = width c1 \<and> feat c2 = feat c1 \<and>
      (\<forall>y x. square_in_bounds c1 y x \<longrightarrow>
         ((when_c c1 (y, x) = n1) = (when_c c2 (y, x) = n2)) \<and>
         (when_c c1 (y, x) = n1 \<longrightarrow> cost c2 (y, x) = cost c1 (y, x))))"

definition flow_sim :: "int \<Rightarrow> int \<Rightarrow> chunk \<times> flow_queue \<Rightarrow> chunk \<times> flow_queue \<Rightarrow> bool" where
  "flow_sim n1 n2 s1 s2 =
     (small_grid (fst s1) \<and> flow_inv n1 s1 \<and> queue_agree (snd s1) (snd s2) \<and>
      flow_rel n1 n2 (fst s1) (fst s2) \<and> when_range n1 (fst s1) \<and> when_range n2 (fst s2))"

text \<open>
  The state between two calls of \<^verbatim>\<open>cave_update_flow\<close>: the counter \<^verbatim>\<open>flow_save\<close> is a byte
  value and no stamp on the grid is newer than it. \<open>flow_begin\<close> is the first part of the
  call, which advances the counter and cycles the stamps when the counter was 255.
\<close>

definition flow_ready :: "chunk \<times> int \<Rightarrow> bool" where
  "flow_ready s = (0 \<le> snd s \<and> snd s \<le> 255 \<and> when_range (snd s) (fst s))"

definition flow_begin :: "chunk \<times> int \<Rightarrow> (chunk \<times> int) option" where
  "flow_begin s =
     (if snd s = 255
      then do { c' \<leftarrow> for_grid flow_cycle_one (fst s); Some (c', 128) }
      else Some (fst s, snd s + 1))"

text \<open>
  \<open>k\<close> calls of \<^verbatim>\<open>cave_update_flow\<close> one after the other, with the player at \<open>(py, px)\<close>;
  \<open>init_y i\<close> and \<open>init_x i\<close> are what the uninitialised queue arrays hold on entry to
  call \<open>i\<close>.
\<close>

fun flow_calls ::
  "(nat \<Rightarrow> feature) \<Rightarrow> int \<Rightarrow> (nat \<Rightarrow> int \<Rightarrow> int) \<Rightarrow> (nat \<Rightarrow> int \<Rightarrow> int) \<Rightarrow> int \<Rightarrow> int \<Rightarrow> nat \<Rightarrow>
   chunk \<times> int \<Rightarrow> (chunk \<times> int) option" where
  "flow_calls f_info flow_depth init_y init_x py px 0 s = Some s"
| "flow_calls f_info flow_depth init_y init_x py px (Suc k) s =
     do { s' \<leftarrow> flow_calls f_info flow_depth init_y init_x py px k s;
          cave_update_flow f_info flow_depth (init_y k) (init_x k) py px s' }"

text \<open>What the cycling of the time stamps makes of a stamp.\<close>

definition cycled :: "int \<Rightarrow> int" where
  "cycled v = (if v \<ge> 128 then v - 128 else 0)"
section \<open>The flow field as a breadth-first search\<close>

text \<open>
  The queued entries, oldest first: \<open>slot q k\<close> is the index of the \<open>k\<close>-th entry after the
  consumer index.
\<close>

definition slot :: "flow_queue \<Rightarrow> nat \<Rightarrow> int" where
  "slot q k = (flow_head q + int k) mod FLOW_MAX"

definition queue_list :: "flow_queue \<Rightarrow> (int \<times> int) list" where
  "queue_list q = map (\<lambda>k. (flow_y q (slot q k), flow_x q (slot q k))) [0..<queue_length q]"

text \<open>
  Distances and neighbours. \<open>chebyshev\<close> is the number of king moves between two cells,
  \<open>cheb py px p\<close> the same from the player's cell \<open>(py, px)\<close> to the cell \<open>p\<close>. \<open>child_of p d\<close>
  is the child of \<open>p\<close> in direction \<open>d\<close>, \<open>adjacent\<close> the relation between a cell and its
  eight neighbours, and \<open>nearer py px r\<close> the neighbour of \<open>r\<close> one step nearer to the player.
\<close>

definition chebyshev :: "int \<Rightarrow> int \<Rightarrow> int \<Rightarrow> int \<Rightarrow> int" where
  "chebyshev y1 x1 y2 x2 = max \<bar>y1 - y2\<bar> \<bar>x1 - x2\<bar>"

definition cheb :: "int \<Rightarrow> int \<Rightarrow> int \<times> int \<Rightarrow> int" where
  "cheb py px p = max \<bar>fst p - py\<bar> \<bar>snd p - px\<bar>"

definition child_of :: "int \<times> int \<Rightarrow> nat \<Rightarrow> int \<times> int" where
  "child_of p d = (fst p + ddy_ddd ! d, snd p + ddx_ddd ! d)"

definition adjacent :: "int \<times> int \<Rightarrow> int \<times> int \<Rightarrow> bool" where
  "adjacent p r = (\<bar>fst r - fst p\<bar> \<le> 1 \<and> \<bar>snd r - snd p\<bar> \<le> 1 \<and> r \<noteq> p)"

definition nearer :: "int \<Rightarrow> int \<Rightarrow> int \<times> int \<Rightarrow> int \<times> int" where
  "nearer py px r = (fst r - sgn (fst r - py), snd r - sgn (snd r - px))"

text \<open>
  \<open>grid c\<close> are the cells of the chunk, \<open>stamped n c\<close> those that carry the generation \<open>n\<close>.
  In an open room no cell of the grid has the flag \<^verbatim>\<open>TF_NO_FLOW\<close>.
\<close>

definition grid :: "chunk \<Rightarrow> (int \<times> int) set" where
  "grid c = {p. square_in_bounds c (fst p) (snd p)}"

definition open_room :: "(nat \<Rightarrow> feature) \<Rightarrow> chunk \<Rightarrow> bool" where
  "open_room f_info c = (\<forall>p \<in> grid c. \<not> tf_has (flags (f_info (feat c p))) TF_NO_FLOW)"

definition stamped :: "int \<Rightarrow> chunk \<Rightarrow> (int \<times> int) set" where
  "stamped n c = {p \<in> grid c. when_c c p = n}"

text \<open>
  The invariant of the queue loop in an open room, for the generation \<open>n\<close> and the depth
  limit \<open>D\<close>. Every stamped cell holds its distance from the player as cost, below the
  limit. The queued cells are stamped, pairwise distinct and ordered by distance, the
  last at most one step farther than the first, and every cell that is not farther than
  the first is stamped. A stamped cell that is not queued is done: it was at the limit,
  or all its neighbours on the grid are stamped.
\<close>

definition bfs_base :: "(nat \<Rightarrow> feature) \<Rightarrow> int \<Rightarrow> int \<Rightarrow> int \<Rightarrow> int \<Rightarrow> chunk \<Rightarrow> bool" where
  "bfs_base f_info n D py px c =
     (small_grid c \<and> open_room f_info c \<and> (py, px) \<in> stamped n c \<and>
      (\<forall>p \<in> stamped n c. cost c p = cheb py px p \<and> cheb py px p < D))"

definition bfs_queue :: "int \<Rightarrow> int \<Rightarrow> int \<Rightarrow> chunk \<Rightarrow> (int \<times> int) list \<Rightarrow> bool" where
  "bfs_queue n py px c l =
     (distinct l \<and> set l \<subseteq> stamped n c \<and> sorted (map (cheb py px) l))"

definition done_cell :: "int \<Rightarrow> int \<Rightarrow> int \<Rightarrow> int \<Rightarrow> chunk \<Rightarrow> int \<times> int \<Rightarrow> bool" where
  "done_cell n D py px c p =
     (cheb py px p + 1 = D \<or> (\<forall>r \<in> grid c. adjacent p r \<longrightarrow> when_c c r = n))"

definition bfs_inv ::
  "(nat \<Rightarrow> feature) \<Rightarrow> int \<Rightarrow> int \<Rightarrow> int \<Rightarrow> int \<Rightarrow> chunk \<times> flow_queue \<Rightarrow> bool" where
  "bfs_inv f_info n D py px s =
     (indices_ok (snd s) \<and> bfs_base f_info n D py px (fst s) \<and>
      bfs_queue n py px (fst s) (queue_list (snd s)) \<and>
      (\<forall>p \<in> stamped n (fst s). p \<notin> set (queue_list (snd s)) \<longrightarrow> done_cell n D py px (fst s) p) \<and>
      (queue_list (snd s) \<noteq> [] \<longrightarrow>
         cheb py px (last (queue_list (snd s))) \<le> cheb py px (hd (queue_list (snd s))) + 1 \<and>
         (\<forall>p \<in> grid (fst s). cheb py px p \<le> cheb py px (hd (queue_list (snd s))) \<longrightarrow>
            when_c (fst s) p = n)))"

text \<open>
  The invariant inside the loop over the eight directions, while the children of the
  dequeued cell \<open>pp\<close> are generated; \<open>ds\<close> are the directions dealt with.
\<close>

definition bfs_mid ::
  "(nat \<Rightarrow> feature) \<Rightarrow> int \<Rightarrow> int \<Rightarrow> int \<Rightarrow> int \<Rightarrow> int \<times> int \<Rightarrow> nat list \<Rightarrow> chunk \<times> flow_queue \<Rightarrow> bool" where
  "bfs_mid f_info n D py px pp ds s =
     (indices_ok (snd s) \<and> bfs_base f_info n D py px (fst s) \<and>
      bfs_queue n py px (fst s) (queue_list (snd s)) \<and>
      pp \<in> stamped n (fst s) \<and> pp \<notin> set (queue_list (snd s)) \<and> cheb py px pp + 1 \<noteq> D \<and>
      (\<forall>p \<in> stamped n (fst s). p \<notin> set (queue_list (snd s)) \<longrightarrow> p \<noteq> pp \<longrightarrow>
         done_cell n D py px (fst s) p) \<and>
      (\<forall>p \<in> set (queue_list (snd s)). cheb py px pp \<le> cheb py px p \<and> cheb py px p \<le> cheb py px pp + 1) \<and>
      (\<forall>p \<in> grid (fst s). cheb py px p \<le> cheb py px pp \<longrightarrow> when_c (fst s) p = n) \<and>
      (\<forall>d \<in> set ds. child_of pp d \<in> grid (fst s) \<longrightarrow> when_c (fst s) (child_of pp d) = n))"

section \<open>Concrete levels\<close>

text \<open>
  A terrain table with two kinds of terrain: feature 0 is open floor, every other
  index is granite (it stops sight and flow). \<open>room_with_walls h w ws\<close> is the level of
  height \<open>h\<close> and width \<open>w\<close> that is floor except for granite at the cells \<open>ws\<close>, with no
  flag set, no flow data and no monster.
\<close>

definition floor_or_granite :: "nat \<Rightarrow> feature" where
  "floor_or_granite f =
     (if f = 0 then \<lparr>flags = {TF_PROJECT, TF_PASSABLE}\<rparr> else \<lparr>flags = {TF_NO_FLOW, TF_ROCK}\<rparr>)"

definition room_with_walls :: "int \<Rightarrow> int \<Rightarrow> (int \<times> int) list \<Rightarrow> chunk" where
  "room_with_walls h w ws =
     \<lparr>height = h, width = w, feat = (\<lambda>p. if p \<in> set ws then 1 else 0), info = (\<lambda>p. {}),
      cost = (\<lambda>p. 0), when_c = (\<lambda>p. 0), monsters = [], feeling_squares = 0\<rparr>"

text \<open>
  A level of four rows and two columns in which the wall cell \<open>(3, 1)\<close> glows and the
  cell \<open>(2, 0)\<close>, one step from it toward the player at \<open>(0, 0)\<close>, is a wall that does
  not glow.
\<close>

definition glowing_wall_level :: chunk where
  "glowing_wall_level =
     (room_with_walls 4 2 [(3, 1), (2, 0)])\<lparr>info := (\<lambda>p. if p = (3, 1) then {SQUARE_GLOW} else {})\<rparr>"

text \<open>A 3x3 room in which the cell \<open>(1, 2)\<close> is already marked VIEW and SEEN.\<close>

definition viewed_level :: chunk where
  "viewed_level =
     (room_with_walls 3 3 [])\<lparr>info := (\<lambda>p. if p = (1, 2) then {SQUARE_VIEW, SQUARE_SEEN} else {})\<rparr>"

text \<open>
  A 5x5 room with one granite cell and one monster that carries a light, and a player
  in its centre with a torch of radius 1.
\<close>

definition lit_room :: chunk where
  "lit_room =
     (room_with_walls 5 5 [(1, 1)])\<lparr>monsters :=
        [\<lparr>fy = 3, fx = 3, race = Some \<lparr>rflags = {RF_HAS_LIGHT}\<rparr>\<rparr>]\<rparr>"

definition torch_player :: player where
  "torch_player = \<lparr>player_py = 2, player_px = 2, cur_light = 1, timed_blind = 0\<rparr>"

text \<open>
  Two states of the circular queue of \<^verbatim>\<open>cave_update_flow\<close>, with the consumer index at
  slot 2: in \<open>crowded_queue\<close> the slots 2 to 2047 are queued and the slots 0 and 1 are
  free, in \<open>full_queue\<close> slot 0 is queued as well, so that the queue holds the 2047
  entries it can hold.
\<close>

definition crowded_queue :: flow_queue where
  "crowded_queue = \<lparr>flow_y = (\<lambda>i. 1), flow_x = (\<lambda>i. 1), flow_head = 2, flow_tail = 0\<rparr>"

definition full_queue :: flow_queue where
  "full_queue = \<lparr>flow_y = (\<lambda>i. 1), flow_x = (\<lambda>i. 1), flow_head = 2, flow_tail = 1\<rparr>"

text \<open>
  For stating the result of a call of \<^verbatim>\<open>cave_update_flow\<close> on a concrete level:
  \<open>blank_array\<close> is a queue array that holds zeros on entry, and \<open>cost_after r y x\<close> is the
  cost stored for the cell \<open>(y, x)\<close> in the result \<open>r\<close> of the call.
\<close>

definition blank_array :: "int \<Rightarrow> int" where
  "blank_array i = 0"

definition cost_after :: "(chunk \<times> int) option \<Rightarrow> int \<Rightarrow> int \<Rightarrow> int option" where
  "cost_after r y x = map_option (\<lambda>s. cost (fst s) (y, x)) r"

text \<open>
  For a sequence of calls: \<open>blank_arrays\<close> gives every call queue arrays that hold zeros
  on entry; \<open>counter_after r\<close> is the generation counter in the result \<open>r\<close>, and
  \<open>stamped_after r y x\<close> says whether the cell \<open>(y, x)\<close> carries that generation.
\<close>

definition blank_arrays :: "nat \<Rightarrow> int \<Rightarrow> int" where
  "blank_arrays k i = 0"

definition counter_after :: "(chunk \<times> int) option \<Rightarrow> int option" where
  "counter_after r = map_option snd r"

definition stamped_after :: "(chunk \<times> int) option \<Rightarrow> int \<Rightarrow> int \<Rightarrow> bool option" where
  "stamped_after r y x = map_option (\<lambda>s. when_c (fst s) (y, x) = snd s) r"






section \<open>Line of sight: proofs\<close>

lemma square_isprojectable_in:
  "square_in_bounds c y x \<Longrightarrow> square_isprojectable f_info c y x = Some (projectable f_info c y x)"
  by (simp add: square_isprojectable_def c_assert_def projectable_def)

lemma los_south_eq:
  "0 \<le> x1 \<Longrightarrow> x1 < width c \<Longrightarrow> 0 \<le> ty \<Longrightarrow> y2 \<le> height c \<Longrightarrow>
   los_south f_info c x1 y2 ty = Some (\<forall>y. ty \<le> y \<and> y < y2 \<longrightarrow> projectable f_info c y x1)"
proof (induction f_info c x1 y2 ty rule: los_south.induct)
  case (1 f_info c x1 y2 ty)
  show ?case
  proof (cases "ty < y2")
    case False
    then show ?thesis by (subst los_south.simps) auto
  next
    case True
    have inb: "square_in_bounds c ty x1"
      using 1(2-) True by (simp add: square_in_bounds_def)
    show ?thesis
    proof (cases "projectable f_info c ty x1")
      case False
      then show ?thesis using True inb
        by (subst los_south.simps) (auto simp: square_isprojectable_in)
    next
      case p: True
      have IH: "los_south f_info c x1 y2 (ty + 1) =
                Some (\<forall>y. ty + 1 \<le> y \<and> y < y2 \<longrightarrow> projectable f_info c y x1)"
        using 1(1)[OF True _ _ ] 1(2-) p inb
        by (simp add: square_isprojectable_in)
      have "(\<forall>y. ty \<le> y \<and> y < y2 \<longrightarrow> projectable f_info c y x1) =
            (\<forall>y. ty + 1 \<le> y \<and> y < y2 \<longrightarrow> projectable f_info c y x1)"
        using p by (metis add1_zle_eq order_less_le)
      then show ?thesis using True inb p IH
        by (subst los_south.simps) (simp add: square_isprojectable_in)
    qed
  qed
qed

lemma los_north_eq:
  "0 \<le> x1 \<Longrightarrow> x1 < width c \<Longrightarrow> ty < height c \<Longrightarrow> - 1 \<le> y2 \<Longrightarrow>
   los_north f_info c x1 y2 ty = Some (\<forall>y. y2 < y \<and> y \<le> ty \<longrightarrow> projectable f_info c y x1)"
proof (induction f_info c x1 y2 ty rule: los_north.induct)
  case (1 f_info c x1 y2 ty)
  show ?case
  proof (cases "ty > y2")
    case False
    then show ?thesis by (subst los_north.simps) auto
  next
    case True
    have inb: "square_in_bounds c ty x1"
      using 1(2-) True by (simp add: square_in_bounds_def)
    show ?thesis
    proof (cases "projectable f_info c ty x1")
      case False
      then show ?thesis using True inb
        by (subst los_north.simps) (auto simp: square_isprojectable_in)
    next
      case p: True
      have IH: "los_north f_info c x1 y2 (ty - 1) =
                Some (\<forall>y. y2 < y \<and> y \<le> ty - 1 \<longrightarrow> projectable f_info c y x1)"
        using 1(1)[OF True _ _ ] 1(2-) p inb
        by (simp add: square_isprojectable_in)
      have "(\<forall>y. y2 < y \<and> y \<le> ty \<longrightarrow> projectable f_info c y x1) =
            (\<forall>y. y2 < y \<and> y \<le> ty - 1 \<longrightarrow> projectable f_info c y x1)"
        using p by (metis zle_diff1_eq order_less_le)
      then show ?thesis using True inb p IH
        by (subst los_north.simps) (simp add: square_isprojectable_in)
    qed
  qed
qed

lemma los_east_eq:
  "0 \<le> y1 \<Longrightarrow> y1 < height c \<Longrightarrow> 0 \<le> tx \<Longrightarrow> x2 \<le> width c \<Longrightarrow>
   los_east f_info c y1 x2 tx = Some (\<forall>x. tx \<le> x \<and> x < x2 \<longrightarrow> projectable f_info c y1 x)"
proof (induction f_info c y1 x2 tx rule: los_east.induct)
  case (1 f_info c y1 x2 tx)
  show ?case
  proof (cases "tx < x2")
    case False
    then show ?thesis by (subst los_east.simps) auto
  next
    case True
    have inb: "square_in_bounds c y1 tx"
      using 1(2-) True by (simp add: square_in_bounds_def)
    show ?thesis
    proof (cases "projectable f_info c y1 tx")
      case False
      then show ?thesis using True inb
        by (subst los_east.simps) (auto simp: square_isprojectable_in)
    next
      case p: True
      have IH: "los_east f_info c y1 x2 (tx + 1) =
                Some (\<forall>x. tx + 1 \<le> x \<and> x < x2 \<longrightarrow> projectable f_info c y1 x)"
        using 1(1)[OF True _ _ ] 1(2-) p inb
        by (simp add: square_isprojectable_in)
      have "(\<forall>x. tx \<le> x \<and> x < x2 \<longrightarrow> projectable f_info c y1 x) =
            (\<forall>x. tx + 1 \<le> x \<and> x < x2 \<longrightarrow> projectable f_info c y1 x)"
        using p by (metis add1_zle_eq order_less_le)
      then show ?thesis using True inb p IH
        by (subst los_east.simps) (simp add: square_isprojectable_in)
    qed
  qed
qed

lemma los_west_eq:
  "0 \<le> y1 \<Longrightarrow> y1 < height c \<Longrightarrow> tx < width c \<Longrightarrow> - 1 \<le> x2 \<Longrightarrow>
   los_west f_info c y1 x2 tx = Some (\<forall>x. x2 < x \<and> x \<le> tx \<longrightarrow> projectable f_info c y1 x)"
proof (induction f_info c y1 x2 tx rule: los_west.induct)
  case (1 f_info c y1 x2 tx)
  show ?case
  proof (cases "tx > x2")
    case False
    then show ?thesis by (subst los_west.simps) auto
  next
    case True
    have inb: "square_in_bounds c y1 tx"
      using 1(2-) True by (simp add: square_in_bounds_def)
    show ?thesis
    proof (cases "projectable f_info c y1 tx")
      case False
      then show ?thesis using True inb
        by (subst los_west.simps) (auto simp: square_isprojectable_in)
    next
      case p: True
      have IH: "los_west f_info c y1 x2 (tx - 1) =
                Some (\<forall>x. x2 < x \<and> x \<le> tx - 1 \<longrightarrow> projectable f_info c y1 x)"
        using 1(1)[OF True _ _ ] 1(2-) p inb
        by (simp add: square_isprojectable_in)
      have "(\<forall>x. x2 < x \<and> x \<le> tx \<longrightarrow> projectable f_info c y1 x) =
            (\<forall>x. x2 < x \<and> x \<le> tx - 1 \<longrightarrow> projectable f_info c y1 x)"
        using p by (metis zle_diff1_eq order_less_le)
      then show ?thesis using True inb p IH
        by (subst los_west.simps) (simp add: square_isprojectable_in)
    qed
  qed
qed

lemma los_orthogonal_eq:
  assumes "square_in_bounds c y1 x1" and "square_in_bounds c y2 x2"
    and "(x1 = x2 \<and> 2 \<le> \<bar>y2 - y1\<bar>) \<or> (y1 = y2 \<and> 2 \<le> \<bar>x2 - x1\<bar>)"
  shows "los f_info c y1 x1 y2 x2 =
         Some (\<forall>y x. strictly_between y1 x1 y2 x2 y x \<longrightarrow> projectable f_info c y x)"
proof -
  from assms(3) consider
      (S) "x1 = x2" "y1 + 2 \<le> y2" | (N) "x1 = x2" "y2 + 2 \<le> y1"
    | (E) "y1 = y2" "x1 + 2 \<le> x2" | (W) "y1 = y2" "x2 + 2 \<le> x1"
    by linarith
  then show ?thesis
  proof cases
    case S
    have "los f_info c y1 x1 y2 x2 = los_south f_info c x1 y2 (y1 + 1)"
      using S by (simp add: los_def Let_def)
    also have "\<dots> = Some (\<forall>y. y1 + 1 \<le> y \<and> y < y2 \<longrightarrow> projectable f_info c y x1)"
      using assms(1,2) by (intro los_south_eq) (auto simp: square_in_bounds_def)
    also have "(\<forall>y. y1 + 1 \<le> y \<and> y < y2 \<longrightarrow> projectable f_info c y x1) =
               (\<forall>y x. strictly_between y1 x1 y2 x2 y x \<longrightarrow> projectable f_info c y x)"
      using S by (auto simp: strictly_between_def)
    finally show ?thesis .
  next
    case N
    have "los f_info c y1 x1 y2 x2 = los_north f_info c x1 y2 (y1 - 1)"
      using N by (simp add: los_def Let_def)
    also have "\<dots> = Some (\<forall>y. y2 < y \<and> y \<le> y1 - 1 \<longrightarrow> projectable f_info c y x1)"
      using assms(1,2) by (intro los_north_eq) (auto simp: square_in_bounds_def)
    also have "(\<forall>y. y2 < y \<and> y \<le> y1 - 1 \<longrightarrow> projectable f_info c y x1) =
               (\<forall>y x. strictly_between y1 x1 y2 x2 y x \<longrightarrow> projectable f_info c y x)"
      using N by (auto simp: strictly_between_def)
    finally show ?thesis .
  next
    case E
    have "los f_info c y1 x1 y2 x2 = los_east f_info c y1 x2 (x1 + 1)"
      using E by (simp add: los_def Let_def)
    also have "\<dots> = Some (\<forall>x. x1 + 1 \<le> x \<and> x < x2 \<longrightarrow> projectable f_info c y1 x)"
      using assms(1,2) by (intro los_east_eq) (auto simp: square_in_bounds_def)
    also have "(\<forall>x. x1 + 1 \<le> x \<and> x < x2 \<longrightarrow> projectable f_info c y1 x) =
               (\<forall>y x. strictly_between y1 x1 y2 x2 y x \<longrightarrow> projectable f_info c y x)"
      using E by (auto simp: strictly_between_def)
    finally show ?thesis .
  next
    case W
    have "los f_info c y1 x1 y2 x2 = los_west f_info c y1 x2 (x1 - 1)"
      using W by (simp add: los_def Let_def)
    also have "\<dots> = Some (\<forall>x. x2 < x \<and> x \<le> x1 - 1 \<longrightarrow> projectable f_info c y1 x)"
      using assms(1,2) by (intro los_west_eq) (auto simp: square_in_bounds_def)
    also have "(\<forall>x. x2 < x \<and> x \<le> x1 - 1 \<longrightarrow> projectable f_info c y1 x) =
               (\<forall>y x. strictly_between y1 x1 y2 x2 y x \<longrightarrow> projectable f_info c y x)"
      using W by (auto simp: strictly_between_def)
    finally show ?thesis .
  qed
qed

text \<open>
  Claim C7. For two distinct cells of the grid on one row or one column, at distance at
  least 2, \<open>los\<close> returns, and returns true exactly when every cell strictly between
  them is projectable; so turning one cell strictly between them into terrain that is
  not projectable makes the result false, whatever it was.
\<close>

theorem los_orthogonal:
  assumes "square_in_bounds c y1 x1" and "square_in_bounds c y2 x2"
    and "(x1 = x2 \<and> 2 \<le> \<bar>y2 - y1\<bar>) \<or> (y1 = y2 \<and> 2 \<le> \<bar>x2 - x1\<bar>)"
  shows "los f_info c y1 x1 y2 x2 =
           Some (\<forall>y x. strictly_between y1 x1 y2 x2 y x \<longrightarrow> projectable f_info c y x) \<and>
         (\<forall>wy wx w. strictly_between y1 x1 y2 x2 wy wx \<and> \<not> feat_isprojectable (f_info w) \<longrightarrow>
            los f_info (c\<lparr>feat := (feat c)((wy, wx) := w)\<rparr>) y1 x1 y2 x2 = Some False)"
proof (intro conjI allI impI)
  show "los f_info c y1 x1 y2 x2 =
        Some (\<forall>y x. strictly_between y1 x1 y2 x2 y x \<longrightarrow> projectable f_info c y x)"
    by (rule los_orthogonal_eq[OF assms])
next
  fix wy wx w
  assume w: "strictly_between y1 x1 y2 x2 wy wx \<and> \<not> feat_isprojectable (f_info w)"
  let ?c = "c\<lparr>feat := (feat c)((wy, wx) := w)\<rparr>"
  have "los f_info ?c y1 x1 y2 x2 =
        Some (\<forall>y x. strictly_between y1 x1 y2 x2 y x \<longrightarrow> projectable f_info ?c y x)"
    using assms by (intro los_orthogonal_eq) (auto simp: square_in_bounds_def)
  moreover have "\<not> projectable f_info ?c wy wx"
    using w by (simp add: projectable_def)
  ultimately show "los f_info ?c y1 x1 y2 x2 = Some False"
    using w by auto
qed

lemma los_diag_unfold:
  assumes "x2 \<noteq> x1" and "y2 \<noteq> y1" and "2 \<le> \<bar>x2 - x1\<bar> \<or> 2 \<le> \<bar>y2 - y1\<bar>"
  shows "los f_info c y1 x1 y2 x2 =
         do { k \<leftarrow> los_knight f_info c y1 x1 \<bar>x2 - x1\<bar> \<bar>y2 - y1\<bar> (sgn (x2 - x1)) (sgn (y2 - y1));
              if k then Some True
              else los_walk f_info c y1 x1 y2 x2 \<bar>x2 - x1\<bar> \<bar>y2 - y1\<bar>
                     (sgn (x2 - x1)) (sgn (y2 - y1)) }"
proof -
  have sx: "(if x2 - x1 < 0 then - 1 else 1) = sgn (x2 - x1)"
    using assms(1) by (simp add: sgn_if)
  have sy: "(if y2 - y1 < 0 then - 1 else 1) = sgn (y2 - y1)"
    using assms(2) by (simp add: sgn_if)
  have n: "\<not> (\<bar>x2 - x1\<bar> < 2 \<and> \<bar>y2 - y1\<bar> < 2)" "x2 - x1 \<noteq> 0" "y2 - y1 \<noteq> 0"
    using assms by auto
  show ?thesis
    unfolding los_def Let_def sx sy using n by (simp only: if_False)
qed

theorem los_orthogonal_witness:
  "los floor_or_granite (room_with_walls 1 4 []) 0 0 0 3 = Some True \<and>
   los floor_or_granite
     ((room_with_walls 1 4 [])\<lparr>feat := (feat (room_with_walls 1 4 []))((0, 1) := 1)\<rparr>) 0 0 0 3 = Some False"
proof -
  have inb: "square_in_bounds (room_with_walls 1 4 []) 0 0" "square_in_bounds (room_with_walls 1 4 []) 0 3"
    by (simp_all add: square_in_bounds_def room_with_walls_def)
  have far: "((0::int) = 3 \<and> 2 \<le> \<bar>(0::int) - 0\<bar>) \<or> ((0::int) = 0 \<and> 2 \<le> \<bar>(3::int) - 0\<bar>)"
    by simp
  note t = los_orthogonal[OF inb far, of floor_or_granite]
  have open_room: "\<forall>y x. strictly_between 0 0 0 3 y x \<longrightarrow>
                    projectable floor_or_granite (room_with_walls 1 4 []) y x"
    by (simp add: projectable_def room_with_walls_def floor_or_granite_def
                  feat_isprojectable_def tf_has_def)
  have blocked: "strictly_between 0 0 0 3 0 1 \<and> \<not> feat_isprojectable (floor_or_granite 1)"
    by (simp add: strictly_between_def floor_or_granite_def feat_isprojectable_def tf_has_def)
  from t open_room have "los floor_or_granite (room_with_walls 1 4 []) 0 0 0 3 = Some True"
    by simp
  moreover from t blocked have
    "los floor_or_granite
       ((room_with_walls 1 4 [])\<lparr>feat := (feat (room_with_walls 1 4 []))((0, 1) := 1)\<rparr>) 0 0 0 3 = Some False"
    by blast
  ultimately show ?thesis by simp
qed

text \<open>
  Claim C6. For two cells at offset \<open>(|dx|, |dy|) = (1, 2)\<close> or \<open>(2, 1)\<close>, \<open>los\<close> returns
  true whenever the cell next to the start along the axis of the larger delta, on the
  side of that delta's sign, is projectable.
\<close>

theorem los_knight_move:
  assumes "(\<bar>x2 - x1\<bar> = 1 \<and> \<bar>y2 - y1\<bar> = 2 \<and>
            square_isprojectable f_info c (y1 + sgn (y2 - y1)) x1 = Some True) \<or>
           (\<bar>x2 - x1\<bar> = 2 \<and> \<bar>y2 - y1\<bar> = 1 \<and>
            square_isprojectable f_info c y1 (x1 + sgn (x2 - x1)) = Some True)"
  shows "los f_info c y1 x1 y2 x2 = Some True"
proof -
  have ne: "x2 \<noteq> x1" "y2 \<noteq> y1" "2 \<le> \<bar>x2 - x1\<bar> \<or> 2 \<le> \<bar>y2 - y1\<bar>"
    using assms by auto
  have "los_knight f_info c y1 x1 \<bar>x2 - x1\<bar> \<bar>y2 - y1\<bar> (sgn (x2 - x1)) (sgn (y2 - y1)) = Some True"
    using assms unfolding los_knight_def by auto
  then show ?thesis
    by (simp add: los_diag_unfold[OF ne])
qed

lemma crossed_column:
  fixes ax ay j k e j' :: int
  assumes "1 \<le> ay" "ay \<le> ax" "- ax \<le> e" "e < ax" "e = ay * (2 * k - 1) - 2 * ax * j"
  shows "crossed ax ay j' k \<longleftrightarrow> (j' = j \<or> (j' = j + 1 \<and> ax < e + 2 * ay))"
proof -
  define d where "d = j' - j"
  define D where "D = ax * d"
  have eq: "2 * (ax * j' - ay * k) = 2 * D - e - ay"
    unfolding D_def d_def assms(5) by (simp add: algebra_simps)
  have cr: "crossed ax ay j' k \<longleftrightarrow> \<bar>2 * D - e - ay\<bar> < ax + ay"
    unfolding crossed_def eq ..
  consider "d \<le> - 1" | "d = 0" | "d = 1" | "2 \<le> d" by linarith
  then show ?thesis
  proof cases
    case 1
    have "ax * d \<le> ax * (- 1)" using 1 assms(1,2) by (intro mult_left_mono) auto
    then have "D \<le> - ax" by (simp add: D_def)
    then have "\<not> crossed ax ay j' k" unfolding cr using assms(1-4) by linarith
    moreover have "j' \<noteq> j" "j' \<noteq> j + 1" using 1 by (auto simp: d_def)
    ultimately show ?thesis by simp
  next
    case 2
    then have "D = 0" "j' = j" by (auto simp: D_def d_def)
    then show ?thesis unfolding cr using assms(1-4) by auto
  next
    case 3
    then have "D = ax" "j' = j + 1" by (auto simp: D_def d_def)
    then show ?thesis unfolding cr using assms(1-4) by auto
  next
    case 4
    have "ax * 2 \<le> ax * d" using 4 assms(1,2) by (intro mult_left_mono) auto
    then have "2 * ax \<le> D" by (simp add: D_def)
    then have "\<not> crossed ax ay j' k" unfolding cr using assms(1-4) by linarith
    moreover have "j' \<noteq> j" "j' \<noteq> j + 1" using 4 by (auto simp: d_def)
    ultimately show ?thesis by simp
  qed
qed

lemma row_le:
  fixes ax ay j k e :: int
  assumes "1 \<le> ay" "ay \<le> ax" "- ax \<le> e" "e = ay * (2 * k - 1) - 2 * ax * j" "k < ax"
  shows "j \<le> ay"
proof (rule ccontr)
  assume "\<not> j \<le> ay"
  define A where "A = ax * j"
  define B where "B = ay * k"
  define C where "C = ax * ay"
  have "ax * (ay + 1) \<le> ax * j" using \<open>\<not> j \<le> ay\<close> assms(1,2) by (intro mult_left_mono) auto
  then have 1: "C + ax \<le> A" by (simp add: A_def C_def algebra_simps)
  have "ay * k \<le> ay * (ax - 1)" using assms by (intro mult_left_mono) auto
  then have 2: "B \<le> C - ay" by (simp add: B_def C_def algebra_simps)
  have 3: "e = 2 * B - ay - 2 * A" unfolding assms(4) A_def B_def by (simp add: algebra_simps)
  show False using 1 2 3 assms(1-3) by linarith
qed

lemma row_lt:
  fixes ax ay j k e :: int
  assumes "1 \<le> ay" "ay \<le> ax" "ax < e + 2 * ay" "e = ay * (2 * k - 1) - 2 * ax * j" "k < ax"
  shows "j + 1 \<le> ay"
proof (rule ccontr)
  assume n: "\<not> j + 1 \<le> ay"
  define A where "A = ax * j"
  define B where "B = ay * k"
  define C where "C = ax * ay"
  have "ax * ay \<le> ax * j" using n assms(1,2) by (intro mult_left_mono) auto
  then have 1: "C \<le> A" by (simp add: A_def C_def)
  have "ay * k \<le> ay * (ax - 1)" using assms by (intro mult_left_mono) auto
  then have 2: "B \<le> C - ay" by (simp add: B_def C_def algebra_simps)
  have 3: "e = 2 * B - ay - 2 * A" unfolding assms(4) A_def B_def by (simp add: algebra_simps)
  show False using 1 2 3 assms(1-3) by linarith
qed

lemma los_travel_h_eq:
  fixes ax ay j k e sx sy y1 x1 :: int
  assumes box: "\<And>j' k'. 0 \<le> j' \<Longrightarrow> j' \<le> ay \<Longrightarrow> 0 \<le> k' \<Longrightarrow> k' \<le> ax \<Longrightarrow>
                  square_in_bounds c (y1 + sy * j') (x1 + sx * k')"
    and sx: "sx = 1 \<or> sx = - 1"
    and ay: "1 \<le> ay" "ay \<le> ax"
    and k: "1 \<le> k" "k \<le> ax" and j: "0 \<le> j"
    and e: "- ax \<le> e" "e < ax" "e = ay * (2 * k - 1) - 2 * ax * j"
  shows "los_travel_h f_info c (x1 + sx * ax) sx sy (2 * (ax * ay)) (ax * ay) (2 * (ay * ay))
           (y1 + sy * j) (x1 + sx * k) (ay * e) =
         Some (\<forall>k' j'. k \<le> k' \<and> k' < ax \<and> crossed ax ay j' k' \<longrightarrow>
                 projectable f_info c (y1 + sy * j') (x1 + sx * k'))"
  using k j e
proof (induction "nat (ax - k)" arbitrary: j k e)
  case 0
  then have "k = ax" by simp
  then show ?case by (subst los_travel_h.simps) auto
next
  case (Suc n)
  let ?P = "\<lambda>j' k'. projectable f_info c (y1 + sy * j') (x1 + sx * k')"
  let ?R = "\<lambda>k0. \<forall>k' j'. k0 \<le> k' \<and> k' < ax \<and> crossed ax ay j' k' \<longrightarrow> ?P j' k'"
  define f2 where "f2 = ax * ay"
  define f1 where "f1 = 2 * (ax * ay)"
  define m where "m = 2 * (ay * ay)"
  define qy where "qy = ay * e"
  define tx where "tx = x1 + sx * k"
  define ty where "ty = y1 + sy * j"
  define x2 where "x2 = x1 + sx * ax"
  from Suc.hyps(2) have klt: "k < ax" by linarith
  have ne: "x2 - tx \<noteq> 0"
    using sx klt by (auto simp: x2_def tx_def)
  note col = crossed_column[OF ay Suc.prems(4,5,6)]
  have jle: "j \<le> ay" by (rule row_le[OF ay Suc.prems(4,6) klt])
  have inb: "square_isprojectable f_info c ty tx = Some (?P j k)"
    unfolding ty_def tx_def
    using box[of j k] jle Suc.prems klt by (intro square_isprojectable_in) simp
  have split: "?R k \<longleftrightarrow> ?P j k \<and> (ax < e + 2 * ay \<longrightarrow> ?P (j + 1) k) \<and> ?R (k + 1)"
  proof -
    have "?R k \<longleftrightarrow> (\<forall>j'. crossed ax ay j' k \<longrightarrow> ?P j' k) \<and> ?R (k + 1)"
      using klt by (auto simp: order_le_less) (metis add1_zle_eq order_le_less)+
    also have "(\<forall>j'. crossed ax ay j' k \<longrightarrow> ?P j' k) \<longleftrightarrow> ?P j k \<and> (ax < e + 2 * ay \<longrightarrow> ?P (j + 1) k)"
      unfolding col by auto
    finally show ?thesis by blast
  qed
  have qm: "qy + m = ay * (e + 2 * ay)" "f2 = ay * ax"
    by (simp_all add: qy_def m_def f2_def algebra_simps)
  have cmp1: "qy + m < f2 \<longleftrightarrow> e + 2 * ay < ax"
    unfolding qm using ay(1) by (simp add: mult_less_cancel_left_pos)
  have cmp2: "qy + m > f2 \<longleftrightarrow> ax < e + 2 * ay"
    unfolding qm using ay(1) by (simp add: mult_less_cancel_left_pos)
  have n: "n = nat (ax - (k + 1))" using Suc.hyps(2) by linarith
  have k1: "1 \<le> k + 1" "k + 1 \<le> ax" using Suc.prems klt by auto
  have txe: "tx + sx = x1 + sx * (k + 1)" by (simp add: tx_def algebra_simps)
  have tye: "ty + sy = y1 + sy * (j + 1)" by (simp add: ty_def algebra_simps)
  have q2: "qy + m - f1 = ay * (e + 2 * ay - 2 * ax)"
    by (simp add: qy_def m_def f1_def algebra_simps)
  have goal: "los_travel_h f_info c x2 sx sy f1 f2 m ty tx qy = Some (?R k)"
  proof (cases "?P j k")
    case False
    then show ?thesis using ne inb split
      by (subst los_travel_h.simps) simp
  next
    case P: True
    consider (lt) "e + 2 * ay < ax" | (gt) "ax < e + 2 * ay" | (eq) "e + 2 * ay = ax"
      by linarith
    then show ?thesis
    proof cases
      case lt
      have IH: "los_travel_h f_info c x2 sx sy f1 f2 m ty (tx + sx) (qy + m) = Some (?R (k + 1))"
        unfolding txe qm(1) unfolding x2_def f1_def f2_def ty_def m_def
        using Suc.prems lt ay by (intro Suc.hyps(1)[OF n k1]) (auto simp: algebra_simps)
      show ?thesis using ne inb P lt split IH
        by (subst los_travel_h.simps) (simp add: cmp1)
    next
      case gt
      have j1: "j + 1 \<le> ay" by (rule row_lt[OF ay gt Suc.prems(6) klt])
      have inb': "square_isprojectable f_info c (ty + sy) tx = Some (?P (j + 1) k)"
        unfolding tye unfolding tx_def
        using box[of "j + 1" k] j1 Suc.prems klt by (intro square_isprojectable_in) simp
      have IH: "los_travel_h f_info c x2 sx sy f1 f2 m (ty + sy) (tx + sx) (qy + m - f1) = Some (?R (k + 1))"
        unfolding x2_def txe tye q2 unfolding f1_def f2_def m_def
        using Suc.prems gt ay by (intro Suc.hyps(1)[OF n k1]) (auto simp: algebra_simps)
      have ncmp: "\<not> e + 2 * ay < ax" using gt by simp
      show ?thesis
      proof (cases "?P (j + 1) k")
        case False
        then show ?thesis using ne inb inb' P gt ncmp split
          by (subst los_travel_h.simps) (simp add: cmp1 cmp2)
      next
        case True
        then show ?thesis using ne inb inb' P gt ncmp split IH
          by (subst los_travel_h.simps) (simp add: cmp1 cmp2)
      qed
    next
      case eq
      have IH: "los_travel_h f_info c x2 sx sy f1 f2 m (ty + sy) (tx + sx) (qy + m - f1) = Some (?R (k + 1))"
        unfolding x2_def txe tye q2 unfolding f1_def f2_def m_def
        using Suc.prems eq ay by (intro Suc.hyps(1)[OF n k1]) (auto simp: algebra_simps)
      have ncmp: "\<not> e + 2 * ay < ax" "\<not> ax < e + 2 * ay" using eq by simp_all
      show ?thesis using ne inb P ncmp split IH
        by (subst los_travel_h.simps) (simp add: cmp1 cmp2)
    qed
  qed
  then show ?case
    unfolding x2_def f1_def f2_def m_def ty_def tx_def qy_def .
qed


lemma los_travel_v_eq:
  fixes ax ay j k e sx sy y1 x1 :: int
  assumes box: "\<And>j' k'. 0 \<le> j' \<Longrightarrow> j' \<le> ay \<Longrightarrow> 0 \<le> k' \<Longrightarrow> k' \<le> ax \<Longrightarrow>
                  square_in_bounds c (y1 + sy * j') (x1 + sx * k')"
    and sy: "sy = 1 \<or> sy = - 1"
    and ax: "1 \<le> ax" "ax \<le> ay"
    and j: "1 \<le> j" "j \<le> ay" and k: "0 \<le> k"
    and e: "- ay \<le> e" "e < ay" "e = ax * (2 * j - 1) - 2 * ay * k"
  shows "los_travel_v f_info c (y1 + sy * ay) sx sy (2 * (ax * ay)) (ax * ay) (2 * (ax * ax))
           (y1 + sy * j) (x1 + sx * k) (ax * e) =
         Some (\<forall>j' k'. j \<le> j' \<and> j' < ay \<and> crossed ay ax k' j' \<longrightarrow>
                 projectable f_info c (y1 + sy * j') (x1 + sx * k'))"
  using j k e
proof (induction "nat (ay - j)" arbitrary: j k e)
  case 0
  then have "j = ay" by simp
  then show ?case by (subst los_travel_v.simps) auto
next
  case (Suc n)
  let ?P = "\<lambda>j' k'. projectable f_info c (y1 + sy * j') (x1 + sx * k')"
  let ?R = "\<lambda>j0. \<forall>j' k'. j0 \<le> j' \<and> j' < ay \<and> crossed ay ax k' j' \<longrightarrow> ?P j' k'"
  define f2 where "f2 = ax * ay"
  define f1 where "f1 = 2 * (ax * ay)"
  define m where "m = 2 * (ax * ax)"
  define qx where "qx = ax * e"
  define tx where "tx = x1 + sx * k"
  define ty where "ty = y1 + sy * j"
  define y2 where "y2 = y1 + sy * ay"
  from Suc.hyps(2) have jlt: "j < ay" by linarith
  have ne: "y2 - ty \<noteq> 0"
    using sy jlt by (auto simp: y2_def ty_def)
  note col = crossed_column[OF ax Suc.prems(4,5,6)]
  have kle: "k \<le> ax" by (rule row_le[OF ax Suc.prems(4,6) jlt])
  have inb: "square_isprojectable f_info c ty tx = Some (?P j k)"
    unfolding ty_def tx_def
    using box[of j k] kle Suc.prems jlt by (intro square_isprojectable_in) simp
  have split: "?R j \<longleftrightarrow> ?P j k \<and> (ay < e + 2 * ax \<longrightarrow> ?P j (k + 1)) \<and> ?R (j + 1)"
  proof -
    have "?R j \<longleftrightarrow> (\<forall>k'. crossed ay ax k' j \<longrightarrow> ?P j k') \<and> ?R (j + 1)"
      using jlt by (auto simp: order_le_less) (metis add1_zle_eq order_le_less)+
    also have "(\<forall>k'. crossed ay ax k' j \<longrightarrow> ?P j k') \<longleftrightarrow> ?P j k \<and> (ay < e + 2 * ax \<longrightarrow> ?P j (k + 1))"
      unfolding col by auto
    finally show ?thesis by blast
  qed
  have qm: "qx + m = ax * (e + 2 * ax)" "f2 = ax * ay"
    by (simp_all add: qx_def m_def f2_def algebra_simps)
  have cmp1: "qx + m < f2 \<longleftrightarrow> e + 2 * ax < ay"
    unfolding qm using ax(1) by (simp add: mult_less_cancel_left_pos)
  have cmp2: "qx + m > f2 \<longleftrightarrow> ay < e + 2 * ax"
    unfolding qm using ax(1) by (simp add: mult_less_cancel_left_pos)
  have n: "n = nat (ay - (j + 1))" using Suc.hyps(2) by linarith
  have j1: "1 \<le> j + 1" "j + 1 \<le> ay" using Suc.prems jlt by auto
  have txe: "tx + sx = x1 + sx * (k + 1)" by (simp add: tx_def algebra_simps)
  have tye: "ty + sy = y1 + sy * (j + 1)" by (simp add: ty_def algebra_simps)
  have q2: "qx + m - f1 = ax * (e + 2 * ax - 2 * ay)"
    by (simp add: qx_def m_def f1_def algebra_simps)
  have goal: "los_travel_v f_info c y2 sx sy f1 f2 m ty tx qx = Some (?R j)"
  proof (cases "?P j k")
    case False
    then show ?thesis using ne inb split
      by (subst los_travel_v.simps) simp
  next
    case P: True
    consider (lt) "e + 2 * ax < ay" | (gt) "ay < e + 2 * ax" | (eq) "e + 2 * ax = ay"
      by linarith
    then show ?thesis
    proof cases
      case lt
      have IH: "los_travel_v f_info c y2 sx sy f1 f2 m (ty + sy) tx (qx + m) = Some (?R (j + 1))"
        unfolding tye qm(1) unfolding y2_def f1_def f2_def tx_def m_def
        using Suc.prems lt ax by (intro Suc.hyps(1)[OF n j1]) (auto simp: algebra_simps)
      show ?thesis using ne inb P lt split IH
        by (subst los_travel_v.simps) (simp add: cmp1)
    next
      case gt
      have k1: "k + 1 \<le> ax" by (rule row_lt[OF ax gt Suc.prems(6) jlt])
      have inb': "square_isprojectable f_info c ty (tx + sx) = Some (?P j (k + 1))"
        unfolding txe unfolding ty_def
        using box[of j "k + 1"] k1 Suc.prems jlt by (intro square_isprojectable_in) simp
      have IH: "los_travel_v f_info c y2 sx sy f1 f2 m (ty + sy) (tx + sx) (qx + m - f1) = Some (?R (j + 1))"
        unfolding y2_def txe tye q2 unfolding f1_def f2_def m_def
        using Suc.prems gt ax by (intro Suc.hyps(1)[OF n j1]) (auto simp: algebra_simps)
      have ncmp: "\<not> e + 2 * ax < ay" using gt by simp
      show ?thesis
      proof (cases "?P j (k + 1)")
        case False
        then show ?thesis using ne inb inb' P gt ncmp split
          by (subst los_travel_v.simps) (simp add: cmp1 cmp2)
      next
        case True
        then show ?thesis using ne inb inb' P gt ncmp split IH
          by (subst los_travel_v.simps) (simp add: cmp1 cmp2)
      qed
    next
      case eq
      have IH: "los_travel_v f_info c y2 sx sy f1 f2 m (ty + sy) (tx + sx) (qx + m - f1) = Some (?R (j + 1))"
        unfolding y2_def txe tye q2 unfolding f1_def f2_def m_def
        using Suc.prems eq ax by (intro Suc.hyps(1)[OF n j1]) (auto simp: algebra_simps)
      have ncmp: "\<not> e + 2 * ax < ay" "\<not> ay < e + 2 * ax" using eq by simp_all
      show ?thesis using ne inb P ncmp split IH
        by (subst los_travel_v.simps) (simp add: cmp1 cmp2)
    qed
  qed
  then show ?case
    unfolding y2_def f1_def f2_def m_def ty_def tx_def qx_def .
qed

lemma crossed_swap: "crossed ay ax k j = crossed ax ay j k"
  unfolding crossed_def by (simp add: abs_minus_commute algebra_simps)

lemma bounding_box:
  fixes y1 x1 y2 x2 j k :: int
  assumes "square_in_bounds c y1 x1" "square_in_bounds c y2 x2"
    and "0 \<le> j" "j \<le> \<bar>y2 - y1\<bar>" "0 \<le> k" "k \<le> \<bar>x2 - x1\<bar>"
  shows "square_in_bounds c (y1 + sgn (y2 - y1) * j) (x1 + sgn (x2 - x1) * k)"
  using assms unfolding square_in_bounds_def by (auto simp: sgn_if abs_if split: if_splits)

lemma los_walk_eq:
  fixes y1 x1 y2 x2 :: int
  assumes inb: "square_in_bounds c y1 x1" "square_in_bounds c y2 x2"
    and ne: "x2 \<noteq> x1" "y2 \<noteq> y1"
  shows "los_walk f_info c y1 x1 y2 x2 \<bar>x2 - x1\<bar> \<bar>y2 - y1\<bar> (sgn (x2 - x1)) (sgn (y2 - y1)) =
         Some (\<forall>j k. inner \<bar>x2 - x1\<bar> \<bar>y2 - y1\<bar> j k \<and> crossed \<bar>x2 - x1\<bar> \<bar>y2 - y1\<bar> j k \<longrightarrow>
                 projectable f_info c (y1 + sgn (y2 - y1) * j) (x1 + sgn (x2 - x1) * k))"
proof -
  define ax where "ax = \<bar>x2 - x1\<bar>"
  define ay where "ay = \<bar>y2 - y1\<bar>"
  define sx where "sx = sgn (x2 - x1)"
  define sy where "sy = sgn (y2 - y1)"
  have pos: "1 \<le> ax" "1 \<le> ay" using ne by (auto simp: ax_def ay_def)
  have sg: "sx = 1 \<or> sx = - 1" "sy = 1 \<or> sy = - 1"
    using ne by (auto simp: sx_def sy_def sgn_if)
  have x2: "x2 = x1 + sx * ax" and y2: "y2 = y1 + sy * ay"
    by (auto simp: sx_def sy_def ax_def ay_def sgn_if)
  have box: "\<And>j' k'. 0 \<le> j' \<Longrightarrow> j' \<le> ay \<Longrightarrow> 0 \<le> k' \<Longrightarrow> k' \<le> ax \<Longrightarrow>
                  square_in_bounds c (y1 + sy * j') (x1 + sx * k')"
    unfolding ax_def ay_def sx_def sy_def by (rule bounding_box[OF inb])
  let ?P = "\<lambda>j k. projectable f_info c (y1 + sy * j) (x1 + sx * k)"
  have "los_walk f_info c y1 x1 y2 x2 ax ay sx sy =
        Some (\<forall>j k. inner ax ay j k \<and> crossed ax ay j k \<longrightarrow> ?P j k)"
  proof (cases "ay \<le> ax")
    case True
    have R: "(\<forall>j k. inner ax ay j k \<and> crossed ax ay j k \<longrightarrow> ?P j k) =
             (\<forall>k' j'. 1 \<le> k' \<and> k' < ax \<and> crossed ax ay j' k' \<longrightarrow> ?P j' k')"
      using True by (auto simp: inner_def)
    show ?thesis
    proof (cases "ay = ax")
      case eq: True
      have "los_walk f_info c y1 x1 y2 x2 ax ay sx sy =
            los_travel_h f_info c (x1 + sx * ax) sx sy (2 * (ax * ay)) (ax * ay) (2 * (ay * ay))
              (y1 + sy * 1) (x1 + sx * 1) (ay * (ay - 2 * ax))"
        using eq x2 by (simp add: los_walk_def Let_def algebra_simps)
      also have "\<dots> = Some (\<forall>k' j'. 1 \<le> k' \<and> k' < ax \<and> crossed ax ay j' k' \<longrightarrow> ?P j' k')"
        using pos eq by (intro los_travel_h_eq box sg) auto
      finally show ?thesis unfolding R .
    next
      case neq: False
      then have lt: "ay < ax" using True by simp
      have nq: "ay * ay \<noteq> ax * ay" using lt pos by simp
      have "los_walk f_info c y1 x1 y2 x2 ax ay sx sy =
            los_travel_h f_info c (x1 + sx * ax) sx sy (2 * (ax * ay)) (ax * ay) (2 * (ay * ay))
              (y1 + sy * 0) (x1 + sx * 1) (ay * ay)"
        using True nq x2 by (simp add: los_walk_def Let_def)
      also have "\<dots> = Some (\<forall>k' j'. 1 \<le> k' \<and> k' < ax \<and> crossed ax ay j' k' \<longrightarrow> ?P j' k')"
        using pos lt by (intro los_travel_h_eq box sg) auto
      finally show ?thesis unfolding R .
    qed
  next
    case False
    then have lt: "ax < ay" by simp
    have R: "(\<forall>j k. inner ax ay j k \<and> crossed ax ay j k \<longrightarrow> ?P j k) =
             (\<forall>j' k'. 1 \<le> j' \<and> j' < ay \<and> crossed ay ax k' j' \<longrightarrow> ?P j' k')"
      using False by (auto simp: inner_def crossed_swap)
    have nq: "ax * ax \<noteq> ax * ay" using lt pos by simp
    have "los_walk f_info c y1 x1 y2 x2 ax ay sx sy =
          los_travel_v f_info c (y1 + sy * ay) sx sy (2 * (ax * ay)) (ax * ay) (2 * (ax * ax))
            (y1 + sy * 1) (x1 + sx * 0) (ax * ax)"
      using False nq y2 by (simp add: los_walk_def Let_def)
    also have "\<dots> = Some (\<forall>j' k'. 1 \<le> j' \<and> j' < ay \<and> crossed ay ax k' j' \<longrightarrow> ?P j' k')"
      using pos lt by (intro los_travel_v_eq box sg) auto
    finally show ?thesis unfolding R .
  qed
  then show ?thesis unfolding ax_def ay_def sx_def sy_def .
qed

theorem los_knight_move_witness:
  "los floor_or_granite (room_with_walls 3 3 [(1, 1)]) 0 0 1 2 = Some True"
proof -
  have "\<bar>(2::int) - 0\<bar> = 2 \<and> \<bar>(1::int) - 0\<bar> = 1 \<and>
        square_isprojectable floor_or_granite (room_with_walls 3 3 [(1, 1)]) 0 (0 + sgn (2 - 0)) = Some True"
    by (simp add: square_isprojectable_def c_assert_def square_in_bounds_def room_with_walls_def
                  floor_or_granite_def feat_isprojectable_def tf_has_def)
  then show ?thesis
    using los_knight_move[of 2 0 1 0 floor_or_granite "room_with_walls 3 3 [(1, 1)]"] by blast
qed

lemma crossed_rev: "crossed ax ay (ay - j) (ax - k) = crossed ax ay j k"
proof -
  have "ax * (ay - j) - ay * (ax - k) = - (ax * j - ay * k)"
    by (simp add: algebra_simps)
  then show ?thesis unfolding crossed_def by (simp del: mult_minus_right add: abs_minus_commute)
qed

lemma inner_rev: "inner ax ay (ay - j) (ax - k) = inner ax ay j k"
  unfolding inner_def by auto

lemma strictly_between_sym:
  "strictly_between y2 x2 y1 x1 y x = strictly_between y1 x1 y2 x2 y x"
  unfolding strictly_between_def by (auto simp: min_def max_def)

lemma los_knight_no:
  "\<not> (ax = 1 \<and> ay = 2) \<Longrightarrow> \<not> (ax = 2 \<and> ay = 1) \<Longrightarrow>
   los_knight f_info c y1 x1 ax ay sx sy = Some False"
  unfolding los_knight_def by auto

lemma los_diagonal_eq:
  fixes y1 x1 y2 x2 :: int
  assumes inb: "square_in_bounds c y1 x1" "square_in_bounds c y2 x2"
    and ne: "x2 \<noteq> x1" "y2 \<noteq> y1" "2 \<le> \<bar>x2 - x1\<bar> \<or> 2 \<le> \<bar>y2 - y1\<bar>"
    and nk: "\<not> (\<bar>x2 - x1\<bar> = 1 \<and> \<bar>y2 - y1\<bar> = 2)" "\<not> (\<bar>x2 - x1\<bar> = 2 \<and> \<bar>y2 - y1\<bar> = 1)"
  shows "los f_info c y1 x1 y2 x2 =
         Some (\<forall>j k. inner \<bar>x2 - x1\<bar> \<bar>y2 - y1\<bar> j k \<and> crossed \<bar>x2 - x1\<bar> \<bar>y2 - y1\<bar> j k \<longrightarrow>
                 projectable f_info c (y1 + sgn (y2 - y1) * j) (x1 + sgn (x2 - x1) * k))"
  by (simp add: los_diag_unfold[OF ne] los_knight_no[OF nk] los_walk_eq[OF inb ne(1,2)])

text \<open>
  Claim C3. For two cells of the grid whose offset \<open>(|dx|, |dy|)\<close> is neither \<open>(1, 2)\<close>
  nor \<open>(2, 1)\<close>, \<open>los\<close> from the first to the second returns the same boolean as \<open>los\<close>
  from the second to the first, and both calls return.
\<close>

theorem los_symmetric:
  fixes y1 x1 y2 x2 :: int
  assumes inb: "square_in_bounds c y1 x1" "square_in_bounds c y2 x2"
    and nk: "\<not> (\<bar>x2 - x1\<bar> = 1 \<and> \<bar>y2 - y1\<bar> = 2)" "\<not> (\<bar>x2 - x1\<bar> = 2 \<and> \<bar>y2 - y1\<bar> = 1)"
  shows "los f_info c y1 x1 y2 x2 = los f_info c y2 x2 y1 x1 \<and>
         los f_info c y1 x1 y2 x2 \<noteq> None"
proof -
  consider (adj) "\<bar>x2 - x1\<bar> < 2" "\<bar>y2 - y1\<bar> < 2"
    | (orth) "(x1 = x2 \<and> 2 \<le> \<bar>y2 - y1\<bar>) \<or> (y1 = y2 \<and> 2 \<le> \<bar>x2 - x1\<bar>)"
    | (diag) "x2 \<noteq> x1" "y2 \<noteq> y1" "2 \<le> \<bar>x2 - x1\<bar> \<or> 2 \<le> \<bar>y2 - y1\<bar>"
    by linarith
  then show ?thesis
  proof cases
    case adj
    then have "\<bar>x1 - x2\<bar> < 2" "\<bar>y1 - y2\<bar> < 2" by linarith+
    then show ?thesis using adj by (simp add: los_def Let_def)
  next
    case orth
    then have orth': "(x2 = x1 \<and> 2 \<le> \<bar>y1 - y2\<bar>) \<or> (y2 = y1 \<and> 2 \<le> \<bar>x1 - x2\<bar>)"
      by linarith
    show ?thesis
      unfolding los_orthogonal_eq[OF inb orth] los_orthogonal_eq[OF inb(2,1) orth']
      by (simp add: strictly_between_sym)
  next
    case diag
    define ax where "ax = \<bar>x2 - x1\<bar>"
    define ay where "ay = \<bar>y2 - y1\<bar>"
    define sx where "sx = sgn (x2 - x1)"
    define sy where "sy = sgn (y2 - y1)"
    have rev: "\<bar>x1 - x2\<bar> = ax" "\<bar>y1 - y2\<bar> = ay" "sgn (x1 - x2) = - sx" "sgn (y1 - y2) = - sy"
      by (auto simp: ax_def ay_def sx_def sy_def sgn_if)
    have x2: "x2 = x1 + sx * ax" and y2: "y2 = y1 + sy * ay"
      by (auto simp: sx_def sy_def ax_def ay_def sgn_if)
    have diag': "x1 \<noteq> x2" "y1 \<noteq> y2" "2 \<le> \<bar>x1 - x2\<bar> \<or> 2 \<le> \<bar>y1 - y2\<bar>"
      using diag by linarith+
    have nk': "\<not> (\<bar>x1 - x2\<bar> = 1 \<and> \<bar>y1 - y2\<bar> = 2)" "\<not> (\<bar>x1 - x2\<bar> = 2 \<and> \<bar>y1 - y2\<bar> = 1)"
      using nk by linarith+
    let ?P = "projectable f_info c"
    have fwd: "los f_info c y1 x1 y2 x2 =
               Some (\<forall>j k. inner ax ay j k \<and> crossed ax ay j k \<longrightarrow> ?P (y1 + sy * j) (x1 + sx * k))"
      unfolding ax_def ay_def sx_def sy_def by (rule los_diagonal_eq[OF inb diag nk])
    have bwd: "los f_info c y2 x2 y1 x1 =
               Some (\<forall>j k. inner ax ay j k \<and> crossed ax ay j k \<longrightarrow> ?P (y2 + - sy * j) (x2 + - sx * k))"
      using los_diagonal_eq[OF inb(2,1) diag' nk', of f_info] unfolding rev .
    have "(\<forall>j k. inner ax ay j k \<and> crossed ax ay j k \<longrightarrow> ?P (y2 + - sy * j) (x2 + - sx * k)) =
          (\<forall>j k. inner ax ay j k \<and> crossed ax ay j k \<longrightarrow> ?P (y1 + sy * j) (x1 + sx * k))"
      (is "?A = ?B")
    proof
      assume a: ?A
      show ?B
      proof (intro allI impI)
        fix j k assume h: "inner ax ay j k \<and> crossed ax ay j k"
        then have "inner ax ay (ay - j) (ax - k) \<and> crossed ax ay (ay - j) (ax - k)"
          by (simp add: inner_rev crossed_rev)
        with a have "?P (y2 + - sy * (ay - j)) (x2 + - sx * (ax - k))" by blast
        moreover have "y2 + - sy * (ay - j) = y1 + sy * j" "x2 + - sx * (ax - k) = x1 + sx * k"
          unfolding x2 y2 by (simp_all add: algebra_simps)
        ultimately show "?P (y1 + sy * j) (x1 + sx * k)" by simp
      qed
    next
      assume b: ?B
      show ?A
      proof (intro allI impI)
        fix j k assume h: "inner ax ay j k \<and> crossed ax ay j k"
        then have "inner ax ay (ay - j) (ax - k) \<and> crossed ax ay (ay - j) (ax - k)"
          by (simp add: inner_rev crossed_rev)
        with b have "?P (y1 + sy * (ay - j)) (x1 + sx * (ax - k))" by blast
        moreover have "y1 + sy * (ay - j) = y2 + - sy * j" "x1 + sx * (ax - k) = x2 + - sx * k"
          unfolding x2 y2 by (simp_all add: algebra_simps)
        ultimately show "?P (y2 + - sy * j) (x2 + - sx * k)" by simp
      qed
    qed
    then show ?thesis unfolding fwd bwd by simp
  qed
qed

theorem los_symmetric_witness:
  "los floor_or_granite (room_with_walls 3 4 [(1, 1)]) 0 0 2 3 =
     los floor_or_granite (room_with_walls 3 4 [(1, 1)]) 2 3 0 0 \<and>
   los floor_or_granite (room_with_walls 3 4 [(1, 1)]) 0 0 2 3 \<noteq> None"
proof -
  have inb: "square_in_bounds (room_with_walls 3 4 [(1, 1)]) 0 0"
            "square_in_bounds (room_with_walls 3 4 [(1, 1)]) 2 3"
    by (simp_all add: square_in_bounds_def room_with_walls_def)
  have nk: "\<not> (\<bar>(3::int) - 0\<bar> = 1 \<and> \<bar>(2::int) - 0\<bar> = 2)"
           "\<not> (\<bar>(3::int) - 0\<bar> = 2 \<and> \<bar>(2::int) - 0\<bar> = 1)"
    by simp_all
  show ?thesis by (rule los_symmetric[OF inb nk])
qed

section \<open>Rules for the grid scans\<close>

lemma for_x_pc:
  assumes run: "for_x body c x0 = Some c'"
    and I0: "I x0 c"
    and wI: "\<And>x c. I x c \<Longrightarrow> width c = w"
    and step: "\<And>x c c1. I x c \<Longrightarrow> x0 \<le> x \<Longrightarrow> x < w \<Longrightarrow> body c x = Some c1 \<Longrightarrow> I (x + 1) c1"
  shows "I (max x0 w) c'"
  using run I0 step
proof (induction "nat (w - x0)" arbitrary: c x0)
  case 0
  then have "\<not> x0 < width c" using wI[of x0 c] by simp
  then have "c' = c" using "0.prems"(1) by (subst (asm) for_x.simps) simp
  then show ?case using 0 by (simp add: max_def)
next
  case (Suc n)
  then have lt: "x0 < w" by linarith
  then have ltc: "x0 < width c" using wI[OF Suc.prems(2)] by simp
  from Suc.prems(1) ltc obtain c1 where b: "body c x0 = Some c1"
    and r: "for_x body c1 (x0 + 1) = Some c'"
    by (subst (asm) for_x.simps) (auto simp: bind_eq_Some_conv)
  have I1: "I (x0 + 1) c1" using Suc.prems(3)[OF Suc.prems(2) _ lt b] by simp
  have "I (max (x0 + 1) w) c'"
  proof (rule Suc.hyps(1)[OF _ r I1])
    show "n = nat (w - (x0 + 1))" using Suc.hyps(2) by linarith
  next
    fix x c c1 assume "I x c" "x0 + 1 \<le> x" "x < w" "body c x = Some c1"
    then show "I (x + 1) c1" using Suc.prems(3)[of x c c1] by simp
  qed
  then show ?case using lt by (simp add: max_def)
qed

lemma for_x_defined:
  assumes I0: "I x0 c"
    and wI: "\<And>x c. I x c \<Longrightarrow> width c = w"
    and step: "\<And>x c. I x c \<Longrightarrow> x0 \<le> x \<Longrightarrow> x < w \<Longrightarrow> \<exists>c1. body c x = Some c1 \<and> I (x + 1) c1"
  shows "\<exists>c'. for_x body c x0 = Some c' \<and> I (max x0 w) c'"
  using I0 step
proof (induction "nat (w - x0)" arbitrary: c x0)
  case 0
  then have "\<not> x0 < width c" using wI[of x0 c] by simp
  then have "for_x body c x0 = Some c" by (subst for_x.simps) simp
  then show ?case using 0 by (simp add: max_def)
next
  case (Suc n)
  then have lt: "x0 < w" by linarith
  then have ltc: "x0 < width c" using wI[OF Suc.prems(1)] by simp
  from Suc.prems(2)[OF Suc.prems(1) _ lt] obtain c1 where b: "body c x0 = Some c1"
    and I1: "I (x0 + 1) c1" by auto
  have "\<exists>c'. for_x body c1 (x0 + 1) = Some c' \<and> I (max (x0 + 1) w) c'"
  proof (rule Suc.hyps(1)[OF _ I1])
    show "n = nat (w - (x0 + 1))" using Suc.hyps(2) by linarith
  next
    fix x c assume "I x c" "x0 + 1 \<le> x" "x < w"
    then show "\<exists>c1. body c x = Some c1 \<and> I (x + 1) c1" using Suc.prems(2)[of x c] by simp
  qed
  then obtain c' where r: "for_x body c1 (x0 + 1) = Some c'" and I': "I (max (x0 + 1) w) c'"
    by auto
  have "for_x body c x0 = Some c'" using ltc b r by (subst for_x.simps) simp
  then show ?case using I' lt by (simp add: max_def)
qed

lemma for_y_pc:
  assumes run: "for_y body c y0 = Some c'"
    and I0: "I y0 c"
    and hI: "\<And>y c. I y c \<Longrightarrow> height c = h"
    and step: "\<And>y c c1. I y c \<Longrightarrow> y0 \<le> y \<Longrightarrow> y < h \<Longrightarrow> body c y = Some c1 \<Longrightarrow> I (y + 1) c1"
  shows "I (max y0 h) c'"
  using run I0 step
proof (induction "nat (h - y0)" arbitrary: c y0)
  case 0
  then have "\<not> y0 < height c" using hI[of y0 c] by simp
  then have "c' = c" using "0.prems"(1) by (subst (asm) for_y.simps) simp
  then show ?case using 0 by (simp add: max_def)
next
  case (Suc n)
  then have lt: "y0 < h" by linarith
  then have ltc: "y0 < height c" using hI[OF Suc.prems(2)] by simp
  from Suc.prems(1) ltc obtain c1 where b: "body c y0 = Some c1"
    and r: "for_y body c1 (y0 + 1) = Some c'"
    by (subst (asm) for_y.simps) (auto simp: bind_eq_Some_conv)
  have I1: "I (y0 + 1) c1" using Suc.prems(3)[OF Suc.prems(2) _ lt b] by simp
  have "I (max (y0 + 1) h) c'"
  proof (rule Suc.hyps(1)[OF _ r I1])
    show "n = nat (h - (y0 + 1))" using Suc.hyps(2) by linarith
  next
    fix y c c1 assume "I y c" "y0 + 1 \<le> y" "y < h" "body c y = Some c1"
    then show "I (y + 1) c1" using Suc.prems(3)[of y c c1] by simp
  qed
  then show ?case using lt by (simp add: max_def)
qed

lemma for_y_defined:
  assumes I0: "I y0 c"
    and hI: "\<And>y c. I y c \<Longrightarrow> height c = h"
    and step: "\<And>y c. I y c \<Longrightarrow> y0 \<le> y \<Longrightarrow> y < h \<Longrightarrow> \<exists>c1. body c y = Some c1 \<and> I (y + 1) c1"
  shows "\<exists>c'. for_y body c y0 = Some c' \<and> I (max y0 h) c'"
  using I0 step
proof (induction "nat (h - y0)" arbitrary: c y0)
  case 0
  then have "\<not> y0 < height c" using hI[of y0 c] by simp
  then have "for_y body c y0 = Some c" by (subst for_y.simps) simp
  then show ?case using 0 by (simp add: max_def)
next
  case (Suc n)
  then have lt: "y0 < h" by linarith
  then have ltc: "y0 < height c" using hI[OF Suc.prems(1)] by simp
  from Suc.prems(2)[OF Suc.prems(1) _ lt] obtain c1 where b: "body c y0 = Some c1"
    and I1: "I (y0 + 1) c1" by auto
  have "\<exists>c'. for_y body c1 (y0 + 1) = Some c' \<and> I (max (y0 + 1) h) c'"
  proof (rule Suc.hyps(1)[OF _ I1])
    show "n = nat (h - (y0 + 1))" using Suc.hyps(2) by linarith
  next
    fix y c assume "I y c" "y0 + 1 \<le> y" "y < h"
    then show "\<exists>c1. body c y = Some c1 \<and> I (y + 1) c1" using Suc.prems(2)[of y c] by simp
  qed
  then obtain c' where r: "for_y body c1 (y0 + 1) = Some c'" and I': "I (max (y0 + 1) h) c'"
    by auto
  have "for_y body c y0 = Some c'" using ltc b r by (subst for_y.simps) simp
  then show ?case using I' lt by (simp add: max_def)
qed

text \<open>Position-independent invariants of a scan of the whole grid.\<close>

lemma for_grid_pc:
  assumes run: "for_grid body c = Some c'"
    and I0: "I c"
    and dims: "\<And>c. I c \<Longrightarrow> height c = h \<and> width c = w"
    and step: "\<And>c y x c1. I c \<Longrightarrow> 0 \<le> y \<Longrightarrow> y < h \<Longrightarrow> 0 \<le> x \<Longrightarrow> x < w \<Longrightarrow>
                 body c y x = Some c1 \<Longrightarrow> I c1"
  shows "I c'"
proof -
  have "(\<lambda>y c. I c) (max 0 h) c'"
  proof (rule for_y_pc[OF run[unfolded for_grid_def], where I = "\<lambda>y c. I c" and h = h])
    show "I c" by (rule I0)
  next
    fix y c assume "I c" then show "height c = h" using dims by simp
  next
    fix y c c1 assume a: "I c" "0 \<le> y" "y < h" "for_x (\<lambda>c x. body c y x) c 0 = Some c1"
    have "(\<lambda>x c. I c) (max 0 w) c1"
    proof (rule for_x_pc[OF a(4), where I = "\<lambda>x c. I c" and w = w])
      show "I c" by (rule a(1))
    next
      fix x c assume "I c" then show "width c = w" using dims by simp
    next
      fix x c c1 assume "I c" "0 \<le> x" "x < w" "body c y x = Some c1"
      then show "I c1" using step[of c y x c1] a(2,3) by simp
    qed
    then show "I c1" .
  qed
  then show ?thesis .
qed

lemma for_grid_defined:
  assumes I0: "I c"
    and dims: "\<And>c. I c \<Longrightarrow> height c = h \<and> width c = w"
    and step: "\<And>c y x. I c \<Longrightarrow> 0 \<le> y \<Longrightarrow> y < h \<Longrightarrow> 0 \<le> x \<Longrightarrow> x < w \<Longrightarrow>
                 \<exists>c1. body c y x = Some c1 \<and> I c1"
  shows "\<exists>c'. for_grid body c = Some c' \<and> I c'"
proof -
  have "\<exists>c'. for_y (\<lambda>c y. for_x (\<lambda>c x. body c y x) c 0) c 0 = Some c' \<and> (\<lambda>y c. I c) (max 0 h) c'"
  proof (rule for_y_defined[where I = "\<lambda>y c. I c" and h = h])
    show "I c" by (rule I0)
  next
    fix y c assume "I c" then show "height c = h" using dims by simp
  next
    fix y c assume a: "I c" "0 \<le> y" "y < h"
    have "\<exists>c1. for_x (\<lambda>c x. body c y x) c 0 = Some c1 \<and> (\<lambda>x c. I c) (max 0 w) c1"
    proof (rule for_x_defined[where I = "\<lambda>x c. I c" and w = w])
      show "I c" by (rule a(1))
    next
      fix x c assume "I c" then show "width c = w" using dims by simp
    next
      fix x c assume "I c" "0 \<le> x" "x < w"
      then show "\<exists>c1. body c y x = Some c1 \<and> I c1" using step[of c y x] a(2,3) by simp
    qed
    then show "\<exists>c1. for_x (\<lambda>c x. body c y x) c 0 = Some c1 \<and> I c1" .
  qed
  then show ?thesis by (simp add: for_grid_def)
qed

text \<open>A scan whose body writes only the flags of its own cell.\<close>

lemma for_grid_establish:
  assumes dims: "height c = h" "width c = w"
    and step: "\<And>c y x. height c = h \<Longrightarrow> width c = w \<Longrightarrow> 0 \<le> y \<Longrightarrow> y < h \<Longrightarrow> 0 \<le> x \<Longrightarrow> x < w \<Longrightarrow>
                 \<exists>c1. body c y x = Some c1 \<and> height c1 = h \<and> width c1 = w \<and> Q (info c1 (y, x))
                      \<and> (\<forall>q. q \<noteq> (y, x) \<longrightarrow> info c1 q = info c q)"
  shows "\<exists>c'. for_grid body c = Some c' \<and> height c' = h \<and> width c' = w \<and>
              (\<forall>y x. 0 \<le> y \<and> y < h \<and> 0 \<le> x \<and> x < w \<longrightarrow> Q (info c' (y, x)))"
proof -
  define J where "J = (\<lambda>y x (c::chunk). height c = h \<and> width c = w \<and>
     (\<forall>y' x'. 0 \<le> y' \<and> y' < h \<and> 0 \<le> x' \<and> x' < w \<and> (y' < y \<or> (y' = y \<and> x' < x)) \<longrightarrow> Q (info c (y', x'))))"
  have "\<exists>c'. for_y (\<lambda>c y. for_x (\<lambda>c x. body c y x) c 0) c 0 = Some c' \<and> (\<lambda>y c. J y 0 c) (max 0 h) c'"
  proof (rule for_y_defined[where I = "\<lambda>y c. J y 0 c" and h = h])
    show "J 0 0 c" using dims by (auto simp: J_def)
  next
    fix y c assume "J y 0 c" then show "height c = h" by (simp add: J_def)
  next
    fix y c assume a: "J y 0 c" "0 \<le> y" "y < h"
    have "\<exists>c1. for_x (\<lambda>c x. body c y x) c 0 = Some c1 \<and> (\<lambda>x c. J y x c) (max 0 w) c1"
    proof (rule for_x_defined[where I = "\<lambda>x c. J y x c" and w = w])
      show "J y 0 c" by (rule a(1))
    next
      fix x c assume "J y x c" then show "width c = w" by (simp add: J_def)
    next
      fix x c assume b: "J y x c" "0 \<le> x" "x < w"
      from step[of c y x] a b obtain c1 where c1: "body c y x = Some c1" "height c1 = h" "width c1 = w"
        "Q (info c1 (y, x))" "\<forall>q. q \<noteq> (y, x) \<longrightarrow> info c1 q = info c q"
        by (auto simp: J_def)
      have "J y (x + 1) c1"
        unfolding J_def
      proof (intro conjI allI impI)
        fix y' x'
        assume h: "0 \<le> y' \<and> y' < h \<and> 0 \<le> x' \<and> x' < w \<and> (y' < y \<or> y' = y \<and> x' < x + 1)"
        show "Q (info c1 (y', x'))"
        proof (cases "(y', x') = (y, x)")
          case True then show ?thesis using c1(4) by simp
        next
          case False
          then have "info c1 (y', x') = info c (y', x')" using c1(5) by blast
          moreover have "Q (info c (y', x'))" using b(1) h False by (auto simp: J_def)
          ultimately show ?thesis by simp
        qed
      qed (use c1 in auto)
      then show "\<exists>c1. body c y x = Some c1 \<and> J y (x + 1) c1" using c1(1) by blast
    qed
    then obtain c1 where r: "for_x (\<lambda>c x. body c y x) c 0 = Some c1" and j: "J y (max 0 w) c1"
      by auto
    have "J (y + 1) 0 c1"
      unfolding J_def
    proof (intro conjI allI impI)
      fix y' x'
      assume h: "0 \<le> y' \<and> y' < h \<and> 0 \<le> x' \<and> x' < w \<and> (y' < y + 1 \<or> y' = y + 1 \<and> x' < 0)"
      then have "y' < y \<or> (y' = y \<and> x' < max 0 w)" by (auto simp: max_def)
      then show "Q (info c1 (y', x'))" using j h unfolding J_def by blast
    qed (use j in \<open>auto simp: J_def\<close>)
    then show "\<exists>c1. for_x (\<lambda>c x. body c y x) c 0 = Some c1 \<and> J (y + 1) 0 c1" using r by blast
  qed
  then obtain c' where r: "for_grid body c = Some c'" and j: "J (max 0 h) 0 c'"
    by (auto simp: for_grid_def)
  have "\<forall>y x. 0 \<le> y \<and> y < h \<and> 0 \<le> x \<and> x < w \<longrightarrow> Q (info c' (y, x))"
  proof (intro allI impI)
    fix y x assume h: "0 \<le> y \<and> y < h \<and> 0 \<le> x \<and> x < w"
    then have "y < max 0 h" by (auto simp: max_def)
    then show "Q (info c' (y, x))" using j h unfolding J_def by blast
  qed
  then show ?thesis using r j by (auto simp: J_def)
qed

section \<open>The view engine: proofs\<close>

lemma in_bounds_upd [simp]:
  "square_in_bounds (c\<lparr>info := i\<rparr>) y x = square_in_bounds c y x"
  "square_in_bounds (c\<lparr>feeling_squares := n\<rparr>) y x = square_in_bounds c y x"
  "square_in_bounds (c\<lparr>cost := k\<rparr>) y x = square_in_bounds c y x"
  "square_in_bounds (c\<lparr>when_c := k\<rparr>) y x = square_in_bounds c y x"
  by (simp_all add: square_in_bounds_def)

lemma flag_tests_in:
  assumes "square_in_bounds c y x"
  shows "square_isview c y x = Some (SQUARE_VIEW \<in> info c (y, x))"
    and "square_isseen c y x = Some (SQUARE_SEEN \<in> info c (y, x))"
    and "square_wasseen c y x = Some (SQUARE_WASSEEN \<in> info c (y, x))"
    and "square_isglow c y x = Some (SQUARE_GLOW \<in> info c (y, x))"
    and "square_ismark c y x = Some (SQUARE_MARK \<in> info c (y, x))"
    and "square_isfeel c y x = Some (SQUARE_FEEL \<in> info c (y, x))"
    and "square_isroom c y x = Some (SQUARE_ROOM \<in> info c (y, x))"
  using assms
  by (simp_all add: square_isview_def square_isseen_def square_wasseen_def square_isglow_def
        square_ismark_def square_isfeel_def square_isroom_def c_assert_def sqinfo_has_def)

lemma flag_writes_in:
  assumes "square_in_bounds c y x"
  shows "sqinfo_on c y x f = Some (c\<lparr>info := (info c)((y, x) := insert f (info c (y, x)))\<rparr>)"
    and "sqinfo_off c y x f = Some (c\<lparr>info := (info c)((y, x) := info c (y, x) - {f})\<rparr>)"
  using assms by (simp_all add: sqinfo_on_def sqinfo_off_def)

lemma square_iswall_in:
  "square_in_bounds c y x \<Longrightarrow> square_iswall f_info c y x = Some (\<not> projectable f_info c y x)"
  by (simp add: square_iswall_def square_isprojectable_in c_assert_def)

lemma projectable_upd [simp]:
  "projectable f_info (c\<lparr>info := i\<rparr>) y x = projectable f_info c y x"
  "projectable f_info (c\<lparr>feeling_squares := n\<rparr>) y x = projectable f_info c y x"
  by (simp_all add: projectable_def)

lemma mark_wasseen_one_in:
  assumes "square_in_bounds c y x"
  shows "mark_wasseen_one c y x =
         Some (c\<lparr>info := (info c)((y, x) :=
                 (if SQUARE_SEEN \<in> info c (y, x) then insert SQUARE_WASSEEN (info c (y, x))
                  else info c (y, x)) - {SQUARE_VIEW} - {SQUARE_SEEN})\<rparr>)"
  using assms
  by (simp add: mark_wasseen_one_def flag_tests_in flag_writes_in)

lemma update_one_in:
  assumes "square_in_bounds c y x"
  shows "\<exists>c'. update_one c y x b = Some c' \<and> height c' = height c \<and> width c' = width c \<and>
              feat c' = feat c \<and> monsters c' = monsters c \<and> cost c' = cost c \<and> when_c c' = when_c c \<and>
              (\<forall>q. q \<noteq> (y, x) \<longrightarrow> info c' q = info c q) \<and>
              info c' (y, x) \<subseteq> insert SQUARE_MARK (info c (y, x)) \<and>
              info c (y, x) - {SQUARE_SEEN, SQUARE_FEEL, SQUARE_WASSEEN} \<subseteq> info c' (y, x) \<and>
              (SQUARE_MARK \<in> info c' (y, x) \<longrightarrow> SQUARE_MARK \<in> info c (y, x) \<or> SQUARE_SEEN \<in> info c' (y, x)) \<and>
              SQUARE_WASSEEN \<notin> info c' (y, x)"
  using assms
  by (auto simp: update_one_def flag_tests_in flag_writes_in square_note_spot_def square_light_spot_def)

lemma toward_in_bounds:
  assumes "square_in_bounds c y x" "square_in_bounds c py px"
  shows "square_in_bounds c (toward y py) (toward x px)"
    and "square_in_bounds c y (toward x px)"
    and "square_in_bounds c (toward y py) x"
  using assms by (auto simp: square_in_bounds_def toward_def)

lemma los_defined:
  assumes inb: "square_in_bounds c y1 x1" "square_in_bounds c y2 x2"
  shows "\<exists>b. los f_info c y1 x1 y2 x2 = Some b"
proof -
  consider (adj) "\<bar>x2 - x1\<bar> < 2" "\<bar>y2 - y1\<bar> < 2"
    | (orth) "(x1 = x2 \<and> 2 \<le> \<bar>y2 - y1\<bar>) \<or> (y1 = y2 \<and> 2 \<le> \<bar>x2 - x1\<bar>)"
    | (diag) "x2 \<noteq> x1" "y2 \<noteq> y1" "2 \<le> \<bar>x2 - x1\<bar> \<or> 2 \<le> \<bar>y2 - y1\<bar>"
    by linarith
  then show ?thesis
  proof cases
    case adj
    then show ?thesis by (auto simp: los_def Let_def)
  next
    case orth
    show ?thesis unfolding los_orthogonal_eq[OF inb orth] by auto
  next
    case diag
    have k: "\<exists>k. los_knight f_info c y1 x1 \<bar>x2 - x1\<bar> \<bar>y2 - y1\<bar> (sgn (x2 - x1)) (sgn (y2 - y1)) = Some k"
    proof -
      have "square_in_bounds c (y1 + sgn (y2 - y1) * 1) (x1 + sgn (x2 - x1) * 0)"
        using diag by (intro bounding_box[OF inb]) auto
      moreover have "square_in_bounds c (y1 + sgn (y2 - y1) * 0) (x1 + sgn (x2 - x1) * 1)"
        using diag by (intro bounding_box[OF inb]) auto
      ultimately show ?thesis
        by (auto simp: los_knight_def square_isprojectable_in)
    qed
    then obtain k where k: "los_knight f_info c y1 x1 \<bar>x2 - x1\<bar> \<bar>y2 - y1\<bar> (sgn (x2 - x1)) (sgn (y2 - y1)) = Some k"
      by blast
    show ?thesis
      by (auto simp: los_diag_unfold[OF diag] k los_walk_eq[OF inb diag(1,2)])
  qed
qed

lemma become_viewable_in:
  assumes "square_in_bounds c y x" "square_in_bounds c py px"
  shows "become_viewable f_info c y x lit py px =
         Some (if SQUARE_VIEW \<in> info c (y, x) then c
               else c\<lparr>info := (info c)((y, x) :=
                      (if lit \<or> (SQUARE_GLOW \<in> info c (y, x) \<and>
                            (if projectable f_info c y x then SQUARE_GLOW \<in> info c (y, x)
                             else SQUARE_GLOW \<in> info c (toward y py, toward x px)))
                       then insert SQUARE_SEEN (insert SQUARE_VIEW (info c (y, x)))
                       else insert SQUARE_VIEW (info c (y, x))))\<rparr>)"
proof -
  note tw = toward_in_bounds(1)[OF assms]
  show ?thesis
  proof (cases "SQUARE_VIEW \<in> info c (y, x)")
    case True
    then show ?thesis using assms by (simp add: become_viewable_def flag_tests_in)
  next
    case False
    show ?thesis
      using assms tw False
      by (simp add: become_viewable_def flag_tests_in flag_writes_in square_iswall_in Let_def)
  qed
qed

lemma knight_cells_in_bounds:
  assumes "square_in_bounds c y x" "square_in_bounds c py px"
  shows "\<bar>x - px\<bar> = 2 \<Longrightarrow> square_in_bounds c y (x - (if x - px > 0 then 1 else - 1))"
    and "\<bar>y - py\<bar> = 2 \<Longrightarrow> square_in_bounds c (y - (if y - py > 0 then 1 else - 1)) x"
    and "\<bar>x - px\<bar> = 2 \<Longrightarrow> \<bar>y - py\<bar> = 1 \<Longrightarrow>
         square_in_bounds c (y - (if y - py > 0 then 1 else - 1)) (x - (if x - px > 0 then 1 else - 1))"
    and "\<bar>x - px\<bar> = 1 \<Longrightarrow> \<bar>y - py\<bar> = 2 \<Longrightarrow>
         square_in_bounds c (y - (if y - py > 0 then 1 else - 1)) (x - (if x - px > 0 then 1 else - 1))"
  using assms by (auto simp: square_in_bounds_def split: if_splits)

lemma wall_reference_in:
  assumes inb: "square_in_bounds c y x" "square_in_bounds c py px"
  shows "wall_reference f_info c y x py px = Some (view_reference f_info c y x py px)"
proof -
  define sx :: int where "sx = (if x - px > 0 then 1 else - 1)"
  define sy :: int where "sy = (if y - py > 0 then 1 else - 1)"
  define H where "H \<longleftrightarrow> \<bar>x - px\<bar> = 2 \<and> \<bar>y - py\<bar> = 1"
  define V where "V \<longleftrightarrow> \<bar>x - px\<bar> = 1 \<and> \<bar>y - py\<bar> = 2"
  define ty where "ty = toward y py"
  define tx where "tx = toward x px"
  have wr: "wall_reference f_info c y x py px =
     do { w \<leftarrow> square_iswall f_info c ty tx;
          let (yc, xc) = (if w then (y, x) else (ty, tx)) in
          if H then
            do { a \<leftarrow> square_iswall f_info c y (x - sx);
                 b \<leftarrow> (if \<not> a then square_iswall f_info c (y - sy) (x - sx) else Some False);
                 Some (if \<not> a \<and> b then (y, x) else (yc, xc)) }
          else if V then
            do { a \<leftarrow> square_iswall f_info c (y - sy) x;
                 b \<leftarrow> (if \<not> a then square_iswall f_info c (y - sy) (x - sx) else Some False);
                 Some (if \<not> a \<and> b then (y, x) else (yc, xc)) }
          else Some (yc, xc) }"
    unfolding wall_reference_def Let_def sx_def sy_def H_def V_def ty_def tx_def by (rule refl)
  have vr: "view_reference f_info c y x py px =
     (if is_wall f_info c ty tx \<or>
         ((H \<and> \<not> is_wall f_info c y (x - sx) \<and> is_wall f_info c (y - sy) (x - sx)) \<or>
          (V \<and> \<not> is_wall f_info c (y - sy) x \<and> is_wall f_info c (y - sy) (x - sx)))
      then (y, x) else (ty, tx))"
    unfolding view_reference_def knight_no_shift_def Let_def sx_def sy_def H_def V_def ty_def tx_def
    by (rule refl)
  have tw: "square_in_bounds c ty tx"
    unfolding ty_def tx_def by (rule toward_in_bounds(1)[OF inb])
  have HV: "\<not> (H \<and> V)" by (auto simp: H_def V_def)
  have kh: "H \<Longrightarrow> square_in_bounds c y (x - sx) \<and> square_in_bounds c (y - sy) (x - sx)"
    using knight_cells_in_bounds(1,3)[OF inb] by (simp add: H_def sx_def sy_def)
  have kv: "V \<Longrightarrow> square_in_bounds c (y - sy) x \<and> square_in_bounds c (y - sy) (x - sx)"
    using knight_cells_in_bounds(2,4)[OF inb] by (simp add: V_def sx_def sy_def)
  consider (h) H "\<not> V" | (v) V "\<not> H" | (n) "\<not> H" "\<not> V" using HV by blast
  then show ?thesis
  proof cases
    case h
    then show ?thesis unfolding wr vr using tw kh
      by (simp add: square_iswall_in is_wall_def)
  next
    case v
    then show ?thesis unfolding wr vr using tw kv
      by (simp add: square_iswall_in is_wall_def)
  next
    case n
    then show ?thesis unfolding wr vr using tw
      by (simp add: square_iswall_in is_wall_def)
  qed
qed

lemma view_reference_in_bounds:
  assumes "square_in_bounds c y x" "square_in_bounds c py px"
  shows "square_in_bounds c (fst (view_reference f_info c y x py px))
                            (snd (view_reference f_info c y x py px))"
  using assms toward_in_bounds(1)[OF assms] by (simp add: view_reference_def)

lemma update_view_one_wall_eq:
  assumes inb: "square_in_bounds c y x" "square_in_bounds c py px"
    and wall: "is_wall f_info c y x"
    and near: "distance y x py px \<le> max_sight"
  shows "\<exists>l. los f_info c py px (fst (view_reference f_info c y x py px))
                                (snd (view_reference f_info c y x py px)) = Some l \<and>
             update_view_one f_info max_sight c y x radius py px =
             Some (if l \<and> SQUARE_VIEW \<notin> info c (y, x)
                   then c\<lparr>info := (info c)((y, x) :=
                          (if wall_seen_rule c y x (distance y x py px < radius) py px
                           then insert SQUARE_SEEN (insert SQUARE_VIEW (info c (y, x)))
                           else insert SQUARE_VIEW (info c (y, x))))\<rparr>
                   else c)"
proof -
  obtain l where l: "los f_info c py px (fst (view_reference f_info c y x py px))
                                       (snd (view_reference f_info c y x py px)) = Some l"
    using los_defined[OF inb(2) view_reference_in_bounds[OF inb]] by blast
  have np: "\<not> projectable f_info c y x" using wall by (simp add: is_wall_def)
  have "update_view_one f_info max_sight c y x radius py px =
        (if l then become_viewable f_info c y x (distance y x py px < radius) py px else Some c)"
    using near inb np l
    by (simp add: update_view_one_def Let_def square_iswall_in wall_reference_in[OF inb]
                  split_beta)
  then show ?thesis
    using l np by (auto simp: become_viewable_in[OF inb] wall_seen_rule_def)
qed

lemma become_viewable_view:
  assumes "square_in_bounds c y x" "SQUARE_VIEW \<in> info c (y, x)"
  shows "become_viewable f_info c y x lit py px = Some c"
  using assms by (simp add: become_viewable_def flag_tests_in)

lemma update_view_one_view:
  assumes "square_in_bounds c y x" "SQUARE_VIEW \<in> info c (y, x)"
    and "update_view_one f_info max_sight c y x radius py px = Some c'"
  shows "c' = c"
  using assms(3) become_viewable_view[OF assms(1,2)]
  by (auto simp: update_view_one_def Let_def bind_eq_Some_conv split: if_splits prod.splits)

lemma keeps_refl: "keeps c c"
  by (simp add: keeps_def)

lemma seen_in_view_dims:
  "height c' = height c \<Longrightarrow> width c' = width c \<Longrightarrow> info c' = info c \<Longrightarrow>
   seen_in_view c' = seen_in_view c"
  by (simp add: seen_in_view_def square_in_bounds_def)

lemma keeps_trans: "keeps a b \<Longrightarrow> keeps b c \<Longrightarrow> keeps a c"
  unfolding keeps_def by (elim conjE, intro conjI) (simp_all)

lemma keeps_in_bounds: "keeps c c' \<Longrightarrow> square_in_bounds c' y x = square_in_bounds c y x"
  by (simp add: keeps_def square_in_bounds_def)

lemma keeps_view_on:
  assumes "sqinfo_on c y x SQUARE_VIEW = Some c'"
  shows "keeps c c'"
  using assms
  by (auto simp: sqinfo_on_def keeps_def seen_in_view_def square_in_bounds_def view_flags_def
           split: if_splits)

lemma keeps_seen_on:
  assumes "sqinfo_on c y x SQUARE_SEEN = Some c'" "SQUARE_VIEW \<in> info c (y, x)"
  shows "keeps c c'"
  using assms
  by (auto simp: sqinfo_on_def keeps_def seen_in_view_def square_in_bounds_def view_flags_def
           split: if_splits)

lemma sqinfo_on_has:
  "sqinfo_on c y x f = Some c' \<Longrightarrow> f \<in> info c' (y, x)"
  by (auto simp: sqinfo_on_def split: if_splits)

lemma keeps_view_seen_on:
  assumes "sqinfo_on c y x SQUARE_VIEW = Some c1" "sqinfo_on c1 y x SQUARE_SEEN = Some c2"
  shows "keeps c c2"
  by (rule keeps_trans[OF keeps_view_on[OF assms(1)]
        keeps_seen_on[OF assms(2) sqinfo_on_has[OF assms(1)]]])

lemma option_bindE:
  assumes "Option.bind m f = Some r"
  obtains a where "m = Some a" "f a = Some r"
  using assms by (auto simp: bind_eq_Some_conv)

lemma add_monster_light_box_keeps:
  "add_monster_light_box f_info max_sight from_y from_x m in_los ijs c = Some c' \<Longrightarrow> keeps c c'"
proof (induction ijs arbitrary: c)
  case Nil
  then show ?case by (simp add: keeps_refl)
next
  case (Cons ij ijs)
  obtain i j where ij: "ij = (i, j)" by (cases ij)
  let ?rec = "add_monster_light_box f_info max_sight from_y from_x m in_los ijs"
  let ?sy = "fy m + i" and ?sx = "fx m + j"
  from Cons.prems have e:
    "do { dark \<leftarrow> (if \<not> in_los
                     then do { p \<leftarrow> square_isprojectable f_info c ?sy ?sx; Some (\<not> p) }
                     else Some False);
          if dark then ?rec c
          else if distance from_y from_x ?sy ?sx > max_sight then ?rec c
          else do { l \<leftarrow> los f_info c from_y from_x ?sy ?sx;
                    if \<not> l then ?rec c
                    else do { c1 \<leftarrow> sqinfo_on c ?sy ?sx SQUARE_VIEW;
                              c2 \<leftarrow> sqinfo_on c1 ?sy ?sx SQUARE_SEEN;
                              ?rec c2 } } } = Some c'"
    unfolding ij by (simp add: Let_def)
  from e obtain dark where r1:
    "(if dark then ?rec c
      else if distance from_y from_x ?sy ?sx > max_sight then ?rec c
      else do { l \<leftarrow> los f_info c from_y from_x ?sy ?sx;
                if \<not> l then ?rec c
                else do { c1 \<leftarrow> sqinfo_on c ?sy ?sx SQUARE_VIEW;
                          c2 \<leftarrow> sqinfo_on c1 ?sy ?sx SQUARE_SEEN;
                          ?rec c2 } }) = Some c'"
    by (rule option_bindE)
  show ?case
  proof (cases "dark \<or> distance from_y from_x ?sy ?sx > max_sight")
    case True
    then have "?rec c = Some c'" using r1 by (cases dark) simp_all
    then show ?thesis by (rule Cons.IH)
  next
    case False
    then have "do { l \<leftarrow> los f_info c from_y from_x ?sy ?sx;
                if \<not> l then ?rec c
                else do { c1 \<leftarrow> sqinfo_on c ?sy ?sx SQUARE_VIEW;
                          c2 \<leftarrow> sqinfo_on c1 ?sy ?sx SQUARE_SEEN;
                          ?rec c2 } } = Some c'"
      using r1 by simp
    then obtain l where r2:
      "(if \<not> l then ?rec c
        else do { c1 \<leftarrow> sqinfo_on c ?sy ?sx SQUARE_VIEW;
                  c2 \<leftarrow> sqinfo_on c1 ?sy ?sx SQUARE_SEEN;
                  ?rec c2 }) = Some c'"
      by (rule option_bindE)
    show ?thesis
    proof (cases l)
      case False
      then have "?rec c = Some c'" using r2 by simp
      then show ?thesis by (rule Cons.IH)
    next
      case True
      then have "do { c1 \<leftarrow> sqinfo_on c ?sy ?sx SQUARE_VIEW;
                      c2 \<leftarrow> sqinfo_on c1 ?sy ?sx SQUARE_SEEN;
                      ?rec c2 } = Some c'"
        using r2 by simp
      then obtain c1 where c1: "sqinfo_on c ?sy ?sx SQUARE_VIEW = Some c1"
        and r3: "do { c2 \<leftarrow> sqinfo_on c1 ?sy ?sx SQUARE_SEEN; ?rec c2 } = Some c'"
        by (rule option_bindE)
      from r3 obtain c2 where c2: "sqinfo_on c1 ?sy ?sx SQUARE_SEEN = Some c2"
        and r4: "?rec c2 = Some c'"
        by (rule option_bindE)
      show ?thesis
        by (rule keeps_trans[OF keeps_view_seen_on[OF c1 c2] Cons.IH[OF r4]])
    qed
  qed
qed

lemma add_monster_lights_from_keeps:
  "add_monster_lights_from f_info max_sight from_y from_x ms c = Some c' \<Longrightarrow> keeps c c'"
proof (induction ms arbitrary: c)
  case Nil
  then show ?case by (simp add: keeps_refl)
next
  case (Cons m ms)
  from Cons.prems obtain in_los c1 where
    c1: "(case race m of None \<Rightarrow> Some c
          | Some r \<Rightarrow> if \<not> rf_has (rflags r) RF_HAS_LIGHT then Some c
                      else add_monster_light_box f_info max_sight from_y from_x m in_los box_offsets c)
         = Some c1"
    and r: "add_monster_lights_from f_info max_sight from_y from_x ms c1 = Some c'"
    by (auto simp: bind_eq_Some_conv)
  have "keeps c c1"
    using c1 by (auto simp: keeps_refl add_monster_light_box_keeps split: option.splits if_splits)
  then show ?case using Cons.IH[OF r] by (rule keeps_trans)
qed

lemma become_viewable_keeps:
  assumes "become_viewable f_info c y x lit py px = Some c'"
  shows "keeps c c'"
proof -
  from assms obtain v where v: "square_isview c y x = Some v"
    and r0: "(if v then Some c
              else do { c1 \<leftarrow> sqinfo_on c y x SQUARE_VIEW;
                        c2 \<leftarrow> (if lit then sqinfo_on c1 y x SQUARE_SEEN else Some c1);
                        g \<leftarrow> square_isglow c2 y x;
                        if g then
                          do { w \<leftarrow> square_iswall f_info c2 y x;
                               let xc = (if w then toward x px else x);
                                   yc = (if w then toward y py else y) in
                               do { g' \<leftarrow> square_isglow c2 yc xc;
                                    if g' then sqinfo_on c2 y x SQUARE_SEEN else Some c2 } }
                        else Some c2 }) = Some c'"
    unfolding become_viewable_def by (rule option_bindE)
  show ?thesis
  proof (cases v)
    case True
    then show ?thesis using r0 by (simp add: keeps_refl)
  next
    case False
    with r0 have "do { c1 \<leftarrow> sqinfo_on c y x SQUARE_VIEW;
                        c2 \<leftarrow> (if lit then sqinfo_on c1 y x SQUARE_SEEN else Some c1);
                        g \<leftarrow> square_isglow c2 y x;
                        if g then
                          do { w \<leftarrow> square_iswall f_info c2 y x;
                               let xc = (if w then toward x px else x);
                                   yc = (if w then toward y py else y) in
                               do { g' \<leftarrow> square_isglow c2 yc xc;
                                    if g' then sqinfo_on c2 y x SQUARE_SEEN else Some c2 } }
                        else Some c2 } = Some c'"
      by simp
    then obtain c1 where c1: "sqinfo_on c y x SQUARE_VIEW = Some c1"
      and r1: "do { c2 \<leftarrow> (if lit then sqinfo_on c1 y x SQUARE_SEEN else Some c1);
                    g \<leftarrow> square_isglow c2 y x;
                    if g then
                      do { w \<leftarrow> square_iswall f_info c2 y x;
                           let xc = (if w then toward x px else x);
                               yc = (if w then toward y py else y) in
                           do { g' \<leftarrow> square_isglow c2 yc xc;
                                if g' then sqinfo_on c2 y x SQUARE_SEEN else Some c2 } }
                    else Some c2 } = Some c'"
      by (rule option_bindE)
    from r1 obtain c2 where c2: "(if lit then sqinfo_on c1 y x SQUARE_SEEN else Some c1) = Some c2"
      and r2: "do { g \<leftarrow> square_isglow c2 y x;
                    if g then
                      do { w \<leftarrow> square_iswall f_info c2 y x;
                           let xc = (if w then toward x px else x);
                               yc = (if w then toward y py else y) in
                           do { g' \<leftarrow> square_isglow c2 yc xc;
                                if g' then sqinfo_on c2 y x SQUARE_SEEN else Some c2 } }
                    else Some c2 } = Some c'"
      by (rule option_bindE)
    have v1: "SQUARE_VIEW \<in> info c1 (y, x)" by (rule sqinfo_on_has[OF c1])
    have k1: "keeps c c1" by (rule keeps_view_on[OF c1])
    have k2: "keeps c1 c2"
      using c2 v1 by (cases lit) (simp_all add: keeps_refl keeps_seen_on)
    have v2: "SQUARE_VIEW \<in> info c2 (y, x)" using k2 v1 by (simp add: keeps_def)
    from r2 obtain g where r3:
      "(if g then
          do { w \<leftarrow> square_iswall f_info c2 y x;
               let xc = (if w then toward x px else x);
                   yc = (if w then toward y py else y) in
               do { g' \<leftarrow> square_isglow c2 yc xc;
                    if g' then sqinfo_on c2 y x SQUARE_SEEN else Some c2 } }
        else Some c2) = Some c'"
      by (rule option_bindE)
    have k3: "keeps c2 c'"
    proof (cases g)
      case False
      then show ?thesis using r3 by (simp add: keeps_refl)
    next
      case True
      with r3 have "do { w \<leftarrow> square_iswall f_info c2 y x;
               let xc = (if w then toward x px else x);
                   yc = (if w then toward y py else y) in
               do { g' \<leftarrow> square_isglow c2 yc xc;
                    if g' then sqinfo_on c2 y x SQUARE_SEEN else Some c2 } } = Some c'"
        by simp
      then obtain w where "do { g' \<leftarrow> square_isglow c2 (if w then toward y py else y)
                                                 (if w then toward x px else x);
                    if g' then sqinfo_on c2 y x SQUARE_SEEN else Some c2 } = Some c'"
        unfolding Let_def by (rule option_bindE)
      then obtain g' where "(if g' then sqinfo_on c2 y x SQUARE_SEEN else Some c2) = Some c'"
        by (rule option_bindE)
      then show ?thesis using v2 by (cases g') (simp_all add: keeps_refl keeps_seen_on)
    qed
    show ?thesis by (rule keeps_trans[OF keeps_trans[OF k1 k2] k3])
  qed
qed

lemma update_view_one_keeps:
  assumes "update_view_one f_info max_sight c y x radius py px = Some c'"
  shows "keeps c c'"
proof (cases "distance y x py px > max_sight")
  case True
  then show ?thesis using assms by (simp add: update_view_one_def Let_def keeps_refl)
next
  case False
  with assms have
    "do { w \<leftarrow> square_iswall f_info c y x;
          (yc, xc) \<leftarrow> (if w then wall_reference f_info c y x py px else Some (y, x));
          l \<leftarrow> los f_info c py px yc xc;
          if l then become_viewable f_info c y x (distance y x py px < radius) py px else Some c }
     = Some c'"
    by (simp add: update_view_one_def Let_def)
  then obtain w where
    "do { (yc, xc) \<leftarrow> (if w then wall_reference f_info c y x py px else Some (y, x));
          l \<leftarrow> los f_info c py px yc xc;
          if l then become_viewable f_info c y x (distance y x py px < radius) py px else Some c }
     = Some c'"
    by (rule option_bindE)
  then obtain ref where
    "(case ref of (yc, xc) \<Rightarrow>
        do { l \<leftarrow> los f_info c py px yc xc;
             if l then become_viewable f_info c y x (distance y x py px < radius) py px else Some c })
     = Some c'"
    by (rule option_bindE)
  then obtain l where
    "(if l then become_viewable f_info c y x (distance y x py px < radius) py px else Some c) = Some c'"
    by (cases ref) (auto elim: option_bindE)
  then show ?thesis
    by (cases l) (simp_all add: keeps_refl become_viewable_keeps)
qed

lemma mark_wasseen_clears:
  "\<exists>c1. mark_wasseen c = Some c1 \<and> height c1 = height c \<and> width c1 = width c \<and>
        (\<forall>y x. square_in_bounds c y x \<longrightarrow>
           SQUARE_VIEW \<notin> info c1 (y, x) \<and> SQUARE_SEEN \<notin> info c1 (y, x))"
proof -
  have "\<exists>c'. for_grid mark_wasseen_one c = Some c' \<and> height c' = height c \<and> width c' = width c \<and>
          (\<forall>y x. 0 \<le> y \<and> y < height c \<and> 0 \<le> x \<and> x < width c \<longrightarrow>
             (\<lambda>fs. SQUARE_VIEW \<notin> fs \<and> SQUARE_SEEN \<notin> fs) (info c' (y, x)))"
  proof (rule for_grid_establish[OF refl refl])
    fix c0 :: chunk and y x
    assume a: "height c0 = height c" "width c0 = width c" "0 \<le> y" "y < height c" "0 \<le> x" "x < width c"
    then have inb: "square_in_bounds c0 y x" by (simp add: square_in_bounds_def)
    show "\<exists>c1. mark_wasseen_one c0 y x = Some c1 \<and> height c1 = height c \<and> width c1 = width c \<and>
            (SQUARE_VIEW \<notin> info c1 (y, x) \<and> SQUARE_SEEN \<notin> info c1 (y, x)) \<and>
            (\<forall>q. q \<noteq> (y, x) \<longrightarrow> info c1 q = info c0 q)"
      unfolding mark_wasseen_one_in[OF inb] using a by simp
  qed
  then obtain c' where c': "for_grid mark_wasseen_one c = Some c'" "height c' = height c"
      "width c' = width c"
      "\<forall>y x. 0 \<le> y \<and> y < height c \<and> 0 \<le> x \<and> x < width c \<longrightarrow>
             SQUARE_VIEW \<notin> info c' (y, x) \<and> SQUARE_SEEN \<notin> info c' (y, x)"
    by blast
  show ?thesis
    unfolding mark_wasseen_def square_in_bounds_def
    by (rule exI[of _ c']) (use c' in auto)
qed

lemma mark_wasseen_static:
  assumes "mark_wasseen c = Some c1"
  shows "height c1 = height c \<and> width c1 = width c \<and> feat c1 = feat c \<and> monsters c1 = monsters c"
proof (rule for_grid_pc[OF assms[unfolded mark_wasseen_def],
          where I = "\<lambda>c'. height c' = height c \<and> width c' = width c \<and> feat c' = feat c \<and> monsters c' = monsters c"
            and h = "height c" and w = "width c"])
  show "height c = height c \<and> width c = width c \<and> feat c = feat c \<and> monsters c = monsters c" by simp
next
  fix c' :: chunk
  assume "height c' = height c \<and> width c' = width c \<and> feat c' = feat c \<and> monsters c' = monsters c"
  then show "height c' = height c \<and> width c' = width c" by simp
next
  fix c0 :: chunk and y x c2
  assume a: "height c0 = height c \<and> width c0 = width c \<and> feat c0 = feat c \<and> monsters c0 = monsters c"
    "0 \<le> y" "y < height c" "0 \<le> x" "x < width c" "mark_wasseen_one c0 y x = Some c2"
  then have inb: "square_in_bounds c0 y x" by (simp add: square_in_bounds_def)
  show "height c2 = height c \<and> width c2 = width c \<and> feat c2 = feat c \<and> monsters c2 = monsters c"
    using a(1,6) unfolding mark_wasseen_one_in[OF inb] by auto
qed

lemma update_one_scan_seen_in_view:
  assumes run: "for_grid (\<lambda>c y x. update_one c y x b) c = Some c'"
    and sv: "seen_in_view c"
  shows "seen_in_view c' \<and> height c' = height c \<and> width c' = width c"
proof (rule for_grid_pc[OF run,
          where I = "\<lambda>c'. seen_in_view c' \<and> height c' = height c \<and> width c' = width c"
            and h = "height c" and w = "width c"])
  show "seen_in_view c \<and> height c = height c \<and> width c = width c" using sv by simp
next
  fix c0 :: chunk
  assume "seen_in_view c0 \<and> height c0 = height c \<and> width c0 = width c"
  then show "height c0 = height c \<and> width c0 = width c" by simp
next
  fix c0 :: chunk and y x c1
  assume a: "seen_in_view c0 \<and> height c0 = height c \<and> width c0 = width c"
    "0 \<le> y" "y < height c" "0 \<le> x" "x < width c" "update_one c0 y x b = Some c1"
  then have inb: "square_in_bounds c0 y x" by (simp add: square_in_bounds_def)
  from update_one_in[OF inb, of b] a(6) have p:
    "height c1 = height c0" "width c1 = width c0"
    "\<forall>q. q \<noteq> (y, x) \<longrightarrow> info c1 q = info c0 q"
    "info c1 (y, x) \<subseteq> insert SQUARE_MARK (info c0 (y, x))"
    "info c0 (y, x) - {SQUARE_SEEN, SQUARE_FEEL, SQUARE_WASSEEN} \<subseteq> info c1 (y, x)"
    by auto
  have "seen_in_view c1"
    unfolding seen_in_view_def
  proof (intro allI impI)
    fix y' x'
    assume h: "square_in_bounds c1 y' x'" "SQUARE_SEEN \<in> info c1 (y', x')"
    then have inb': "square_in_bounds c0 y' x'" using p(1,2) by (simp add: square_in_bounds_def)
    show "SQUARE_VIEW \<in> info c1 (y', x')"
    proof (cases "(y', x') = (y, x)")
      case True
      then have "SQUARE_SEEN \<in> info c0 (y, x)" using h(2) p(4) by auto
      then have "SQUARE_VIEW \<in> info c0 (y, x)" using a(1) inb by (simp add: seen_in_view_def)
      then show ?thesis using True p(5) by auto
    next
      case False
      then have "info c1 (y', x') = info c0 (y', x')" using p(3) by blast
      then show ?thesis using a(1) inb' h(2) by (simp add: seen_in_view_def)
    qed
  qed
  then show "seen_in_view c1 \<and> height c1 = height c \<and> width c1 = width c"
    using p(1,2) a(1) by simp
qed

lemma update_view_one_scan_keeps:
  assumes run: "for_grid (\<lambda>c y x. update_view_one f_info max_sight c y x radius py px) c = Some c'"
  shows "keeps c c'"
proof (rule for_grid_pc[OF run, where I = "\<lambda>c'. keeps c c'" and h = "height c" and w = "width c"])
  show "keeps c c" by (rule keeps_refl)
next
  fix c0 assume "keeps c c0"
  then show "height c0 = height c \<and> width c0 = width c" by (simp add: keeps_def)
next
  fix c0 y x c1
  assume "keeps c c0" "update_view_one f_info max_sight c0 y x radius py px = Some c1"
  then show "keeps c c1" using update_view_one_keeps keeps_trans by blast
qed

lemma update_view_seen_in_view:
  assumes "update_view f_info max_sight c p = Some c'"
  shows "seen_in_view c'"
proof -
  define radius where "radius = (if cur_light p > 0 then cur_light p + 1 else cur_light p)"
  from assms obtain c1 where c1: "mark_wasseen c = Some c1"
    and r1: "do { c2 \<leftarrow> add_monster_lights f_info max_sight c1 (player_py p) (player_px p);
               c3 \<leftarrow> sqinfo_on c2 (player_py p) (player_px p) SQUARE_VIEW;
               g \<leftarrow> (if radius > 0 then Some True else square_isglow c3 (player_py p) (player_px p));
               c4 \<leftarrow> (if g then sqinfo_on c3 (player_py p) (player_px p) SQUARE_SEEN else Some c3);
               c5 \<leftarrow> for_grid (\<lambda>c y x. update_view_one f_info max_sight c y x radius
                                  (player_py p) (player_px p)) c4;
               for_grid (\<lambda>c y x. update_one c y x (timed_blind p)) c5 } = Some c'"
    unfolding update_view_def Let_def radius_def by (rule option_bindE)
  from r1 obtain c2 where c2: "add_monster_lights f_info max_sight c1 (player_py p) (player_px p) = Some c2"
    and r2: "do { c3 \<leftarrow> sqinfo_on c2 (player_py p) (player_px p) SQUARE_VIEW;
               g \<leftarrow> (if radius > 0 then Some True else square_isglow c3 (player_py p) (player_px p));
               c4 \<leftarrow> (if g then sqinfo_on c3 (player_py p) (player_px p) SQUARE_SEEN else Some c3);
               c5 \<leftarrow> for_grid (\<lambda>c y x. update_view_one f_info max_sight c y x radius
                                  (player_py p) (player_px p)) c4;
               for_grid (\<lambda>c y x. update_one c y x (timed_blind p)) c5 } = Some c'"
    by (rule option_bindE)
  from r2 obtain c3 where c3: "sqinfo_on c2 (player_py p) (player_px p) SQUARE_VIEW = Some c3"
    and r3: "do { g \<leftarrow> (if radius > 0 then Some True else square_isglow c3 (player_py p) (player_px p));
               c4 \<leftarrow> (if g then sqinfo_on c3 (player_py p) (player_px p) SQUARE_SEEN else Some c3);
               c5 \<leftarrow> for_grid (\<lambda>c y x. update_view_one f_info max_sight c y x radius
                                  (player_py p) (player_px p)) c4;
               for_grid (\<lambda>c y x. update_one c y x (timed_blind p)) c5 } = Some c'"
    by (rule option_bindE)
  from r3 obtain g where
    r4: "do { c4 \<leftarrow> (if g then sqinfo_on c3 (player_py p) (player_px p) SQUARE_SEEN else Some c3);
               c5 \<leftarrow> for_grid (\<lambda>c y x. update_view_one f_info max_sight c y x radius
                                  (player_py p) (player_px p)) c4;
               for_grid (\<lambda>c y x. update_one c y x (timed_blind p)) c5 } = Some c'"
    by (rule option_bindE)
  from r4 obtain c4 where c4: "(if g then sqinfo_on c3 (player_py p) (player_px p) SQUARE_SEEN else Some c3) = Some c4"
    and r5: "do { c5 \<leftarrow> for_grid (\<lambda>c y x. update_view_one f_info max_sight c y x radius
                                  (player_py p) (player_px p)) c4;
               for_grid (\<lambda>c y x. update_one c y x (timed_blind p)) c5 } = Some c'"
    by (rule option_bindE)
  from r5 obtain c5 where c5: "for_grid (\<lambda>c y x. update_view_one f_info max_sight c y x radius
                                  (player_py p) (player_px p)) c4 = Some c5"
    and c6: "for_grid (\<lambda>c y x. update_one c y x (timed_blind p)) c5 = Some c'"
    by (rule option_bindE)
  from mark_wasseen_clears[of c] c1 have cl: "height c1 = height c" "width c1 = width c"
    "\<forall>y x. square_in_bounds c y x \<longrightarrow> SQUARE_VIEW \<notin> info c1 (y, x) \<and> SQUARE_SEEN \<notin> info c1 (y, x)"
    by auto
  have s1: "seen_in_view c1"
    using cl unfolding seen_in_view_def square_in_bounds_def by auto
  have k2: "keeps c1 c2"
    using c2 unfolding add_monster_lights_def by (rule add_monster_lights_from_keeps)
  have k3: "keeps c2 c3" by (rule keeps_view_on[OF c3])
  have k4: "keeps c3 c4"
    using c4 sqinfo_on_has[OF c3] by (cases g) (simp_all add: keeps_refl keeps_seen_on)
  have k5: "keeps c4 c5" by (rule update_view_one_scan_keeps[OF c5])
  have "keeps c1 c5" using k2 k3 k4 k5 keeps_trans by blast
  then have "seen_in_view c5" using s1 by (simp add: keeps_def)
  then show ?thesis using update_one_scan_seen_in_view[OF c6] by simp
qed

lemma sqinfo_on_dims:
  "sqinfo_on c y x f = Some c' \<Longrightarrow> height c' = height c \<and> width c' = width c"
  by (auto simp: sqinfo_on_def split: if_splits)

lemma add_monster_light_box_defined:
  assumes "square_in_bounds c from_y from_x"
    and "\<forall>(i, j) \<in> set ijs. square_in_bounds c (fy m + i) (fx m + j)"
  shows "\<exists>c'. add_monster_light_box f_info max_sight from_y from_x m in_los ijs c = Some c'"
  using assms
proof (induction ijs arbitrary: c)
  case Nil
  then show ?case by simp
next
  case (Cons ij ijs)
  obtain i j where ij: "ij = (i, j)" by (cases ij)
  let ?rec = "add_monster_light_box f_info max_sight from_y from_x m in_los ijs"
  let ?sy = "fy m + i" and ?sx = "fx m + j"
  have inb: "square_in_bounds c ?sy ?sx" using Cons.prems(2) ij by simp
  have rest: "\<forall>(i, j) \<in> set ijs. square_in_bounds c (fy m + i) (fx m + j)"
    using Cons.prems(2) by simp
  obtain l where l: "los f_info c from_y from_x ?sy ?sx = Some l"
    using los_defined[OF Cons.prems(1) inb] by blast
  have rc: "\<exists>c'. ?rec c = Some c'" by (rule Cons.IH[OF Cons.prems(1) rest])
  define c2 where "c2 = c\<lparr>info := (info c)((?sy, ?sx) := insert SQUARE_SEEN (insert SQUARE_VIEW (info c (?sy, ?sx))))\<rparr>"
  have on: "sqinfo_on c ?sy ?sx SQUARE_VIEW \<bind> (\<lambda>c1. sqinfo_on c1 ?sy ?sx SQUARE_SEEN \<bind> ?rec) = ?rec c2"
    using inb by (simp add: flag_writes_in c2_def)
  have "square_in_bounds c2 from_y from_x"
    "\<forall>(i, j) \<in> set ijs. square_in_bounds c2 (fy m + i) (fx m + j)"
    using Cons.prems(1) rest by (simp_all add: c2_def)
  then have rc2: "\<exists>c'. ?rec c2 = Some c'" by (rule Cons.IH)
  show ?case
    unfolding ij using rc rc2 inb l on
    by (cases in_los) (simp_all add: Let_def square_isprojectable_in)
qed

lemma box_in_bounds:
  assumes "square_in_bounds_fully c y x"
  shows "\<forall>(i, j) \<in> set box_offsets. square_in_bounds c (y + i) (x + j)"
  using assms by (simp add: box_offsets_def square_in_bounds_fully_def square_in_bounds_def)

lemma monster_ready_dims:
  assumes "height c' = height c" "width c' = width c"
  shows "monster_ready c' m = monster_ready c m"
  unfolding monster_ready_def square_in_bounds_def square_in_bounds_fully_def assms ..

lemma monster_ready_keeps:
  "keeps c c' \<Longrightarrow> monster_ready c' m = monster_ready c m"
proof -
  assume "keeps c c'"
  then have d: "height c' = height c" "width c' = width c" by (simp_all add: keeps_def)
  show ?thesis
    unfolding monster_ready_def square_in_bounds_def square_in_bounds_fully_def d ..
qed

lemma add_monster_lights_from_defined:
  assumes "square_in_bounds c from_y from_x"
    and "\<forall>m \<in> set ms. monster_ready c m"
  shows "\<exists>c'. add_monster_lights_from f_info max_sight from_y from_x ms c = Some c'"
  using assms
proof (induction ms arbitrary: c)
  case Nil
  then show ?case by simp
next
  case (Cons m ms)
  have mr: "monster_ready c m" using Cons.prems(2) by simp
  then have inb: "square_in_bounds c (fy m) (fx m)" by (simp add: monster_ready_def)
  obtain l where l: "los f_info c from_y from_x (fy m) (fx m) = Some l"
    using los_defined[OF Cons.prems(1) inb] by blast
  have "\<exists>c1. (case race m of None \<Rightarrow> Some c
          | Some r \<Rightarrow> if \<not> rf_has (rflags r) RF_HAS_LIGHT then Some c
                      else add_monster_light_box f_info max_sight from_y from_x m l box_offsets c)
         = Some c1"
  proof (cases "race m")
    case None
    then show ?thesis by simp
  next
    case (Some r)
    show ?thesis
    proof (cases "rf_has (rflags r) RF_HAS_LIGHT")
      case False
      then show ?thesis using Some by simp
    next
      case True
      then have "square_in_bounds_fully c (fy m) (fx m)" using mr Some by (simp add: monster_ready_def)
      then show ?thesis
        using Some True add_monster_light_box_defined[OF Cons.prems(1) box_in_bounds] by simp
    qed
  qed
  then obtain c1 where c1: "(case race m of None \<Rightarrow> Some c
          | Some r \<Rightarrow> if \<not> rf_has (rflags r) RF_HAS_LIGHT then Some c
                      else add_monster_light_box f_info max_sight from_y from_x m l box_offsets c)
         = Some c1" by blast
  have k: "keeps c c1"
    using c1 by (auto simp: keeps_refl add_monster_light_box_keeps split: option.splits if_splits)
  have "square_in_bounds c1 from_y from_x" using Cons.prems(1) k by (simp add: keeps_in_bounds)
  moreover have "\<forall>m \<in> set ms. monster_ready c1 m"
    using Cons.prems(2) k by (simp add: monster_ready_keeps)
  ultimately have "\<exists>c'. add_monster_lights_from f_info max_sight from_y from_x ms c1 = Some c'"
    by (rule Cons.IH)
  then show ?case using l c1 by simp
qed

lemma update_view_one_defined:
  assumes inb: "square_in_bounds c y x" "square_in_bounds c py px"
  shows "\<exists>c1. update_view_one f_info max_sight c y x radius py px = Some c1"
proof (cases "distance y x py px > max_sight")
  case True
  then show ?thesis by (simp add: update_view_one_def Let_def)
next
  case far: False
  show ?thesis
  proof (cases "projectable f_info c y x")
    case True
    obtain l where l: "los f_info c py px y x = Some l"
      using los_defined[OF inb(2,1)] by blast
    have "update_view_one f_info max_sight c y x radius py px =
          (if l then become_viewable f_info c y x (distance y x py px < radius) py px else Some c)"
      using far inb l True
      by (simp add: update_view_one_def Let_def square_iswall_in)
    then show ?thesis by (simp add: become_viewable_in[OF inb])
  next
    case False
    then have "is_wall f_info c y x" by (simp add: is_wall_def)
    then show ?thesis
      using update_view_one_wall_eq[OF inb _ _, of f_info max_sight radius] far by auto
  qed
qed

lemma update_view_defined:
  assumes "view_ready c p"
  shows "\<exists>c'. update_view f_info max_sight c p = Some c'"
proof -
  define radius where "radius = (if cur_light p > 0 then cur_light p + 1 else cur_light p)"
  let ?py = "player_py p" and ?px = "player_px p"
  from assms have pin: "square_in_bounds c ?py ?px" and mon: "\<forall>m \<in> set (monsters c). monster_ready c m"
    by (simp_all add: view_ready_def)
  obtain c1 where c1: "mark_wasseen c = Some c1" using mark_wasseen_clears[of c] by blast
  note st1 = mark_wasseen_static[OF c1]
  have pin1: "square_in_bounds c1 ?py ?px" using pin st1 by (simp add: square_in_bounds_def)
  have mon1: "\<forall>m \<in> set (monsters c1). monster_ready c1 m"
    using mon st1 monster_ready_dims[of c1 c] by simp
  obtain c2 where c2: "add_monster_lights f_info max_sight c1 ?py ?px = Some c2"
    unfolding add_monster_lights_def using add_monster_lights_from_defined[OF pin1 mon1] by blast
  have k2: "keeps c1 c2"
    using c2 unfolding add_monster_lights_def by (rule add_monster_lights_from_keeps)
  have pin2: "square_in_bounds c2 ?py ?px" using pin1 k2 by (simp add: keeps_in_bounds)
  obtain c3 where c3: "sqinfo_on c2 ?py ?px SQUARE_VIEW = Some c3"
    using pin2 by (simp add: flag_writes_in)
  have pin3: "square_in_bounds c3 ?py ?px"
    using pin2 sqinfo_on_dims[OF c3] by (simp add: square_in_bounds_def)
  obtain g where g: "(if radius > 0 then Some True else square_isglow c3 ?py ?px) = Some g"
    using pin3 by (cases "radius > 0") (auto simp: flag_tests_in)
  obtain c4 where c4: "(if g then sqinfo_on c3 ?py ?px SQUARE_SEEN else Some c3) = Some c4"
    using pin3 by (cases g) (auto simp: flag_writes_in)
  have pin4: "square_in_bounds c4 ?py ?px"
    using pin3 c4 sqinfo_on_dims[of c3 ?py ?px SQUARE_SEEN c4]
    by (cases g) (simp_all add: square_in_bounds_def)
  have "\<exists>c5. for_grid (\<lambda>c y x. update_view_one f_info max_sight c y x radius ?py ?px) c4 = Some c5 \<and>
             keeps c4 c5"
  proof (rule for_grid_defined[where I = "\<lambda>c'. keeps c4 c'" and h = "height c4" and w = "width c4"])
    show "keeps c4 c4" by (rule keeps_refl)
  next
    fix c0 assume "keeps c4 c0"
    then show "height c0 = height c4 \<and> width c0 = width c4" by (simp add: keeps_def)
  next
    fix c0 y x
    assume a: "keeps c4 c0" "0 \<le> y" "y < height c4" "0 \<le> x" "x < width c4"
    then have i1: "square_in_bounds c0 y x" by (simp add: keeps_def square_in_bounds_def)
    have i2: "square_in_bounds c0 ?py ?px" using pin4 a(1) by (simp add: keeps_in_bounds)
    obtain c1' where u: "update_view_one f_info max_sight c0 y x radius ?py ?px = Some c1'"
      using update_view_one_defined[OF i1 i2] by blast
    then have "keeps c4 c1'" using a(1) update_view_one_keeps keeps_trans by blast
    then show "\<exists>c1. update_view_one f_info max_sight c0 y x radius ?py ?px = Some c1 \<and> keeps c4 c1"
      using u by blast
  qed
  then obtain c5 where c5: "for_grid (\<lambda>c y x. update_view_one f_info max_sight c y x radius ?py ?px) c4 = Some c5"
    by blast
  have "\<exists>c6. for_grid (\<lambda>c y x. update_one c y x (timed_blind p)) c5 = Some c6 \<and>
             (height c6 = height c5 \<and> width c6 = width c5)"
  proof (rule for_grid_defined[where I = "\<lambda>c'. height c' = height c5 \<and> width c' = width c5"
                                 and h = "height c5" and w = "width c5"])
    show "height c5 = height c5 \<and> width c5 = width c5" by simp
  next
    fix c0 :: chunk assume "height c0 = height c5 \<and> width c0 = width c5"
    then show "height c0 = height c5 \<and> width c0 = width c5" .
  next
    fix c0 :: chunk and y x
    assume a: "height c0 = height c5 \<and> width c0 = width c5" "0 \<le> y" "y < height c5" "0 \<le> x" "x < width c5"
    then have i1: "square_in_bounds c0 y x" by (simp add: square_in_bounds_def)
    from update_one_in[OF i1, of "timed_blind p"] a(1)
    show "\<exists>c1. update_one c0 y x (timed_blind p) = Some c1 \<and> height c1 = height c5 \<and> width c1 = width c5"
      by auto
  qed
  then obtain c6 where c6: "for_grid (\<lambda>c y x. update_one c y x (timed_blind p)) c5 = Some c6"
    by blast
  show ?thesis
    unfolding update_view_def Let_def radius_def[symmetric]
    using c1 c2 c3 g c4 c5 c6 by simp
qed

text \<open>
  Claim C10. A cell of the grid whose VIEW flag is set when \<open>become_viewable\<close> is called
  on it is left as it is: the call returns the chunk unchanged, and so does every call
  of \<open>update_view_one\<close> on that cell that returns. This holds in particular for the
  cells that the monster-light pass has marked VIEW and SEEN.
\<close>

theorem become_viewable_already_view:
  assumes "square_in_bounds c y x" and "SQUARE_VIEW \<in> info c (y, x)"
  shows "become_viewable f_info c y x lit py px = Some c \<and>
         (\<forall>c'. update_view_one f_info max_sight c y x radius py px = Some c' \<longrightarrow> c' = c)"
  using become_viewable_view[OF assms] update_view_one_view[OF assms] by blast

theorem become_viewable_already_view_witness:
  "become_viewable floor_or_granite viewed_level 1 2 False 1 1 = Some viewed_level \<and>
   update_view_one floor_or_granite 20 viewed_level 1 2 0 1 1 = Some viewed_level"
proof -
  have inb: "square_in_bounds viewed_level 1 2" "square_in_bounds viewed_level 1 1"
    by (simp_all add: viewed_level_def room_with_walls_def square_in_bounds_def)
  have v: "SQUARE_VIEW \<in> info viewed_level (1, 2)"
    by (simp add: viewed_level_def)
  note t = become_viewable_already_view[OF inb(1) v, of floor_or_granite False 1 1 20 0]
  obtain c1 where c1: "update_view_one floor_or_granite 20 viewed_level 1 2 0 1 1 = Some c1"
    using update_view_one_defined[OF inb] by blast
  then have "c1 = viewed_level" using t by blast
  then show ?thesis using t c1 by simp
qed

text \<open>
  Claim C4, as stated, fails. On \<open>glowing_wall_level\<close> with the player at \<open>(0, 0)\<close> and
  no torch, the wall cell \<open>(3, 1)\<close> keeps itself as reference point (the shifted cell
  \<open>(2, 0)\<close> is a wall), \<open>los\<close> to it succeeds, and the cell glows, so the cell and its
  reference cell both glow; yet the call marks it VIEW and not SEEN, because
  \<open>become_viewable\<close> tests the glow of the shifted cell \<open>(2, 0)\<close>.
\<close>

theorem update_view_one_glow_counterexample:
  "square_iswall floor_or_granite glowing_wall_level 3 1 = Some True \<and>
   distance 3 1 0 0 \<le> 20 \<and> \<not> distance 3 1 0 0 < 0 \<and>
   wall_reference floor_or_granite glowing_wall_level 3 1 0 0 = Some (3, 1) \<and>
   los floor_or_granite glowing_wall_level 0 0 3 1 = Some True \<and>
   square_isglow glowing_wall_level 3 1 = Some True \<and>
   update_view_one floor_or_granite 20 glowing_wall_level 3 1 0 0 0 =
     Some (glowing_wall_level\<lparr>info := (info glowing_wall_level)((3, 1) := {SQUARE_VIEW, SQUARE_GLOW})\<rparr>) \<and>
   SQUARE_SEEN \<notin> {SQUARE_VIEW, SQUARE_GLOW}"
proof -
  have inb: "square_in_bounds glowing_wall_level 3 1" "square_in_bounds glowing_wall_level 0 0"
    by (simp_all add: glowing_wall_level_def room_with_walls_def square_in_bounds_def)
  have wall: "is_wall floor_or_granite glowing_wall_level 3 1"
    by (simp add: is_wall_def projectable_def glowing_wall_level_def room_with_walls_def
                  floor_or_granite_def feat_isprojectable_def tf_has_def)
  have w2: "is_wall floor_or_granite glowing_wall_level 2 0"
    by (simp add: is_wall_def projectable_def glowing_wall_level_def room_with_walls_def
                  floor_or_granite_def feat_isprojectable_def tf_has_def)
  have ref: "view_reference floor_or_granite glowing_wall_level 3 1 0 0 = (3, 1)"
    using w2 by (simp add: view_reference_def toward_def)
  have d: "distance 3 1 0 0 = 3" by (simp add: distance_def)
  have l: "los floor_or_granite glowing_wall_level 0 0 3 1 = Some True"
    by code_simp
  have rule: "\<not> wall_seen_rule glowing_wall_level 3 1 (distance 3 1 0 0 < 0) 0 0"
    by (simp add: wall_seen_rule_def d toward_def glowing_wall_level_def)
  have nv: "SQUARE_VIEW \<notin> info glowing_wall_level (3, 1)"
    by (simp add: glowing_wall_level_def)
  have g: "info glowing_wall_level (3, 1) = {SQUARE_GLOW}"
    by (simp add: glowing_wall_level_def)
  have near: "distance 3 1 0 0 \<le> 20" by (simp add: d)
  from update_view_one_wall_eq[OF inb wall near, of 0] obtain l' where
    a: "los floor_or_granite glowing_wall_level 0 0
          (fst (view_reference floor_or_granite glowing_wall_level 3 1 0 0))
          (snd (view_reference floor_or_granite glowing_wall_level 3 1 0 0)) = Some l'"
    and b: "update_view_one floor_or_granite 20 glowing_wall_level 3 1 0 0 0 =
              Some (if l' \<and> SQUARE_VIEW \<notin> info glowing_wall_level (3, 1)
                    then glowing_wall_level\<lparr>info := (info glowing_wall_level)((3, 1) :=
                           (if wall_seen_rule glowing_wall_level 3 1 (distance 3 1 0 0 < 0) 0 0
                            then insert SQUARE_SEEN (insert SQUARE_VIEW (info glowing_wall_level (3, 1)))
                            else insert SQUARE_VIEW (info glowing_wall_level (3, 1))))\<rparr>
                    else glowing_wall_level)"
    by blast
  have "l' = True" using a l unfolding ref by simp
  then have "update_view_one floor_or_granite 20 glowing_wall_level 3 1 0 0 0 =
        Some (glowing_wall_level\<lparr>info := (info glowing_wall_level)((3, 1) := {SQUARE_VIEW, SQUARE_GLOW})\<rparr>)"
    unfolding b using rule nv by (simp add: g)
  moreover have "square_iswall floor_or_granite glowing_wall_level 3 1 = Some True"
    using wall inb by (simp add: square_iswall_in is_wall_def)
  moreover have "wall_reference floor_or_granite glowing_wall_level 3 1 0 0 = Some (3, 1)"
    using wall_reference_in[OF inb] ref by simp
  moreover have "square_isglow glowing_wall_level 3 1 = Some True"
    using inb g by (simp add: flag_tests_in)
  ultimately show ?thesis using d l by simp
qed

text \<open>
  Claim C4, amended. For a wall cell of the grid within \<open>max_sight\<close> of a player on the
  grid, \<open>update_view_one\<close> takes as reference point the cell shifted one step toward the
  player along each differing axis, or the cell itself when the shifted cell is a wall
  or a knight sub-case applies; \<open>los\<close> from the player to that point returns, and when it
  fails or the cell is already VIEW the chunk is unchanged; otherwise the cell is marked
  VIEW, and marked SEEN as well exactly when it is lit by the torch radius, or it glows
  and the shifted cell glows (the shifted cell also where the reference point was left
  unshifted).
\<close>

theorem update_view_one_wall:
  assumes "square_in_bounds c y x" and "square_in_bounds c py px"
    and "square_iswall f_info c y x = Some True"
    and "distance y x py px \<le> max_sight"
  shows "wall_reference f_info c y x py px = Some (view_reference f_info c y x py px) \<and>
         (\<exists>l. los f_info c py px (fst (view_reference f_info c y x py px))
                                  (snd (view_reference f_info c y x py px)) = Some l \<and>
              update_view_one f_info max_sight c y x radius py px =
              Some (if l \<and> SQUARE_VIEW \<notin> info c (y, x)
                    then c\<lparr>info := (info c)((y, x) :=
                           (if wall_seen_rule c y x (distance y x py px < radius) py px
                            then insert SQUARE_SEEN (insert SQUARE_VIEW (info c (y, x)))
                            else insert SQUARE_VIEW (info c (y, x))))\<rparr>
                    else c))"
proof -
  have "is_wall f_info c y x"
    using assms(1,3) by (simp add: square_iswall_in is_wall_def)
  then show ?thesis
    using wall_reference_in[OF assms(1,2)] update_view_one_wall_eq[OF assms(1,2) _ assms(4)]
    by blast
qed

theorem update_view_one_wall_witness:
  "wall_reference floor_or_granite glowing_wall_level 3 1 0 0 =
     Some (view_reference floor_or_granite glowing_wall_level 3 1 0 0) \<and>
   (\<exists>l. los floor_or_granite glowing_wall_level 0 0
            (fst (view_reference floor_or_granite glowing_wall_level 3 1 0 0))
            (snd (view_reference floor_or_granite glowing_wall_level 3 1 0 0)) = Some l \<and>
        update_view_one floor_or_granite 20 glowing_wall_level 3 1 0 0 0 =
        Some (if l \<and> SQUARE_VIEW \<notin> info glowing_wall_level (3, 1)
              then glowing_wall_level\<lparr>info := (info glowing_wall_level)((3, 1) :=
                     (if wall_seen_rule glowing_wall_level 3 1 (distance 3 1 0 0 < 0) 0 0
                      then insert SQUARE_SEEN (insert SQUARE_VIEW (info glowing_wall_level (3, 1)))
                      else insert SQUARE_VIEW (info glowing_wall_level (3, 1))))\<rparr>
              else glowing_wall_level))"
proof -
  have inb: "square_in_bounds glowing_wall_level 3 1" "square_in_bounds glowing_wall_level 0 0"
    by (simp_all add: glowing_wall_level_def room_with_walls_def square_in_bounds_def)
  have wall: "square_iswall floor_or_granite glowing_wall_level 3 1 = Some True"
    by (simp add: square_iswall_def square_isprojectable_def c_assert_def square_in_bounds_def
                  glowing_wall_level_def room_with_walls_def
                  floor_or_granite_def feat_isprojectable_def tf_has_def)
  have near: "distance 3 1 0 0 \<le> 20" by (simp add: distance_def)
  show ?thesis by (rule update_view_one_wall[OF inb wall near])
qed

text \<open>
  Claim C1. After every call of \<open>update_view\<close> that returns, every cell of the grid whose
  SEEN flag is set has its VIEW flag set; and the call returns whenever the player and
  the monsters are placed so that every access stays on the grid.
\<close>

theorem update_view_seen_implies_view:
  "(update_view f_info max_sight c p = Some c' \<longrightarrow> seen_in_view c') \<and>
   (view_ready c p \<longrightarrow> update_view f_info max_sight c p \<noteq> None)"
  using update_view_seen_in_view[of f_info max_sight c p c']
        update_view_defined[of c p f_info max_sight] by auto

theorem update_view_seen_implies_view_witness:
  "\<exists>c'. update_view floor_or_granite 20 lit_room torch_player = Some c' \<and> seen_in_view c'"
proof -
  have "view_ready lit_room torch_player"
    by (simp add: view_ready_def monster_ready_def lit_room_def torch_player_def room_with_walls_def
                  square_in_bounds_def square_in_bounds_fully_def rf_has_def)
  then have "update_view floor_or_granite 20 lit_room torch_player \<noteq> None"
    using update_view_seen_implies_view[of floor_or_granite 20 lit_room torch_player] by blast
  then obtain c' where c': "update_view floor_or_granite 20 lit_room torch_player = Some c'"
    by blast
  then have "seen_in_view c'"
    using update_view_seen_implies_view[of floor_or_granite 20 lit_room torch_player c'] by blast
  then show ?thesis using c' by blast
qed
section \<open>The flow field: proofs\<close>

lemma finite_in_bounds: "finite {p. square_in_bounds c (fst p) (snd p)}"
proof -
  have "{p. square_in_bounds c (fst p) (snd p)} \<subseteq> {0..<height c} \<times> {0..<width c}"
    by (auto simp: square_in_bounds_def)
  then show ?thesis by (rule finite_subset) simp
qed

lemma finite_unstamped: "finite (unstamped n c)"
  by (rule finite_subset[OF _ finite_in_bounds[of c]]) (auto simp: unstamped_def)

lemma flow_loop_unfold:
  "flow_loop f_info flow_depth flow_n (c, q) =
     (if flow_head q \<noteq> flow_tail q then
        (if \<not> square_in_bounds c (flow_y q (flow_head q)) (flow_x q (flow_head q)) then None
         else if cost c (flow_y q (flow_head q), flow_x q (flow_head q)) + 1 = flow_depth
           then flow_loop f_info flow_depth flow_n (c, dequeue q)
         else flow_loop f_info flow_depth flow_n
                (flow_children f_info flow_n (cost c (flow_y q (flow_head q), flow_x q (flow_head q)) + 1)
                   (flow_y q (flow_head q)) (flow_x q (flow_head q)) (c, dequeue q)))
      else Some c)"
  by (subst flow_loop.simps) (simp add: Let_def dequeue_def)

lemma flow_child_eq:
  "flow_child f_info flow_n n ty tx (c, q) d =
     (if flows_to f_info flow_n c (ty + ddy_ddd ! d, tx + ddx_ddd ! d)
      then (stamp flow_n n (ty + ddy_ddd ! d, tx + ddx_ddd ! d) c,
            enqueue (ty + ddy_ddd ! d, tx + ddx_ddd ! d) q)
      else (c, q))"
  by (simp add: flow_child_def flows_to_def stamp_def enqueue_def Let_def)

lemma stamp_level [simp]:
  "height (stamp flow_n n p c) = height c" "width (stamp flow_n n p c) = width c"
  "feat (stamp flow_n n p c) = feat c" "info (stamp flow_n n p c) = info c"
  "monsters (stamp flow_n n p c) = monsters c"
  "square_in_bounds (stamp flow_n n p c) y x = square_in_bounds c y x"
  by (simp_all add: stamp_def square_in_bounds_def)

lemma stamp_unstamped:
  assumes "0 \<le> flow_n" "flow_n < 256" "flows_to f_info flow_n c p"
  shows "unstamped flow_n (stamp flow_n n p c) = unstamped flow_n c - {p}"
    and "p \<in> unstamped flow_n c"
  using assms by (auto simp: unstamped_def stamp_def flows_to_def square_in_bounds_def)

lemma stamp_card:
  assumes "0 \<le> flow_n" "flow_n < 256" "flows_to f_info flow_n c p"
  shows "card (unstamped flow_n (stamp flow_n n p c)) < card (unstamped flow_n c)"
  unfolding stamp_unstamped(1)[OF assms]
  by (rule card_Diff1_less[OF finite_unstamped stamp_unstamped(2)[OF assms]])

lemma flow_child_measure:
  assumes "0 \<le> flow_n" "flow_n < 256"
  shows "flow_child f_info flow_n n ty tx (c, q) d = (c, q) \<or>
         card (unstamped flow_n (fst (flow_child f_info flow_n n ty tx (c, q) d))) < card (unstamped flow_n c)"
  unfolding flow_child_eq using stamp_card[OF assms] by auto

lemma flow_child_mono:
  assumes "0 \<le> flow_n" "flow_n < 256"
  shows "card (unstamped flow_n (fst (flow_child f_info flow_n n ty tx (c, q) d))) \<le> card (unstamped flow_n c)"
  using flow_child_measure[OF assms, of f_info n ty tx c q d] by auto

lemma foldl_flow_child_measure:
  assumes "0 \<le> flow_n" "flow_n < 256"
  shows "foldl (flow_child f_info flow_n n ty tx) s ds = s \<or>
         card (unstamped flow_n (fst (foldl (flow_child f_info flow_n n ty tx) s ds))) < card (unstamped flow_n (fst s))"
proof (induction ds arbitrary: s)
  case Nil
  then show ?case by simp
next
  case (Cons d ds)
  obtain c q where s: "s = (c, q)" by (cases s)
  let ?s1 = "flow_child f_info flow_n n ty tx (c, q) d"
  from Cons.IH[of ?s1] flow_child_measure[OF assms, of f_info n ty tx c q d]
  show ?case unfolding s by auto
qed

lemma flow_children_measure:
  assumes "0 \<le> flow_n" "flow_n < 256"
  shows "flow_children f_info flow_n n ty tx s = s \<or>
         card (unstamped flow_n (fst (flow_children f_info flow_n n ty tx s))) < card (unstamped flow_n (fst s))"
  unfolding flow_children_def by (rule foldl_flow_child_measure[OF assms])

lemma mod_range:
  fixes a M :: int
  assumes "- M < a" "a < M"
  shows "a mod M = (if 0 \<le> a then a else a + M)"
proof (cases "0 \<le> a")
  case True
  then show ?thesis using assms by (simp add: mod_pos_pos_trivial)
next
  case False
  have "a mod M = (a + M) mod M" by simp
  also have "\<dots> = a + M" using False assms by (intro mod_pos_pos_trivial) auto
  finally show ?thesis using False by simp
qed

lemma queue_length_eq:
  assumes "indices_ok q"
  shows "int (queue_length q) =
         (if flow_head q \<le> flow_tail q then flow_tail q - flow_head q
          else flow_tail q - flow_head q + FLOW_MAX)"
proof -
  have r: "- FLOW_MAX < flow_tail q - flow_head q" "flow_tail q - flow_head q < FLOW_MAX"
    using assms by (auto simp: indices_ok_def)
  show ?thesis
    unfolding queue_length_def mod_range[OF r] using assms
    by (auto simp: indices_ok_def FLOW_MAX_def)
qed

lemma dequeue_indices_ok: "indices_ok q \<Longrightarrow> indices_ok (dequeue q)"
  by (auto simp: indices_ok_def dequeue_def FLOW_MAX_def)

lemma dequeue_length:
  assumes "indices_ok q" "flow_head q \<noteq> flow_tail q"
  shows "queue_length (dequeue q) < queue_length q"
proof -
  have "int (queue_length (dequeue q)) < int (queue_length q)"
    unfolding queue_length_eq[OF assms(1)] queue_length_eq[OF dequeue_indices_ok[OF assms(1)]]
    using assms by (auto simp: indices_ok_def dequeue_def FLOW_MAX_def)
  then show ?thesis by simp
qed

lemma queue_length_less: "queue_length q < 2048"
proof -
  have "(flow_tail q - flow_head q) mod FLOW_MAX < FLOW_MAX"
    by (rule pos_mod_bound) (simp add: FLOW_MAX_def)
  then show ?thesis by (simp add: queue_length_def FLOW_MAX_def)
qed

lemma flow_loop_rel_rule:
  fixes R :: "chunk \<times> flow_queue \<Rightarrow> chunk \<times> flow_queue \<Rightarrow> bool"
  assumes n1: "0 \<le> n1" "n1 < 256"
    and R0: "R s1 s2"
    and Rq: "\<And>c1 q1 c2 q2. R (c1, q1) (c2, q2) \<Longrightarrow>
               indices_ok q1 \<and> flow_head q2 = flow_head q1 \<and> flow_tail q2 = flow_tail q1 \<and>
               (flow_head q1 \<noteq> flow_tail q1 \<longrightarrow>
                  front q2 = front q1 \<and>
                  square_in_bounds c1 (fst (front q1)) (snd (front q1)) \<and>
                  square_in_bounds c2 (fst (front q1)) (snd (front q1)) \<and>
                  cost c2 (front q1) = cost c1 (front q1))"
    and Rskip: "\<And>c1 q1 c2 q2. R (c1, q1) (c2, q2) \<Longrightarrow> flow_head q1 \<noteq> flow_tail q1 \<Longrightarrow>
               cost c1 (front q1) + 1 = flow_depth \<Longrightarrow> R (c1, dequeue q1) (c2, dequeue q2)"
    and Rexp: "\<And>c1 q1 c2 q2. R (c1, q1) (c2, q2) \<Longrightarrow> flow_head q1 \<noteq> flow_tail q1 \<Longrightarrow>
               cost c1 (front q1) + 1 \<noteq> flow_depth \<Longrightarrow>
               R (flow_children f_info n1 (cost c1 (front q1) + 1) (fst (front q1)) (snd (front q1))
                    (c1, dequeue q1))
                 (flow_children f_info n2 (cost c1 (front q1) + 1) (fst (front q1)) (snd (front q1))
                    (c2, dequeue q2))"
  shows "\<exists>c1' c2' q1' q2'. flow_loop f_info flow_depth n1 s1 = Some c1' \<and>
            flow_loop f_info flow_depth n2 s2 = Some c2' \<and>
            R (c1', q1') (c2', q2') \<and> flow_head q1' = flow_tail q1'"
  using R0
proof (induction "card (unstamped n1 (fst s1)) * 2048 + queue_length (snd s1)"
         arbitrary: s1 s2 rule: less_induct)
  case less
  obtain c1 q1 where s1: "s1 = (c1, q1)" by (cases s1)
  obtain c2 q2 where s2: "s2 = (c2, q2)" by (cases s2)
  note R = less.prems[unfolded s1 s2]
  note q = Rq[OF R]
  show ?case
  proof (cases "flow_head q1 = flow_tail q1")
    case True
    then have "flow_loop f_info flow_depth n1 (c1, q1) = Some c1"
      "flow_loop f_info flow_depth n2 (c2, q2) = Some c2"
      using q by (simp_all add: flow_loop_unfold)
    then show ?thesis unfolding s1 s2 using R True by blast
  next
    case ne: False
    then have ne2: "flow_head q2 \<noteq> flow_tail q2" using q by simp
    have fr: "front q2 = front q1"
      and i1: "square_in_bounds c1 (fst (front q1)) (snd (front q1))"
      and i2: "square_in_bounds c2 (fst (front q1)) (snd (front q1))"
      and ce: "cost c2 (front q1) = cost c1 (front q1)"
      using q ne by simp_all
    define n where "n = cost c1 (front q1) + 1"
    have u1: "flow_loop f_info flow_depth n1 (c1, q1) =
        (if n = flow_depth then flow_loop f_info flow_depth n1 (c1, dequeue q1)
         else flow_loop f_info flow_depth n1
                (flow_children f_info n1 n (fst (front q1)) (snd (front q1)) (c1, dequeue q1)))"
      using ne i1 by (subst flow_loop_unfold) (simp add: front_def n_def)
    have u2: "flow_loop f_info flow_depth n2 (c2, q2) =
        (if n = flow_depth then flow_loop f_info flow_depth n2 (c2, dequeue q2)
         else flow_loop f_info flow_depth n2
                (flow_children f_info n2 n (fst (front q1)) (snd (front q1)) (c2, dequeue q2)))"
      using ne2 i2 ce fr by (subst flow_loop_unfold) (simp add: front_def n_def)
    have dl: "queue_length (dequeue q1) < queue_length q1"
      using q ne by (intro dequeue_length) simp_all
    show ?thesis
    proof (cases "n = flow_depth")
      case True
      have R': "R (c1, dequeue q1) (c2, dequeue q2)"
        using Rskip[OF R ne] True by (simp add: n_def)
      have "card (unstamped n1 (fst (c1, dequeue q1))) * 2048 + queue_length (snd (c1, dequeue q1))
            < card (unstamped n1 (fst s1)) * 2048 + queue_length (snd s1)"
        using dl by (simp add: s1)
      from less.hyps[OF this R'] show ?thesis
        unfolding s1 s2 u1 u2 using True by simp
    next
      case False
      define t1 where "t1 = flow_children f_info n1 n (fst (front q1)) (snd (front q1)) (c1, dequeue q1)"
      define t2 where "t2 = flow_children f_info n2 n (fst (front q1)) (snd (front q1)) (c2, dequeue q2)"
      have R': "R t1 t2"
        unfolding t1_def t2_def n_def using Rexp[OF R ne] False by (simp add: n_def)
      have "t1 = (c1, dequeue q1) \<or> card (unstamped n1 (fst t1)) < card (unstamped n1 c1)"
        unfolding t1_def using flow_children_measure[OF n1, of f_info n _ _ "(c1, dequeue q1)"] by simp
      then have "card (unstamped n1 (fst t1)) * 2048 + queue_length (snd t1)
            < card (unstamped n1 (fst s1)) * 2048 + queue_length (snd s1)"
      proof
        assume "t1 = (c1, dequeue q1)"
        then show ?thesis using dl by (simp add: s1)
      next
        assume a: "card (unstamped n1 (fst t1)) < card (unstamped n1 c1)"
        have "card (unstamped n1 (fst t1)) * 2048 + queue_length (snd t1)
              < (card (unstamped n1 (fst t1)) + 1) * 2048"
          using queue_length_less[of "snd t1"] by simp
        also have "\<dots> \<le> card (unstamped n1 c1) * 2048"
          using a by (intro mult_le_mono1) simp
        finally show ?thesis by (simp add: s1)
      qed
      from less.hyps[OF this R'] show ?thesis
        unfolding s1 s2 u1 u2 t1_def[symmetric] t2_def[symmetric] using False by simp
    qed
  qed
qed

lemma live_eq:
  assumes "indices_ok q"
  shows "live q i = (0 \<le> i \<and> i < FLOW_MAX \<and>
           (if flow_head q \<le> flow_tail q then flow_head q \<le> i \<and> i < flow_tail q
            else flow_head q \<le> i \<or> i < flow_tail q))"
proof (cases "0 \<le> i \<and> i < FLOW_MAX")
  case False
  then show ?thesis by (auto simp: live_def)
next
  case True
  have r1: "- FLOW_MAX < i - flow_head q" "i - flow_head q < FLOW_MAX"
    using assms True by (auto simp: indices_ok_def)
  have r2: "- FLOW_MAX < flow_tail q - flow_head q" "flow_tail q - flow_head q < FLOW_MAX"
    using assms by (auto simp: indices_ok_def)
  show ?thesis
    unfolding live_def mod_range[OF r1] mod_range[OF r2]
    using True assms by (auto simp: indices_ok_def FLOW_MAX_def)
qed

lemma live_front:
  assumes "indices_ok q" "flow_head q \<noteq> flow_tail q"
  shows "live q (flow_head q)"
  unfolding live_eq[OF assms(1)] using assms by (auto simp: indices_ok_def)

lemma live_dequeue:
  assumes "indices_ok q" "live (dequeue q) i" "flow_head q \<noteq> flow_tail q"
  shows "live q i"
  using assms(2,3) unfolding live_eq[OF assms(1)] live_eq[OF dequeue_indices_ok[OF assms(1)]]
  using assms(1) by (auto simp: dequeue_def indices_ok_def FLOW_MAX_def split: if_splits)

lemma enqueue_indices_ok: "indices_ok q \<Longrightarrow> indices_ok (enqueue p q)"
  by (auto simp: indices_ok_def enqueue_def Let_def FLOW_MAX_def)

lemma enqueue_fields [simp]:
  "flow_head (enqueue p q) = flow_head q"
  "flow_y (enqueue p q) = (flow_y q)(flow_tail q := fst p mod 256)"
  "flow_x (enqueue p q) = (flow_x q)(flow_tail q := snd p mod 256)"
  by (simp_all add: enqueue_def Let_def)

lemma not_live_tail:
  assumes "indices_ok q"
  shows "\<not> live q (flow_tail q)"
  unfolding live_eq[OF assms] by auto

lemma live_enqueue:
  assumes "indices_ok q" "live (enqueue p q) i"
  shows "live q i \<or> i = flow_tail q"
  using assms(2) unfolding live_eq[OF assms(1)] live_eq[OF enqueue_indices_ok[OF assms(1)]]
  using assms(1) by (auto simp: enqueue_def Let_def indices_ok_def FLOW_MAX_def split: if_splits)

lemma in_bounds_small:
  assumes "small_grid c" "square_in_bounds c y x"
  shows "y mod 256 = y" "x mod 256 = x"
  using assms by (auto simp: small_grid_def square_in_bounds_def mod_pos_pos_trivial)

lemma flow_sim_dequeue:
  assumes "flow_sim n1 n2 (c1, q1) (c2, q2)" and ne: "flow_head q1 \<noteq> flow_tail q1"
  shows "flow_sim n1 n2 (c1, dequeue q1) (c2, dequeue q2)"
proof -
  from assms have ok: "indices_ok q1" by (simp add: flow_sim_def flow_inv_def)
  have l: "\<And>i. live (dequeue q1) i \<Longrightarrow> live q1 i" by (rule live_dequeue[OF ok _ ne])
  have "flow_inv n1 (c1, dequeue q1)"
    using assms(1) l dequeue_indices_ok[OF ok]
    by (auto simp: flow_sim_def flow_inv_def dequeue_def)
  moreover have "queue_agree (dequeue q1) (dequeue q2)"
    using assms(1) l
    by (auto simp: flow_sim_def queue_agree_def dequeue_def)
  ultimately show ?thesis using assms(1) by (simp add: flow_sim_def)
qed

lemma flow_sim_front:
  assumes "flow_sim n1 n2 (c1, q1) (c2, q2)"
  shows "indices_ok q1 \<and> flow_head q2 = flow_head q1 \<and> flow_tail q2 = flow_tail q1 \<and>
         (flow_head q1 \<noteq> flow_tail q1 \<longrightarrow>
            front q2 = front q1 \<and>
            square_in_bounds c1 (fst (front q1)) (snd (front q1)) \<and>
            square_in_bounds c2 (fst (front q1)) (snd (front q1)) \<and>
            cost c2 (front q1) = cost c1 (front q1))"
proof -
  from assms have ok: "indices_ok q1" and ag: "queue_agree q1 q2"
    and inv: "flow_inv n1 (c1, q1)" and rel: "flow_rel n1 n2 c1 c2"
    by (simp_all add: flow_sim_def flow_inv_def)
  have ht: "flow_head q2 = flow_head q1" "flow_tail q2 = flow_tail q1"
    using ag by (simp_all add: queue_agree_def)
  {
    assume ne: "flow_head q1 \<noteq> flow_tail q1"
    note lf = live_front[OF ok ne]
    have fr: "front q2 = front q1" using ag lf ht by (simp add: queue_agree_def front_def)
    have i1: "square_in_bounds c1 (fst (front q1)) (snd (front q1))"
      and st: "when_c c1 (front q1) = n1"
      using inv lf by (simp_all add: flow_inv_def front_def)
    have i2: "square_in_bounds c2 (fst (front q1)) (snd (front q1))"
      using i1 rel by (simp add: flow_rel_def square_in_bounds_def)
    have "cost c2 (front q1) = cost c1 (front q1)"
      using rel i1 st by (cases "front q1") (simp add: flow_rel_def)
    note fr i1 i2 this
  }
  then show ?thesis using ok ht by blast
qed

lemma flow_sim_child:
  assumes n: "0 \<le> n1" "n1 < 256" "0 \<le> n2" "n2 < 256"
    and sim: "flow_sim n1 n2 s1 s2"
  shows "flow_sim n1 n2 (flow_child f_info n1 n ty tx s1 d) (flow_child f_info n2 n ty tx s2 d)"
proof -
  obtain c1 q1 where s1: "s1 = (c1, q1)" by (cases s1)
  obtain c2 q2 where s2: "s2 = (c2, q2)" by (cases s2)
  define p where "p = (ty + ddy_ddd ! d, tx + ddx_ddd ! d)"
  from sim have ok: "indices_ok q1" and ag: "queue_agree q1 q2" and sg: "small_grid c1"
    and inv: "flow_inv n1 (c1, q1)" and rel: "flow_rel n1 n2 c1 c2"
    and wr: "when_range n1 c1" "when_range n2 c2"
    by (simp_all add: flow_sim_def flow_inv_def s1 s2)
  have same: "flows_to f_info n2 c2 p = flows_to f_info n1 c1 p"
    using rel by (cases p) (auto simp: flows_to_def flow_rel_def square_in_bounds_def)
  show ?thesis
  proof (cases "flows_to f_info n1 c1 p")
    case False
    then show ?thesis using sim same by (simp add: s1 s2 flow_child_eq p_def)
  next
    case True
    then have pin: "square_in_bounds c1 (fst p) (snd p)" by (simp add: flows_to_def)
    note pm = in_bounds_small[OF sg pin]
    have m1: "n1 mod 256 = n1" and m2: "n2 mod 256 = n2"
      using n by (simp_all add: mod_pos_pos_trivial)
    have ok': "indices_ok (enqueue p q1)" by (rule enqueue_indices_ok[OF ok])
    have inv': "flow_inv n1 (stamp n1 n p c1, enqueue p q1)"
      unfolding flow_inv_def
    proof (intro conjI allI impI)
      show "indices_ok (snd (stamp n1 n p c1, enqueue p q1))" using ok' by simp
    next
      fix i assume "live (snd (stamp n1 n p c1, enqueue p q1)) i"
      then have li: "live q1 i \<or> i = flow_tail q1" using live_enqueue[OF ok] by simp
      show "square_in_bounds (fst (stamp n1 n p c1, enqueue p q1))
              (flow_y (snd (stamp n1 n p c1, enqueue p q1)) i)
              (flow_x (snd (stamp n1 n p c1, enqueue p q1)) i)"
        using li inv pin pm not_live_tail[OF ok] by (auto simp: flow_inv_def)
      show "when_c (fst (stamp n1 n p c1, enqueue p q1))
              (flow_y (snd (stamp n1 n p c1, enqueue p q1)) i,
               flow_x (snd (stamp n1 n p c1, enqueue p q1)) i) = n1"
        using li inv pm m1 not_live_tail[OF ok] by (cases p) (auto simp: flow_inv_def stamp_def)
    qed
    have ag': "queue_agree (enqueue p q1) (enqueue p q2)"
      unfolding queue_agree_def
    proof (intro conjI allI impI)
      show "flow_head (enqueue p q2) = flow_head (enqueue p q1)" using ag by (simp add: queue_agree_def)
      show "flow_tail (enqueue p q2) = flow_tail (enqueue p q1)"
        using ag by (simp add: queue_agree_def enqueue_def Let_def)
    next
      fix i assume "live (enqueue p q1) i"
      then have li: "live q1 i \<or> i = flow_tail q1" by (rule live_enqueue[OF ok])
      then show "flow_y (enqueue p q2) i = flow_y (enqueue p q1) i"
        using ag by (auto simp: queue_agree_def)
      from li show "flow_x (enqueue p q2) i = flow_x (enqueue p q1) i"
        using ag by (auto simp: queue_agree_def)
    qed
    have rel': "flow_rel n1 n2 (stamp n1 n p c1) (stamp n2 n p c2)"
      using rel m1 m2 by (cases p) (auto simp: flow_rel_def stamp_def)
    have wr': "when_range n1 (stamp n1 n p c1)" "when_range n2 (stamp n2 n p c2)"
      using wr m1 m2 n by (cases p; auto simp: when_range_def stamp_def)+
    show ?thesis
      using True same sg inv' ag' rel' wr'
      by (simp add: s1 s2 flow_child_eq p_def[symmetric] flow_sim_def small_grid_def)
  qed
qed

lemma flow_sim_children:
  assumes n: "0 \<le> n1" "n1 < 256" "0 \<le> n2" "n2 < 256"
    and sim: "flow_sim n1 n2 s1 s2"
  shows "flow_sim n1 n2 (flow_children f_info n1 n ty tx s1) (flow_children f_info n2 n ty tx s2)"
proof -
  have "flow_sim n1 n2 (foldl (flow_child f_info n1 n ty tx) s1 ds)
                       (foldl (flow_child f_info n2 n ty tx) s2 ds)" for ds
    using sim
  proof (induction ds arbitrary: s1 s2)
    case Nil
    then show ?case by simp
  next
    case (Cons d ds)
    show ?case using Cons.IH[OF flow_sim_child[OF n Cons.prems]] by simp
  qed
  then show ?thesis by (simp add: flow_children_def)
qed

lemma for_grid_establish_gen:
  fixes g :: "chunk \<Rightarrow> int \<times> int \<Rightarrow> 'a"
  assumes P0: "P c" and dims: "\<And>c. P c \<Longrightarrow> height c = h \<and> width c = w"
    and step: "\<And>c y x. P c \<Longrightarrow> 0 \<le> y \<Longrightarrow> y < h \<Longrightarrow> 0 \<le> x \<Longrightarrow> x < w \<Longrightarrow>
                 \<exists>c1. body c y x = Some c1 \<and> P c1 \<and> Q (g c1 (y, x))
                      \<and> (\<forall>q. q \<noteq> (y, x) \<longrightarrow> g c1 q = g c q)"
  shows "\<exists>c'. for_grid body c = Some c' \<and> P c' \<and>
              (\<forall>y x. 0 \<le> y \<and> y < h \<and> 0 \<le> x \<and> x < w \<longrightarrow> Q (g c' (y, x)))"
proof -
  define J where "J = (\<lambda>y x (c::chunk). P c \<and>
     (\<forall>y' x'. 0 \<le> y' \<and> y' < h \<and> 0 \<le> x' \<and> x' < w \<and> (y' < y \<or> (y' = y \<and> x' < x)) \<longrightarrow> Q (g c (y', x'))))"
  have "\<exists>c'. for_y (\<lambda>c y. for_x (\<lambda>c x. body c y x) c 0) c 0 = Some c' \<and> (\<lambda>y c. J y 0 c) (max 0 h) c'"
  proof (rule for_y_defined[where I = "\<lambda>y c. J y 0 c" and h = h])
    show "J 0 0 c" using P0 by (auto simp: J_def)
  next
    fix y c assume "J y 0 c" then show "height c = h" using dims by (simp add: J_def)
  next
    fix y c assume a: "J y 0 c" "0 \<le> y" "y < h"
    have "\<exists>c1. for_x (\<lambda>c x. body c y x) c 0 = Some c1 \<and> (\<lambda>x c. J y x c) (max 0 w) c1"
    proof (rule for_x_defined[where I = "\<lambda>x c. J y x c" and w = w])
      show "J y 0 c" by (rule a(1))
    next
      fix x c assume "J y x c" then show "width c = w" using dims by (simp add: J_def)
    next
      fix x c assume b: "J y x c" "0 \<le> x" "x < w"
      from step[of c y x] a b obtain c1 where c1: "body c y x = Some c1" "P c1"
        "Q (g c1 (y, x))" "\<forall>q. q \<noteq> (y, x) \<longrightarrow> g c1 q = g c q"
        by (auto simp: J_def)
      have "J y (x + 1) c1"
        unfolding J_def
      proof (intro conjI allI impI)
        fix y' x'
        assume h: "0 \<le> y' \<and> y' < h \<and> 0 \<le> x' \<and> x' < w \<and> (y' < y \<or> y' = y \<and> x' < x + 1)"
        show "Q (g c1 (y', x'))"
        proof (cases "(y', x') = (y, x)")
          case True then show ?thesis using c1(3) by simp
        next
          case False
          then have "g c1 (y', x') = g c (y', x')" using c1(4) by blast
          moreover have "Q (g c (y', x'))" using b(1) h False by (auto simp: J_def)
          ultimately show ?thesis by simp
        qed
      qed (rule c1(2))
      then show "\<exists>c1. body c y x = Some c1 \<and> J y (x + 1) c1" using c1(1) by blast
    qed
    then obtain c1 where r: "for_x (\<lambda>c x. body c y x) c 0 = Some c1" and j: "J y (max 0 w) c1"
      by auto
    have "J (y + 1) 0 c1"
      unfolding J_def
    proof (intro conjI allI impI)
      fix y' x'
      assume h: "0 \<le> y' \<and> y' < h \<and> 0 \<le> x' \<and> x' < w \<and> (y' < y + 1 \<or> y' = y + 1 \<and> x' < 0)"
      then have "y' < y \<or> (y' = y \<and> x' < max 0 w)" by (auto simp: max_def)
      then show "Q (g c1 (y', x'))" using j h unfolding J_def by blast
    qed (use j in \<open>auto simp: J_def\<close>)
    then show "\<exists>c1. for_x (\<lambda>c x. body c y x) c 0 = Some c1 \<and> J (y + 1) 0 c1" using r by blast
  qed
  then obtain c' where r: "for_grid body c = Some c'" and j: "J (max 0 h) 0 c'"
    by (auto simp: for_grid_def)
  have "\<forall>y x. 0 \<le> y \<and> y < h \<and> 0 \<le> x \<and> x < w \<longrightarrow> Q (g c' (y, x))"
  proof (intro allI impI)
    fix y x assume h: "0 \<le> y \<and> y < h \<and> 0 \<le> x \<and> x < w"
    then have "y < max 0 h" by (auto simp: max_def)
    then show "Q (g c' (y, x))" using j h unfolding J_def by blast
  qed
  then show ?thesis using r j by (auto simp: J_def)
qed

lemma flow_cycle:
  assumes "when_range 255 c"
  shows "\<exists>c'. for_grid flow_cycle_one c = Some c' \<and> same_level c c' \<and> when_range 127 c'"
proof -
  have "\<exists>c'. for_grid flow_cycle_one c = Some c' \<and> (same_level c c' \<and> when_range 255 c') \<and>
          (\<forall>y x. 0 \<le> y \<and> y < height c \<and> 0 \<le> x \<and> x < width c \<longrightarrow>
             (\<lambda>v. 0 \<le> v \<and> v \<le> 127) (when_c c' (y, x)))"
  proof (rule for_grid_establish_gen[where P = "\<lambda>c'. same_level c c' \<and> when_range 255 c'"
            and g = when_c and h = "height c" and w = "width c"])
    show "same_level c c \<and> when_range 255 c" using assms by (simp add: same_level_def)
  next
    fix c' assume "same_level c c' \<and> when_range 255 c'"
    then show "height c' = height c \<and> width c' = width c" by (simp add: same_level_def)
  next
    fix c0 y x
    assume a: "same_level c c0 \<and> when_range 255 c0" "0 \<le> y" "y < height c" "0 \<le> x" "x < width c"
    then have inb: "square_in_bounds c0 y x" by (simp add: same_level_def square_in_bounds_def)
    then have w: "0 \<le> when_c c0 (y, x)" "when_c c0 (y, x) \<le> 255"
      using a(1) by (simp_all add: when_range_def)
    show "\<exists>c1. flow_cycle_one c0 y x = Some c1 \<and> (same_level c c1 \<and> when_range 255 c1) \<and>
            (0 \<le> when_c c1 (y, x) \<and> when_c c1 (y, x) \<le> 127) \<and>
            (\<forall>q. q \<noteq> (y, x) \<longrightarrow> when_c c1 q = when_c c0 q)"
      using a(1) w
      by (auto simp: flow_cycle_one_def Let_def same_level_def when_range_def square_in_bounds_def)
  qed
  then show ?thesis
    by (auto simp: when_range_def square_in_bounds_def same_level_def)
qed

lemma flow_begin_ready:
  assumes "flow_ready (c, fs)"
  shows "\<exists>c1 n. flow_begin (c, fs) = Some (c1, n) \<and> 1 \<le> n \<and> n \<le> 255 \<and>
                same_level c c1 \<and> when_range (n - 1) c1 \<and>
                cost c1 = cost c \<and> True"
proof (cases "fs = 255")
  case True
  then have "when_range 255 c" using assms by (simp add: flow_ready_def)
  from flow_cycle[OF this] obtain c' where c': "for_grid flow_cycle_one c = Some c'"
    "same_level c c'" "when_range 127 c'" by blast
  have "cost c' = cost c"
    by (rule for_grid_pc[OF c'(1), where I = "\<lambda>c'. cost c' = cost c \<and> height c' = height c \<and> width c' = width c"
          and h = "height c" and w = "width c", THEN conjunct1])
       (auto simp: flow_cycle_one_def Let_def)
  then show ?thesis using True c' by (simp add: flow_begin_def)
next
  case False
  then show ?thesis using assms
    by (auto simp: flow_begin_def flow_ready_def same_level_def)
qed

lemma cave_update_flow_eq:
  "cave_update_flow f_info flow_depth init_y init_x py px s =
     do { (c1, n) \<leftarrow> flow_begin s;
          if \<not> square_in_bounds c1 py px then None
          else do { c4 \<leftarrow> flow_loop f_info flow_depth n
                      (stamp n 0 (py, px) c1,
                       \<lparr>flow_y = init_y(0 := py mod 256), flow_x = init_x(0 := px mod 256),
                        flow_head = 0, flow_tail = 1\<rparr>);
                    Some (c4, n) } }"
proof -
  have st: "\<And>c1 n. (c1\<lparr>when_c := (when_c c1)((py, px) := n mod 256)\<rparr>)
              \<lparr>cost := (cost (c1\<lparr>when_c := (when_c c1)((py, px) := n mod 256)\<rparr>))((py, px) := 0)\<rparr>
            = stamp n 0 (py, px) c1"
    by (simp add: stamp_def)
  show ?thesis
    unfolding cave_update_flow_def flow_begin_def Let_def st
    by (cases "snd s = 255") (simp_all add: split_beta)
qed

lemma flow_child_level:
  "same_level c0 (fst s) \<Longrightarrow> same_level c0 (fst (flow_child f_info flow_n n ty tx s d))"
  by (cases s) (simp add: flow_child_eq same_level_def)

lemma foldl_flow_child_level:
  "same_level c0 (fst s) \<Longrightarrow> same_level c0 (fst (foldl (flow_child f_info flow_n n ty tx) s ds))"
  by (induction ds arbitrary: s) (simp_all add: flow_child_level)

lemma flow_children_level:
  "same_level c0 (fst s) \<Longrightarrow> same_level c0 (fst (flow_children f_info flow_n n ty tx s))"
  unfolding flow_children_def by (rule foldl_flow_child_level)

lemma flow_loop_sim:
  assumes n: "0 \<le> n1" "n1 < 256" "0 \<le> n2" "n2 < 256"
    and sim: "flow_sim n1 n2 s1 s2"
  shows "\<exists>c1' c2'. flow_loop f_info flow_depth n1 s1 = Some c1' \<and>
            flow_loop f_info flow_depth n2 s2 = Some c2' \<and>
            flow_rel n1 n2 c1' c2' \<and> when_range n1 c1' \<and> when_range n2 c2' \<and>
            same_level (fst s1) c1'"
proof -
  define R where "R = (\<lambda>t1 t2. flow_sim n1 n2 t1 t2 \<and> same_level (fst s1) (fst t1))"
  have "\<exists>c1' c2' q1' q2'. flow_loop f_info flow_depth n1 s1 = Some c1' \<and>
            flow_loop f_info flow_depth n2 s2 = Some c2' \<and>
            R (c1', q1') (c2', q2') \<and> flow_head q1' = flow_tail q1'"
  proof (rule flow_loop_rel_rule[OF n(1,2), where R = R])
    show "R s1 s2" using sim by (simp add: R_def same_level_def)
  next
    fix c1 q1 c2 q2 assume "R (c1, q1) (c2, q2)"
    then have "flow_sim n1 n2 (c1, q1) (c2, q2)" by (simp add: R_def)
    then show "indices_ok q1 \<and> flow_head q2 = flow_head q1 \<and> flow_tail q2 = flow_tail q1 \<and>
         (flow_head q1 \<noteq> flow_tail q1 \<longrightarrow>
            front q2 = front q1 \<and>
            square_in_bounds c1 (fst (front q1)) (snd (front q1)) \<and>
            square_in_bounds c2 (fst (front q1)) (snd (front q1)) \<and>
            cost c2 (front q1) = cost c1 (front q1))"
      by (rule flow_sim_front)
  next
    fix c1 q1 c2 q2 assume a: "R (c1, q1) (c2, q2)" "flow_head q1 \<noteq> flow_tail q1"
    then have "flow_sim n1 n2 (c1, q1) (c2, q2)" by (simp add: R_def)
    then have "flow_sim n1 n2 (c1, dequeue q1) (c2, dequeue q2)" using a(2) by (rule flow_sim_dequeue)
    then show "R (c1, dequeue q1) (c2, dequeue q2)" using a(1) by (simp add: R_def)
  next
    fix c1 q1 c2 q2 assume a: "R (c1, q1) (c2, q2)" "flow_head q1 \<noteq> flow_tail q1"
    then have "flow_sim n1 n2 (c1, q1) (c2, q2)" by (simp add: R_def)
    then have "flow_sim n1 n2 (c1, dequeue q1) (c2, dequeue q2)" using a(2) by (rule flow_sim_dequeue)
    then have "flow_sim n1 n2
        (flow_children f_info n1 (cost c1 (front q1) + 1) (fst (front q1)) (snd (front q1)) (c1, dequeue q1))
        (flow_children f_info n2 (cost c1 (front q1) + 1) (fst (front q1)) (snd (front q1)) (c2, dequeue q2))"
      by (rule flow_sim_children[OF n])
    moreover have "same_level (fst s1)
        (fst (flow_children f_info n1 (cost c1 (front q1) + 1) (fst (front q1)) (snd (front q1)) (c1, dequeue q1)))"
      by (rule flow_children_level) (use a(1) in \<open>simp add: R_def\<close>)
    ultimately show "R
        (flow_children f_info n1 (cost c1 (front q1) + 1) (fst (front q1)) (snd (front q1)) (c1, dequeue q1))
        (flow_children f_info n2 (cost c1 (front q1) + 1) (fst (front q1)) (snd (front q1)) (c2, dequeue q2))"
      by (simp add: R_def)
  qed
  then show ?thesis by (auto simp: R_def flow_sim_def)
qed

lemma flow_seed_sim:
  assumes n: "1 \<le> n1" "n1 \<le> 255" "1 \<le> n2" "n2 \<le> 255"
    and lv: "same_level c1 c2" and sg: "small_grid c1"
    and w: "when_range (n1 - 1) c1" "when_range (n2 - 1) c2"
    and p: "square_in_bounds c1 py px"
  shows "flow_sim n1 n2
           (stamp n1 0 (py, px) c1,
            \<lparr>flow_y = iy1(0 := py mod 256), flow_x = ix1(0 := px mod 256), flow_head = 0, flow_tail = 1\<rparr>)
           (stamp n2 0 (py, px) c2,
            \<lparr>flow_y = iy2(0 := py mod 256), flow_x = ix2(0 := px mod 256), flow_head = 0, flow_tail = 1\<rparr>)"
proof -
  let ?q1 = "\<lparr>flow_y = iy1(0 := py mod 256), flow_x = ix1(0 := px mod 256), flow_head = 0, flow_tail = 1\<rparr>"
  let ?q2 = "\<lparr>flow_y = iy2(0 := py mod 256), flow_x = ix2(0 := px mod 256), flow_head = 0, flow_tail = 1\<rparr>"
  have ok: "indices_ok ?q1" by (simp add: indices_ok_def FLOW_MAX_def)
  have live: "\<And>i. live ?q1 i = (i = 0)"
    unfolding live_eq[OF ok] by (auto simp: FLOW_MAX_def)
  have pm: "py mod 256 = py" "px mod 256 = px"
    using in_bounds_small[OF sg p] by simp_all
  have nm: "n1 mod 256 = n1" "n2 mod 256 = n2" using n by simp_all
  have inb2: "\<And>y x. square_in_bounds c2 y x = square_in_bounds c1 y x"
    using lv by (simp add: same_level_def square_in_bounds_def)
  have "small_grid (stamp n1 0 (py, px) c1)" using sg by (simp add: small_grid_def)
  moreover have "flow_inv n1 (stamp n1 0 (py, px) c1, ?q1)"
  proof -
    have "\<forall>i. live ?q1 i \<longrightarrow>
            square_in_bounds (stamp n1 0 (py, px) c1) (flow_y ?q1 i) (flow_x ?q1 i) \<and>
            when_c (stamp n1 0 (py, px) c1) (flow_y ?q1 i, flow_x ?q1 i) = n1"
      unfolding live using p by (simp add: pm stamp_def nm)
    then show ?thesis unfolding flow_inv_def fst_conv snd_conv using ok by blast
  qed
  moreover have "queue_agree ?q1 ?q2" by (simp add: queue_agree_def live)
  moreover have "flow_rel n1 n2 (stamp n1 0 (py, px) c1) (stamp n2 0 (py, px) c2)"
    unfolding flow_rel_def
  proof (intro conjI allI impI)
    fix y x assume "square_in_bounds (stamp n1 0 (py, px) c1) y x"
    then have i: "square_in_bounds c1 y x" by simp
    then have i2: "square_in_bounds c2 y x" by (simp add: inb2)
    have "when_c c1 (y, x) \<le> n1 - 1" "when_c c2 (y, x) \<le> n2 - 1"
      using w i i2 by (simp_all add: when_range_def)
    then show "(when_c (stamp n1 0 (py, px) c1) (y, x) = n1) = (when_c (stamp n2 0 (py, px) c2) (y, x) = n2)"
      by (auto simp: stamp_def nm)
  next
    fix y x assume "square_in_bounds (stamp n1 0 (py, px) c1) y x"
      and "when_c (stamp n1 0 (py, px) c1) (y, x) = n1"
    then have i: "square_in_bounds c1 y x" "when_c (stamp n1 0 (py, px) c1) (y, x) = n1" by simp_all
    have "when_c c1 (y, x) \<le> n1 - 1" using w i by (simp add: when_range_def)
    then have "(y, x) = (py, px)" using i(2) by (auto simp: stamp_def nm split: if_splits)
    then show "cost (stamp n2 0 (py, px) c2) (y, x) = cost (stamp n1 0 (py, px) c1) (y, x)"
      by (simp add: stamp_def)
  qed (use lv in \<open>simp_all add: same_level_def\<close>)
  moreover have "when_range n1 (stamp n1 0 (py, px) c1)"
    using w(1) n by (fastforce simp: when_range_def stamp_def nm)
  moreover have "when_range n2 (stamp n2 0 (py, px) c2)"
    using w(2) n by (fastforce simp: when_range_def stamp_def nm)
  ultimately show ?thesis by (simp add: flow_sim_def)
qed

lemma same_level_trans: "same_level a b \<Longrightarrow> same_level b c \<Longrightarrow> same_level a c"
  by (simp add: same_level_def)

lemma same_level_sym: "same_level a b \<Longrightarrow> same_level b a"
  by (simp add: same_level_def)

lemma cave_update_flow_sim:
  assumes r: "flow_ready (cA, fA)" "flow_ready (cB, fB)"
    and lv: "same_level cA cB" and sg: "small_grid cA"
    and p: "square_in_bounds cA py px"
  shows "\<exists>cA' nA cB' nB.
           cave_update_flow f_info flow_depth iyA ixA py px (cA, fA) = Some (cA', nA) \<and>
           cave_update_flow f_info flow_depth iyB ixB py px (cB, fB) = Some (cB', nB) \<and>
           flow_rel nA nB cA' cB' \<and> flow_ready (cA', nA) \<and> flow_ready (cB', nB) \<and>
           same_level cA cA'"
proof -
  from flow_begin_ready[OF r(1)] obtain c1 n1 where b1: "flow_begin (cA, fA) = Some (c1, n1)"
    "1 \<le> n1" "n1 \<le> 255" "same_level cA c1" "when_range (n1 - 1) c1" by blast
  from flow_begin_ready[OF r(2)] obtain c2 n2 where b2: "flow_begin (cB, fB) = Some (c2, n2)"
    "1 \<le> n2" "n2 \<le> 255" "same_level cB c2" "when_range (n2 - 1) c2" by blast
  have lv12: "same_level c1 c2"
    using b1(4) b2(4) lv by (simp add: same_level_def)
  have sg1: "small_grid c1" using sg b1(4) by (simp add: small_grid_def same_level_def)
  have p1: "square_in_bounds c1 py px" using p b1(4) by (simp add: same_level_def square_in_bounds_def)
  have p2: "square_in_bounds c2 py px" using p1 lv12 by (simp add: same_level_def square_in_bounds_def)
  have sim: "flow_sim n1 n2
           (stamp n1 0 (py, px) c1,
            \<lparr>flow_y = iyA(0 := py mod 256), flow_x = ixA(0 := px mod 256), flow_head = 0, flow_tail = 1\<rparr>)
           (stamp n2 0 (py, px) c2,
            \<lparr>flow_y = iyB(0 := py mod 256), flow_x = ixB(0 := px mod 256), flow_head = 0, flow_tail = 1\<rparr>)"
    by (rule flow_seed_sim[OF b1(2,3) b2(2,3) lv12 sg1 b1(5) b2(5) p1])
  have nn: "0 \<le> n1" "n1 < 256" "0 \<le> n2" "n2 < 256" using b1 b2 by simp_all
  from flow_loop_sim[OF nn sim, of f_info flow_depth]
  obtain c1' c2' where l:
    "flow_loop f_info flow_depth n1 (stamp n1 0 (py, px) c1,
        \<lparr>flow_y = iyA(0 := py mod 256), flow_x = ixA(0 := px mod 256), flow_head = 0, flow_tail = 1\<rparr>) = Some c1'"
    "flow_loop f_info flow_depth n2 (stamp n2 0 (py, px) c2,
        \<lparr>flow_y = iyB(0 := py mod 256), flow_x = ixB(0 := px mod 256), flow_head = 0, flow_tail = 1\<rparr>) = Some c2'"
    "flow_rel n1 n2 c1' c2'" "when_range n1 c1'" "when_range n2 c2'" "same_level c1 c1'"
    by (auto simp: same_level_def)
  have "cave_update_flow f_info flow_depth iyA ixA py px (cA, fA) = Some (c1', n1)"
    unfolding cave_update_flow_eq b1(1) using p1 l(1) by simp
  moreover have "cave_update_flow f_info flow_depth iyB ixB py px (cB, fB) = Some (c2', n2)"
    unfolding cave_update_flow_eq b2(1) using p2 l(2) by simp
  moreover have "flow_ready (c1', n1)" "flow_ready (c2', n2)"
    using l(4,5) nn by (simp_all add: flow_ready_def)
  moreover have "same_level cA c1'" by (rule same_level_trans[OF b1(4) l(6)])
  ultimately show ?thesis using l(3) by blast
qed

lemma flow_calls_sim:
  assumes r: "flow_ready (c, flow_save)" and sg: "small_grid c" and p: "square_in_bounds c py px"
  shows "\<exists>c1 n1 ck nk.
           cave_update_flow f_info flow_depth (init_y 0) (init_x 0) py px (c, flow_save) = Some (c1, n1) \<and>
           flow_calls f_info flow_depth init_y init_x py px (Suc k) (c, flow_save) = Some (ck, nk) \<and>
           flow_rel n1 nk c1 ck \<and> flow_ready (ck, nk) \<and> same_level c ck"
proof (induction k)
  case 0
  from cave_update_flow_sim[OF r r _ sg p, of f_info flow_depth "init_y 0" "init_x 0" "init_y 0" "init_x 0"]
  show ?case by (auto simp: same_level_def)
next
  case (Suc k)
  then obtain c1 n1 ck nk where
    a: "cave_update_flow f_info flow_depth (init_y 0) (init_x 0) py px (c, flow_save) = Some (c1, n1)"
       "flow_calls f_info flow_depth init_y init_x py px (Suc k) (c, flow_save) = Some (ck, nk)"
       "flow_ready (ck, nk)" "same_level c ck"
    by blast
  from cave_update_flow_sim[OF r a(3) a(4) sg p, of f_info flow_depth "init_y 0" "init_x 0"
         "init_y (Suc k)" "init_x (Suc k)"]
  obtain cA' nA cB' nB where
    b: "cave_update_flow f_info flow_depth (init_y 0) (init_x 0) py px (c, flow_save) = Some (cA', nA)"
       "cave_update_flow f_info flow_depth (init_y (Suc k)) (init_x (Suc k)) py px (ck, nk) = Some (cB', nB)"
       "flow_rel nA nB cA' cB'" "flow_ready (cB', nB)" "same_level c cA'"
    by blast
  have e: "cA' = c1" "nA = n1" using a(1) b(1) by simp_all
  have lv: "same_level c cB'"
    using b(3,5) by (simp add: flow_rel_def same_level_def)
  have "flow_calls f_info flow_depth init_y init_x py px (Suc (Suc k)) (c, flow_save) = Some (cB', nB)"
    using a(2) b(2) by (simp del: flow_calls.simps(2) add: flow_calls.simps(2)[of _ _ _ _ _ _ "Suc k"])
  then show ?case using a(1) b(3,4) lv unfolding e by blast
qed

lemma upt8: "[0..<8] = [0, 1, 2, 3, 4, 5, 6, 7]"
  by (simp add: upt_rec)

text \<open>Storing an entry when the queue is full, and when it is not.\<close>

lemma queue_full_iff:
  assumes "indices_ok q"
  shows "(queue_length q = 2047) =
         ((if flow_tail q + 1 = FLOW_MAX then 0 else flow_tail q + 1) = flow_head q)"
proof -
  have "(queue_length q = 2047) = (int (queue_length q) = 2047)" by auto
  also have "\<dots> = ((if flow_tail q + 1 = FLOW_MAX then 0 else flow_tail q + 1) = flow_head q)"
    unfolding queue_length_eq[OF assms] using assms by (auto simp: indices_ok_def FLOW_MAX_def)
  finally show ?thesis .
qed

lemma enqueue_full:
  assumes "indices_ok q" "queue_length q = 2047"
  shows "flow_tail (enqueue p q) = flow_tail q"
  using assms(2) unfolding queue_full_iff[OF assms(1)] by (simp add: enqueue_def Let_def)

lemma enqueue_room:
  assumes "indices_ok q" "queue_length q \<noteq> 2047"
  shows "flow_tail (enqueue p q) = (if flow_tail q + 1 = FLOW_MAX then 0 else flow_tail q + 1)"
    and "live (enqueue p q) (flow_tail q)"
    and "queue_length (enqueue p q) = queue_length q + 1"
proof -
  show t: "flow_tail (enqueue p q) = (if flow_tail q + 1 = FLOW_MAX then 0 else flow_tail q + 1)"
    using assms(2) unfolding queue_full_iff[OF assms(1)] by (simp add: enqueue_def Let_def)
  show "live (enqueue p q) (flow_tail q)"
    unfolding live_eq[OF enqueue_indices_ok[OF assms(1)]] t
    using assms(1) assms(2)[unfolded queue_full_iff[OF assms(1)]]
    by (auto simp: indices_ok_def FLOW_MAX_def split: if_splits)
  have "int (queue_length (enqueue p q)) = int (queue_length q) + 1"
    unfolding queue_length_eq[OF enqueue_indices_ok[OF assms(1)]] queue_length_eq[OF assms(1)] t
    using assms(1) assms(2)[unfolded queue_full_iff[OF assms(1)]]
    by (auto simp: indices_ok_def FLOW_MAX_def split: if_splits)
  then show "queue_length (enqueue p q) = queue_length q + 1" by simp
qed

lemma live_enqueue_mono:
  assumes "indices_ok q" "live q i"
  shows "live (enqueue p q) i"
  using assms(2) unfolding live_eq[OF assms(1)] live_eq[OF enqueue_indices_ok[OF assms(1)]]
  using assms(1) by (auto simp: enqueue_def Let_def indices_ok_def FLOW_MAX_def split: if_splits)

lemma live_enqueue_full:
  assumes "indices_ok q" "queue_length q = 2047"
  shows "live (enqueue p q) i = live q i"
  unfolding live_def enqueue_fields enqueue_full[OF assms] ..

text \<open>The chunk that the cycling scan returns.\<close>

lemma flow_cycle_eq:
  "for_grid flow_cycle_one c =
     Some (c\<lparr>when_c := (\<lambda>p. if square_in_bounds c (fst p) (snd p) then cycled (when_c c p)
                               else when_c c p)\<rparr>)"
proof -
  define h where "h = height c"
  define w where "w = width c"
  define dn where "dn = (\<lambda>y x (p :: int \<times> int). 0 \<le> fst p \<and> fst p < h \<and> 0 \<le> snd p \<and> snd p < w \<and>
                           (fst p < y \<or> (fst p = y \<and> snd p < x)))"
  define J where "J = (\<lambda>y x (c' :: chunk).
     c' = c\<lparr>when_c := (\<lambda>p. if dn y x p then cycled (when_c c p) else when_c c p)\<rparr>)"
  have Jd: "\<And>y x c'. J y x c' \<Longrightarrow> height c' = h \<and> width c' = w"
    by (simp add: J_def h_def w_def)
  have "\<exists>c'. for_y (\<lambda>c y. for_x (\<lambda>c x. flow_cycle_one c y x) c 0) c 0 = Some c' \<and>
             (\<lambda>y c. J y 0 c) (max 0 h) c'"
  proof (rule for_y_defined[where I = "\<lambda>y c. J y 0 c" and h = h])
    have "\<And>p. \<not> dn 0 0 p" by (auto simp: dn_def)
    then show "J 0 0 c" by (simp add: J_def)
  next
    fix y c' assume "J y 0 c'" then show "height c' = h" using Jd by simp
  next
    fix y c' assume a: "J y 0 c'" "0 \<le> y" "y < h"
    have "\<exists>c1. for_x (\<lambda>c x. flow_cycle_one c y x) c' 0 = Some c1 \<and> (\<lambda>x c. J y x c) (max 0 w) c1"
    proof (rule for_x_defined[where I = "\<lambda>x c. J y x c" and w = w])
      show "J y 0 c'" by (rule a(1))
    next
      fix x c0 assume "J y x c0" then show "width c0 = w" using Jd by simp
    next
      fix x c0 assume b: "J y x c0" "0 \<le> x" "x < w"
      have nd: "\<not> dn y x (y, x)" by (simp add: dn_def)
      have wv: "when_c c0 (y, x) = when_c c (y, x)" using b(1) nd by (simp add: J_def)
      have fe: "(\<lambda>p. if dn y x p then cycled (when_c c p) else when_c c p)((y, x) := cycled (when_c c (y, x)))
                = (\<lambda>p. if dn y (x + 1) p then cycled (when_c c p) else when_c c p)"
      proof (rule ext)
        fix p :: "int \<times> int"
        have "dn y (x + 1) p = (dn y x p \<or> p = (y, x))"
          using a(2,3) b(2,3) by (auto simp: dn_def prod_eq_iff)
        then show "((\<lambda>p. if dn y x p then cycled (when_c c p) else when_c c p)((y, x) := cycled (when_c c (y, x)))) p
                = (if dn y (x + 1) p then cycled (when_c c p) else when_c c p)"
          by auto
      qed
      have "flow_cycle_one c0 y x = Some (c0\<lparr>when_c := (when_c c0)((y, x) := cycled (when_c c0 (y, x)))\<rparr>)"
        by (simp add: flow_cycle_one_def Let_def cycled_def)
      also have "c0\<lparr>when_c := (when_c c0)((y, x) := cycled (when_c c0 (y, x)))\<rparr>
            = c\<lparr>when_c := (\<lambda>p. if dn y (x + 1) p then cycled (when_c c p) else when_c c p)\<rparr>"
        unfolding wv using b(1) unfolding J_def by (simp add: fe)
      finally show "\<exists>c1. flow_cycle_one c0 y x = Some c1 \<and> J y (x + 1) c1"
        by (simp add: J_def)
    qed
    then obtain c1 where r: "for_x (\<lambda>c x. flow_cycle_one c y x) c' 0 = Some c1" and j: "J y (max 0 w) c1"
      by auto
    have "\<And>p. dn y (max 0 w) p = dn (y + 1) 0 p" by (auto simp: dn_def max_def)
    then have "J (y + 1) 0 c1" using j by (simp add: J_def)
    then show "\<exists>c1. for_x (\<lambda>c x. flow_cycle_one c y x) c' 0 = Some c1 \<and> J (y + 1) 0 c1" using r by blast
  qed
  then obtain c' where r: "for_grid flow_cycle_one c = Some c'" and j: "J (max 0 h) 0 c'"
    by (auto simp: for_grid_def)
  have "\<And>p. dn (max 0 h) 0 p = square_in_bounds c (fst p) (snd p)"
    by (auto simp: dn_def max_def square_in_bounds_def h_def w_def)
  then show ?thesis using r j by (simp add: J_def)
qed
section \<open>The flow field: claims\<close>

text \<open>
  Claim C9, as stated, fails on a map that is wider than the byte coordinates of the
  queue. The level is an open strip of one row and 258 columns with no stamp set, the
  generation counter is 254, the player stands at \<open>(0, 255)\<close> and the maximum depth is 5.
  The first call has generation 255. The cell \<open>(0, 256)\<close> is queued as \<open>(0, 0)\<close>, so the
  call expands the cell \<open>(0, 0)\<close> with the cost that this cell happens to hold, which is
  0, and stamps \<open>(0, 1)\<close> with cost 1; later it stamps \<open>(0, 0)\<close> with cost 2. The second
  call finds the counter at 255, cycles the stamps and restarts the counter at 128; it
  expands \<open>(0, 0)\<close> with the cost 2 left by the first call and stamps \<open>(0, 1)\<close> with
  cost 3. The cell carries the current generation after both calls, with different costs.
\<close>

theorem flow_cost_wide_counterexample:
  "flow_ready (room_with_walls 1 258 [], 254) \<and>
   square_in_bounds (room_with_walls 1 258 []) 0 255 \<and>
   \<not> small_grid (room_with_walls 1 258 []) \<and>
   counter_after (flow_calls floor_or_granite 5 blank_arrays blank_arrays 0 255 1
                    (room_with_walls 1 258 [], 254)) = Some 255 \<and>
   stamped_after (flow_calls floor_or_granite 5 blank_arrays blank_arrays 0 255 1
                    (room_with_walls 1 258 [], 254)) 0 1 = Some True \<and>
   cost_after (flow_calls floor_or_granite 5 blank_arrays blank_arrays 0 255 1
                 (room_with_walls 1 258 [], 254)) 0 1 = Some 1 \<and>
   counter_after (flow_calls floor_or_granite 5 blank_arrays blank_arrays 0 255 2
                    (room_with_walls 1 258 [], 254)) = Some 128 \<and>
   stamped_after (flow_calls floor_or_granite 5 blank_arrays blank_arrays 0 255 2
                    (room_with_walls 1 258 [], 254)) 0 1 = Some True \<and>
   cost_after (flow_calls floor_or_granite 5 blank_arrays blank_arrays 0 255 2
                 (room_with_walls 1 258 [], 254)) 0 1 = Some 3"
proof -
  have r: "flow_ready (room_with_walls 1 258 [], 254)"
    by (simp add: flow_ready_def when_range_def room_with_walls_def)
  have p: "square_in_bounds (room_with_walls 1 258 []) 0 255"
    by (simp add: square_in_bounds_def room_with_walls_def)
  have g: "\<not> small_grid (room_with_walls 1 258 [])"
    by (simp add: small_grid_def room_with_walls_def)
  have one: "map_option (\<lambda>s. (snd s, when_c (fst s) (0, 1), cost (fst s) (0, 1)))
      (flow_calls floor_or_granite 5 blank_arrays blank_arrays 0 255 1 (room_with_walls 1 258 [], 254))
      = Some (255, 255, 1)"
    by (simp add: cave_update_flow_def flow_loop.simps flow_children_def flow_child_def
          room_with_walls_def floor_or_granite_def square_in_bounds_def tf_has_def FLOW_MAX_def
          ddy_ddd_def ddx_ddd_def upt8 Let_def blank_arrays_def)
  have two: "map_option (\<lambda>s. (snd s, when_c (fst s) (0, 1), cost (fst s) (0, 1)))
      (flow_calls floor_or_granite 5 blank_arrays blank_arrays 0 255 2 (room_with_walls 1 258 [], 254))
      = Some (128, 128, 3)"
    by (simp add: numeral_2_eq_2 cave_update_flow_def flow_cycle_eq cycled_def
          flow_loop.simps flow_children_def flow_child_def
          room_with_walls_def floor_or_granite_def square_in_bounds_def tf_has_def FLOW_MAX_def
          ddy_ddd_def ddx_ddd_def upt8 Let_def blank_arrays_def)
  from one obtain s1 where s1:
    "flow_calls floor_or_granite 5 blank_arrays blank_arrays 0 255 1 (room_with_walls 1 258 [], 254) = Some s1"
    "snd s1 = 255" "when_c (fst s1) (0, 1) = 255" "cost (fst s1) (0, 1) = 1"
    by (auto simp: map_option_case split: option.splits)
  from two obtain s2 where s2:
    "flow_calls floor_or_granite 5 blank_arrays blank_arrays 0 255 2 (room_with_walls 1 258 [], 254) = Some s2"
    "snd s2 = 128" "when_c (fst s2) (0, 1) = 128" "cost (fst s2) (0, 1) = 3"
    by (auto simp: map_option_case split: option.splits)
  show ?thesis
    unfolding s1(1) s2(1) counter_after_def stamped_after_def cost_after_def
    using r p g s1(2-4) s2(2-4) by simp
qed

text \<open>
  Claim C9, amended with the bound on the size of the map. On a static map of at most
  256 rows and 256 columns with the player fixed on the grid, the cost field is the same
  after any number of calls of \<open>cave_update_flow\<close> as after the first, in particular after
  the calls that exhaust the range of the generation counter and cycle the time stamps.
  Starting from a state in which no stamp is newer than the counter: the first call
  returns, \<open>Suc k\<close> calls return, the cells that carry the current generation after
  \<open>Suc k\<close> calls (the cells the flow reaches) are those that carry it after the first
  call, and each of them has the cost it had after the first call.
\<close>

theorem flow_cost_stable:
  assumes "flow_ready (c, flow_save)" and "small_grid c" and "square_in_bounds c py px"
  shows "\<exists>c1 n1 ck nk.
           flow_calls f_info flow_depth init_y init_x py px 1 (c, flow_save) = Some (c1, n1) \<and>
           flow_calls f_info flow_depth init_y init_x py px (Suc k) (c, flow_save) = Some (ck, nk) \<and>
           (\<forall>y x. square_in_bounds c y x \<longrightarrow>
              ((when_c ck (y, x) = nk) = (when_c c1 (y, x) = n1)) \<and>
              (when_c c1 (y, x) = n1 \<longrightarrow> cost ck (y, x) = cost c1 (y, x)))"
proof -
  from flow_calls_sim[OF assms, of f_info flow_depth init_y init_x k]
  obtain c1 n1 ck nk where
    a: "cave_update_flow f_info flow_depth (init_y 0) (init_x 0) py px (c, flow_save) = Some (c1, n1)"
       "flow_calls f_info flow_depth init_y init_x py px (Suc k) (c, flow_save) = Some (ck, nk)"
       "flow_rel n1 nk c1 ck" "same_level c ck"
    by blast
  have i: "\<And>y x. square_in_bounds c1 y x = square_in_bounds c y x"
    using a(3,4) by (simp add: flow_rel_def same_level_def square_in_bounds_def)
  have "flow_calls f_info flow_depth init_y init_x py px 1 (c, flow_save) = Some (c1, n1)"
    using a(1) by simp
  moreover have "\<forall>y x. square_in_bounds c y x \<longrightarrow>
              ((when_c ck (y, x) = nk) = (when_c c1 (y, x) = n1)) \<and>
              (when_c c1 (y, x) = n1 \<longrightarrow> cost ck (y, x) = cost c1 (y, x))"
    using a(3) unfolding flow_rel_def i by blast
  ultimately show ?thesis using a(2) by blast
qed

theorem flow_cost_stable_witness:
  "flow_ready (room_with_walls 3 3 [(1, 1)], 0) \<and> small_grid (room_with_walls 3 3 [(1, 1)]) \<and>
   square_in_bounds (room_with_walls 3 3 [(1, 1)]) 0 0 \<and>
   (\<exists>ck nk. flow_calls floor_or_granite 32 (\<lambda>i j. 0) (\<lambda>i j. 0) 0 0 (Suc 300)
               (room_with_walls 3 3 [(1, 1)], 0) = Some (ck, nk) \<and>
            when_c ck (2, 2) = nk \<and> cost ck (2, 2) = 3 \<and> when_c ck (1, 1) \<noteq> nk)"
proof -
  have r: "flow_ready (room_with_walls 3 3 [(1, 1)], 0)"
    by (simp add: flow_ready_def when_range_def room_with_walls_def)
  have g: "small_grid (room_with_walls 3 3 [(1, 1)])"
    by (simp add: small_grid_def room_with_walls_def)
  have p: "square_in_bounds (room_with_walls 3 3 [(1, 1)]) 0 0"
    "square_in_bounds (room_with_walls 3 3 [(1, 1)]) 2 2"
    "square_in_bounds (room_with_walls 3 3 [(1, 1)]) 1 1"
    by (simp_all add: square_in_bounds_def room_with_walls_def)
  have first: "map_option (\<lambda>s. (snd s, when_c (fst s) (2, 2), cost (fst s) (2, 2), when_c (fst s) (1, 1)))
          (cave_update_flow floor_or_granite 32 (\<lambda>j. 0) (\<lambda>j. 0) 0 0 (room_with_walls 3 3 [(1, 1)], 0))
        = Some (1, 1, 3, 0)"
    by (simp add: cave_update_flow_def flow_loop.simps flow_children_def flow_child_def
          room_with_walls_def floor_or_granite_def square_in_bounds_def tf_has_def FLOW_MAX_def
          ddy_ddd_def ddx_ddd_def upt8 Let_def)
  from flow_cost_stable[OF r g p(1), of floor_or_granite 32 "\<lambda>i j. 0" "\<lambda>i j. 0" 300]
  obtain c1 n1 ck nk where
    a: "flow_calls floor_or_granite 32 (\<lambda>i j. 0) (\<lambda>i j. 0) 0 0 1 (room_with_walls 3 3 [(1, 1)], 0) = Some (c1, n1)"
       "flow_calls floor_or_granite 32 (\<lambda>i j. 0) (\<lambda>i j. 0) 0 0 (Suc 300) (room_with_walls 3 3 [(1, 1)], 0) = Some (ck, nk)"
       "\<forall>y x. square_in_bounds (room_with_walls 3 3 [(1, 1)]) y x \<longrightarrow>
              ((when_c ck (y, x) = nk) = (when_c c1 (y, x) = n1)) \<and>
              (when_c c1 (y, x) = n1 \<longrightarrow> cost ck (y, x) = cost c1 (y, x))"
    by blast
  have c1: "cave_update_flow floor_or_granite 32 (\<lambda>j. 0) (\<lambda>j. 0) 0 0 (room_with_walls 3 3 [(1, 1)], 0) = Some (c1, n1)"
    using a(1) by simp
  have v: "n1 = 1" "when_c c1 (2, 2) = 1" "cost c1 (2, 2) = 3" "when_c c1 (1, 1) = 0"
    using first unfolding c1 by simp_all
  have "when_c ck (2, 2) = nk \<and> cost ck (2, 2) = 3" using a(3) p(2) v by auto
  moreover have "when_c ck (1, 1) \<noteq> nk" using a(3) p(3) v by auto
  ultimately show ?thesis using r g p(1) a(2) by blast
qed

text \<open>
  Claim C8, as stated, fails: on overflow the call does not drop the batch of children of
  the cell being expanded. In the state of the queue loop where the cell \<open>(1, 1)\<close> of the
  open 3x3 room has just been dequeued and the queue is \<open>crowded_queue\<close> (one more entry
  fits), the eight children are generated with generation 1 and cost 1. The first child
  \<open>(2, 1)\<close> is stored in slot 0 and stays queued: the producer index ends at 1. The second
  child \<open>(0, 1)\<close> would make the producer index reach the consumer index 2, and is
  dropped alone; it keeps the generation just written.
\<close>

theorem flow_children_overflow_counterexample:
  "flow_head crowded_queue = 2 \<and> flow_tail crowded_queue = 0 \<and>
   flow_head (snd (flow_children floor_or_granite 1 1 1 1 (room_with_walls 3 3 [], crowded_queue))) = 2 \<and>
   flow_tail (snd (flow_children floor_or_granite 1 1 1 1 (room_with_walls 3 3 [], crowded_queue))) = 1 \<and>
   flow_y (snd (flow_children floor_or_granite 1 1 1 1 (room_with_walls 3 3 [], crowded_queue))) 0 = 2 \<and>
   flow_x (snd (flow_children floor_or_granite 1 1 1 1 (room_with_walls 3 3 [], crowded_queue))) 0 = 1 \<and>
   live (snd (flow_children floor_or_granite 1 1 1 1 (room_with_walls 3 3 [], crowded_queue))) 0 \<and>
   when_c (fst (flow_children floor_or_granite 1 1 1 1 (room_with_walls 3 3 [], crowded_queue))) (0, 1) = 1"
  by (simp add: flow_children_def flow_child_def crowded_queue_def live_def
          room_with_walls_def floor_or_granite_def square_in_bounds_def tf_has_def FLOW_MAX_def
          ddy_ddd_def ddx_ddd_def upt8 Let_def)

text \<open>
  Claim C8, amended. A child that passes the tests is stamped with the generation and
  its cost, whether it is queued or not, and the call goes on. The consumer index and
  every queued entry are left as they are. When the queue holds 2047 entries, advancing
  the producer index would reach the consumer index: the producer index is put back, so
  that this one child is not queued, and the queued entries are the same as before,
  among them the children of the same cell queued earlier (the coordinates of the
  dropped child are written to the one free slot). Otherwise the child is queued in the
  slot at the producer index.
\<close>

theorem flow_child_overflow:
  assumes "indices_ok q" and "flows_to f_info flow_n c (ty + ddy_ddd ! d, tx + ddx_ddd ! d)"
  shows "\<exists>q'. flow_child f_info flow_n n ty tx (c, q) d =
                 (stamp flow_n n (ty + ddy_ddd ! d, tx + ddx_ddd ! d) c, q') \<and>
              indices_ok q' \<and> flow_head q' = flow_head q \<and>
              (\<forall>i. live q i \<longrightarrow> live q' i \<and> flow_y q' i = flow_y q i \<and> flow_x q' i = flow_x q i) \<and>
              (if queue_length q = 2047
               then flow_tail q' = flow_tail q \<and> (\<forall>i. live q' i = live q i)
               else live q' (flow_tail q) \<and>
                    flow_y q' (flow_tail q) = (ty + ddy_ddd ! d) mod 256 \<and>
                    flow_x q' (flow_tail q) = (tx + ddx_ddd ! d) mod 256 \<and>
                    queue_length q' = queue_length q + 1)"
proof -
  let ?p = "(ty + ddy_ddd ! d, tx + ddx_ddd ! d)"
  have e: "flow_child f_info flow_n n ty tx (c, q) d = (stamp flow_n n ?p c, enqueue ?p q)"
    unfolding flow_child_eq using assms(2) by simp
  have nl: "\<not> live q (flow_tail q)" by (rule not_live_tail[OF assms(1)])
  have keep: "\<forall>i. live q i \<longrightarrow> live (enqueue ?p q) i \<and> flow_y (enqueue ?p q) i = flow_y q i \<and>
                flow_x (enqueue ?p q) i = flow_x q i"
    using live_enqueue_mono[OF assms(1)] nl by auto
  have last: "if queue_length q = 2047
               then flow_tail (enqueue ?p q) = flow_tail q \<and> (\<forall>i. live (enqueue ?p q) i = live q i)
               else live (enqueue ?p q) (flow_tail q) \<and>
                    flow_y (enqueue ?p q) (flow_tail q) = (ty + ddy_ddd ! d) mod 256 \<and>
                    flow_x (enqueue ?p q) (flow_tail q) = (tx + ddx_ddd ! d) mod 256 \<and>
                    queue_length (enqueue ?p q) = queue_length q + 1"
  proof (cases "queue_length q = 2047")
    case True
    then show ?thesis using enqueue_full[OF assms(1) True] live_enqueue_full[OF assms(1) True] by simp
  next
    case False
    then show ?thesis using enqueue_room(2,3)[OF assms(1) False] by simp
  qed
  show ?thesis
    unfolding e using enqueue_indices_ok[OF assms(1)] keep last
    by (intro exI[of _ "enqueue ?p q"] conjI) simp_all
qed

theorem flow_child_overflow_witness:
  "indices_ok full_queue \<and> flows_to floor_or_granite 1 (room_with_walls 3 3 []) (2, 1) \<and>
   queue_length full_queue = 2047 \<and>
   (\<exists>q'. flow_child floor_or_granite 1 1 1 1 (room_with_walls 3 3 [], full_queue) 0 =
            (stamp 1 1 (2, 1) (room_with_walls 3 3 []), q') \<and>
          flow_head q' = 2 \<and> flow_tail q' = 1)"
proof -
  have ok: "indices_ok full_queue" by (simp add: indices_ok_def full_queue_def FLOW_MAX_def)
  have d: "1 + ddy_ddd ! 0 = (2::int)" "1 + ddx_ddd ! 0 = (1::int)"
    by (simp_all add: ddy_ddd_def ddx_ddd_def)
  have f: "flows_to floor_or_granite 1 (room_with_walls 3 3 []) (2, 1)"
    by (simp add: flows_to_def room_with_walls_def square_in_bounds_def floor_or_granite_def tf_has_def)
  have l: "queue_length full_queue = 2047"
    by (simp add: queue_length_def full_queue_def FLOW_MAX_def)
  have f': "flows_to floor_or_granite 1 (room_with_walls 3 3 []) (1 + ddy_ddd ! 0, 1 + ddx_ddd ! 0)"
    unfolding d by (rule f)
  from flow_child_overflow[OF ok f', of 1] l
  have "\<exists>q'. flow_child floor_or_granite 1 1 1 1 (room_with_walls 3 3 [], full_queue) 0 =
            (stamp 1 1 (2, 1) (room_with_walls 3 3 []), q') \<and>
          flow_head q' = flow_head full_queue \<and> flow_tail q' = flow_tail full_queue"
    unfolding d by auto
  then show ?thesis using ok f l by (simp add: full_queue_def)
qed
section \<open>The flow field as a breadth-first search: proofs\<close>

lemma flow_loop_inv_rule:
  fixes I :: "chunk \<times> flow_queue \<Rightarrow> bool"
  assumes n: "0 \<le> n" "n < 256"
    and I0: "I s"
    and Iq: "\<And>c q. I (c, q) \<Longrightarrow> indices_ok q \<and>
               (flow_head q \<noteq> flow_tail q \<longrightarrow> square_in_bounds c (fst (front q)) (snd (front q)))"
    and Iskip: "\<And>c q. I (c, q) \<Longrightarrow> flow_head q \<noteq> flow_tail q \<Longrightarrow>
               cost c (front q) + 1 = flow_depth \<Longrightarrow> I (c, dequeue q)"
    and Iexp: "\<And>c q. I (c, q) \<Longrightarrow> flow_head q \<noteq> flow_tail q \<Longrightarrow>
               cost c (front q) + 1 \<noteq> flow_depth \<Longrightarrow>
               I (flow_children f_info n (cost c (front q) + 1) (fst (front q)) (snd (front q))
                    (c, dequeue q))"
  shows "\<exists>c' q'. flow_loop f_info flow_depth n s = Some c' \<and> I (c', q') \<and>
                  flow_head q' = flow_tail q'"
proof -
  define R where "R = (\<lambda>s1 s2 :: chunk \<times> flow_queue. s1 = s2 \<and> I s1)"
  have "\<exists>c1' c2' q1' q2'. flow_loop f_info flow_depth n s = Some c1' \<and>
            flow_loop f_info flow_depth n s = Some c2' \<and>
            R (c1', q1') (c2', q2') \<and> flow_head q1' = flow_tail q1'"
  proof (rule flow_loop_rel_rule[OF n, where R = R])
    show "R s s" using I0 by (simp add: R_def)
  next
    fix c1 q1 c2 q2 assume "R (c1, q1) (c2, q2)"
    then show "indices_ok q1 \<and> flow_head q2 = flow_head q1 \<and> flow_tail q2 = flow_tail q1 \<and>
         (flow_head q1 \<noteq> flow_tail q1 \<longrightarrow>
            front q2 = front q1 \<and>
            square_in_bounds c1 (fst (front q1)) (snd (front q1)) \<and>
            square_in_bounds c2 (fst (front q1)) (snd (front q1)) \<and>
            cost c2 (front q1) = cost c1 (front q1))"
      using Iq[of c1 q1] by (auto simp: R_def)
  next
    fix c1 q1 c2 q2
    assume "R (c1, q1) (c2, q2)" "flow_head q1 \<noteq> flow_tail q1" "cost c1 (front q1) + 1 = flow_depth"
    then show "R (c1, dequeue q1) (c2, dequeue q2)"
      using Iskip[of c1 q1] by (auto simp: R_def)
  next
    fix c1 q1 c2 q2
    assume "R (c1, q1) (c2, q2)" "flow_head q1 \<noteq> flow_tail q1" "cost c1 (front q1) + 1 \<noteq> flow_depth"
    then show "R (flow_children f_info n (cost c1 (front q1) + 1) (fst (front q1)) (snd (front q1)) (c1, dequeue q1))
                 (flow_children f_info n (cost c1 (front q1) + 1) (fst (front q1)) (snd (front q1)) (c2, dequeue q2))"
      using Iexp[of c1 q1] by (auto simp: R_def)
  qed
  then show ?thesis by (auto simp: R_def)
qed

lemma queue_length_zero:
  assumes "indices_ok q"
  shows "(queue_length q = 0) = (flow_head q = flow_tail q)"
proof -
  have "(queue_length q = 0) = (int (queue_length q) = 0)" by simp
  also have "\<dots> = (flow_head q = flow_tail q)"
    unfolding queue_length_eq[OF assms] using assms by (auto simp: indices_ok_def FLOW_MAX_def)
  finally show ?thesis .
qed

lemma queue_list_empty:
  assumes "indices_ok q"
  shows "(queue_list q = []) = (flow_head q = flow_tail q)"
  using queue_length_zero[OF assms] by (simp add: queue_list_def)

lemma length_queue_list [simp]: "length (queue_list q) = queue_length q"
  by (simp add: queue_list_def)

lemma dequeue_length_eq:
  assumes "indices_ok q" "flow_head q \<noteq> flow_tail q"
  shows "queue_length q = Suc (queue_length (dequeue q))"
proof -
  have "int (queue_length q) = int (queue_length (dequeue q)) + 1"
    unfolding queue_length_eq[OF assms(1)] queue_length_eq[OF dequeue_indices_ok[OF assms(1)]]
    using assms by (auto simp: indices_ok_def dequeue_def FLOW_MAX_def)
  then show ?thesis by simp
qed

lemma slot_dequeue:
  assumes "indices_ok q"
  shows "slot (dequeue q) k = slot q (Suc k)"
proof -
  have "flow_head (dequeue q) mod FLOW_MAX = (flow_head q + 1) mod FLOW_MAX"
    using assms by (auto simp: dequeue_def indices_ok_def FLOW_MAX_def)
  then have "(flow_head (dequeue q) + int k) mod FLOW_MAX = (flow_head q + 1 + int k) mod FLOW_MAX"
    by (metis mod_add_left_eq)
  then show ?thesis by (simp add: slot_def algebra_simps)
qed

lemma slot_zero:
  assumes "indices_ok q"
  shows "slot q 0 = flow_head q"
  using assms by (simp add: slot_def indices_ok_def mod_pos_pos_trivial)

lemma queue_list_dequeue:
  assumes "indices_ok q" "flow_head q \<noteq> flow_tail q"
  shows "queue_list q = front q # queue_list (dequeue q)"
proof -
  have f: "flow_y (dequeue q) = flow_y q" "flow_x (dequeue q) = flow_x q"
    by (simp_all add: dequeue_def)
  have u: "[0..<Suc (queue_length (dequeue q))] = 0 # map Suc [0..<queue_length (dequeue q)]"
    by (simp add: upt_conv_Cons map_Suc_upt del: upt_Suc)
  show ?thesis
    unfolding queue_list_def[of q] dequeue_length_eq[OF assms] u
    by (simp add: queue_list_def f slot_dequeue[OF assms(1)] slot_zero[OF assms(1)] front_def comp_def)
qed

lemma slot_tail:
  assumes "indices_ok q"
  shows "slot q (queue_length q) = flow_tail q"
proof -
  have "(flow_head q + int (queue_length q)) mod FLOW_MAX = flow_tail q"
    unfolding queue_length_eq[OF assms] using assms
    by (auto simp: indices_ok_def FLOW_MAX_def mod_pos_pos_trivial)
  then show ?thesis by (simp add: slot_def)
qed

lemma slot_inj:
  assumes "indices_ok q" "k < 2048" "j < 2048" "slot q k = slot q j"
  shows "k = j"
proof -
  have "(flow_head q + int k) mod 2048 = (flow_head q + int j) mod 2048"
    using assms(4) by (simp add: slot_def FLOW_MAX_def)
  then have "(2048::int) dvd (flow_head q + int k) - (flow_head q + int j)"
    by (simp only: mod_eq_dvd_iff)
  then have "(2048::int) dvd int k - int j" by simp
  then have "int k mod 2048 = int j mod 2048" by (simp only: mod_eq_dvd_iff)
  then show ?thesis using assms(2,3) by simp
qed

lemma queue_list_enqueue:
  assumes "indices_ok q" "queue_length q \<noteq> 2047"
  shows "queue_list (enqueue p q) = queue_list q @ [(fst p mod 256, snd p mod 256)]"
proof -
  have len: "queue_length (enqueue p q) = Suc (queue_length q)"
    using enqueue_room(3)[OF assms] by simp
  have s: "\<And>k. slot (enqueue p q) k = slot q k" by (simp add: slot_def)
  have lt: "queue_length q < 2048" by (rule queue_length_less)
  have old: "\<And>k. k < queue_length q \<Longrightarrow> slot q k \<noteq> flow_tail q"
  proof
    fix k assume k: "k < queue_length q" "slot q k = flow_tail q"
    then have "slot q k = slot q (queue_length q)" by (simp add: slot_tail[OF assms(1)])
    from slot_inj[OF assms(1) _ lt this] k lt show False by simp
  qed
  have "map (\<lambda>k. (flow_y (enqueue p q) (slot (enqueue p q) k), flow_x (enqueue p q) (slot (enqueue p q) k)))
          [0..<queue_length q]
        = map (\<lambda>k. (flow_y q (slot q k), flow_x q (slot q k))) [0..<queue_length q]"
    by (rule map_cong) (simp_all add: s old)
  then show ?thesis
    unfolding queue_list_def[of "enqueue p q"] len
    by (simp add: queue_list_def s slot_tail[OF assms(1)])
qed

lemma queue_list_enqueue_full:
  assumes "indices_ok q" "queue_length q = 2047"
  shows "queue_list (enqueue p q) = queue_list q"
proof -
  have len: "queue_length (enqueue p q) = queue_length q"
    unfolding queue_length_def enqueue_fields enqueue_full[OF assms] ..
  have s: "\<And>k. slot (enqueue p q) k = slot q k" by (simp add: slot_def)
  have lt: "queue_length q < 2048" by (rule queue_length_less)
  have old: "\<And>k. k < queue_length q \<Longrightarrow> slot q k \<noteq> flow_tail q"
  proof
    fix k assume k: "k < queue_length q" "slot q k = flow_tail q"
    then have "slot q k = slot q (queue_length q)" by (simp add: slot_tail[OF assms(1)])
    from slot_inj[OF assms(1) _ lt this] k lt show False by simp
  qed
  show ?thesis
    unfolding queue_list_def[of "enqueue p q"] len unfolding queue_list_def
    by (rule map_cong) (simp_all add: s old)
qed

lemma less8: "(d::nat) < 8 \<Longrightarrow> d = 0 \<or> d = 1 \<or> d = 2 \<or> d = 3 \<or> d = 4 \<or> d = 5 \<or> d = 6 \<or> d = 7"
  by arith

lemma child_adjacent:
  assumes "d < 8"
  shows "adjacent p (child_of p d)"
  using less8[OF assms]
  by (auto simp: adjacent_def child_of_def ddy_ddd_def ddx_ddd_def prod_eq_iff)

lemma adjacent_child:
  assumes "adjacent p r"
  shows "\<exists>d<8. r = child_of p d"
proof -
  define dy where "dy = fst r - fst p"
  define dx where "dx = snd r - snd p"
  have r: "r = (fst p + dy, snd p + dx)" by (simp add: dy_def dx_def)
  have b: "dy = - 1 \<or> dy = 0 \<or> dy = 1" "dx = - 1 \<or> dx = 0 \<or> dx = 1" "\<not> (dy = 0 \<and> dx = 0)"
    using assms by (auto simp: adjacent_def dy_def dx_def prod_eq_iff)
  have c: "\<And>d. d < 8 \<Longrightarrow> dy = ddy_ddd ! d \<Longrightarrow> dx = ddx_ddd ! d \<Longrightarrow> ?thesis"
    unfolding r child_of_def by auto
  from b consider "dy = 1 \<and> dx = 0" | "dy = - 1 \<and> dx = 0" | "dy = 0 \<and> dx = 1" | "dy = 0 \<and> dx = - 1"
    | "dy = 1 \<and> dx = 1" | "dy = 1 \<and> dx = - 1" | "dy = - 1 \<and> dx = 1" | "dy = - 1 \<and> dx = - 1"
    by auto
  then show ?thesis
  proof cases
    case 1 then show ?thesis by (intro c[of 0]) (simp_all add: ddy_ddd_def ddx_ddd_def)
  next
    case 2 then show ?thesis by (intro c[of 1]) (simp_all add: ddy_ddd_def ddx_ddd_def)
  next
    case 3 then show ?thesis by (intro c[of 2]) (simp_all add: ddy_ddd_def ddx_ddd_def)
  next
    case 4 then show ?thesis by (intro c[of 3]) (simp_all add: ddy_ddd_def ddx_ddd_def)
  next
    case 5 then show ?thesis by (intro c[of 4]) (simp_all add: ddy_ddd_def ddx_ddd_def)
  next
    case 6 then show ?thesis by (intro c[of 5]) (simp_all add: ddy_ddd_def ddx_ddd_def)
  next
    case 7 then show ?thesis by (intro c[of 6]) (simp_all add: ddy_ddd_def ddx_ddd_def)
  next
    case 8 then show ?thesis by (intro c[of 7]) (simp_all add: ddy_ddd_def ddx_ddd_def)
  qed
qed

lemma adjacent_cheb:
  assumes "adjacent p r"
  shows "cheb py px r \<le> cheb py px p + 1"
  using assms by (auto simp: adjacent_def cheb_def)

lemma nearer_props:
  assumes "0 < cheb py px r"
  shows "cheb py px (nearer py px r) = cheb py px r - 1"
    and "adjacent (nearer py px r) r"
  using assms by (auto simp: cheb_def nearer_def adjacent_def sgn_if prod_eq_iff max_def)

lemma nearer_in_bounds:
  assumes "square_in_bounds c (fst r) (snd r)" "square_in_bounds c py px"
  shows "square_in_bounds c (fst (nearer py px r)) (snd (nearer py px r))"
  using assms by (auto simp: square_in_bounds_def nearer_def sgn_if)

lemma ring_card:
  assumes "small_grid c"
  shows "finite {p \<in> grid c. cheb py px p = d}" and "card {p \<in> grid c. cheb py px p = d} \<le> 1024"
proof -
  let ?A = "{py - d, py + d} \<times> {0..<width c}"
  let ?B = "{0..<height c} \<times> {px - d, px + d}"
  have sub: "{p \<in> grid c. cheb py px p = d} \<subseteq> ?A \<union> ?B"
  proof
    fix p assume "p \<in> {p \<in> grid c. cheb py px p = d}"
    then have g: "0 \<le> fst p" "fst p < height c" "0 \<le> snd p" "snd p < width c"
      and "cheb py px p = d"
      by (simp_all add: grid_def square_in_bounds_def)
    then have "\<bar>fst p - py\<bar> = d \<or> \<bar>snd p - px\<bar> = d"
      by (auto simp: cheb_def max_def split: if_splits)
    then have "(fst p = py - d \<or> fst p = py + d) \<or> (snd p = px - d \<or> snd p = px + d)"
      by linarith
    then show "p \<in> ?A \<union> ?B" using g by (cases p) auto
  qed
  have fin: "finite (?A \<union> ?B)" by simp
  show "finite {p \<in> grid c. cheb py px p = d}" by (rule finite_subset[OF sub fin])
  have c2: "card {py - d, py + d} \<le> 2" "card {px - d, px + d} \<le> 2"
    by (simp_all add: card_insert_if)
  have cw: "card {0..<width c} \<le> 256" "card {0..<height c} \<le> 256"
    using assms by (auto simp: small_grid_def)
  have "card ?A \<le> 2 * 256"
    unfolding card_cartesian_product by (rule mult_le_mono[OF c2(1) cw(1)])
  moreover have "card ?B \<le> 256 * 2"
    unfolding card_cartesian_product by (rule mult_le_mono[OF cw(2) c2(2)])
  ultimately have "card (?A \<union> ?B) \<le> 1024"
    using card_Un_le[of ?A ?B] by linarith
  then show "card {p \<in> grid c. cheb py px p = d} \<le> 1024"
    using card_mono[OF fin sub] by linarith
qed

lemma two_rings_card:
  assumes "small_grid c"
    and S: "S \<subseteq> {p \<in> grid c. cheb py px p = d \<or> cheb py px p = d + 1}"
    and a: "a \<in> grid c" "cheb py px a = d" "a \<notin> S"
    and b: "b \<in> grid c" "cheb py px b = d + 1" "b \<notin> S"
  shows "card S \<le> 2046"
proof -
  let ?R1 = "{p \<in> grid c. cheb py px p = d}"
  let ?R2 = "{p \<in> grid c. cheb py px p = d + 1}"
  have f: "finite ?R1" "finite ?R2" by (rule ring_card(1)[OF assms(1)])+
  have "S \<subseteq> (?R1 - {a}) \<union> (?R2 - {b})" using S a b by auto
  then have "card S \<le> card ((?R1 - {a}) \<union> (?R2 - {b}))"
    by (rule card_mono[rotated]) (use f in simp)
  also have "\<dots> \<le> card (?R1 - {a}) + card (?R2 - {b})" by (rule card_Un_le)
  also have "\<dots> \<le> 1023 + 1023"
  proof (rule add_mono)
    have "a \<in> ?R1" using a by simp
    then have "card (?R1 - {a}) = card ?R1 - 1" using f by simp
    then show "card (?R1 - {a}) \<le> 1023" using ring_card(2)[OF assms(1), of py px d] by simp
    have "b \<in> ?R2" using b by simp
    then have "card (?R2 - {b}) = card ?R2 - 1" using f by simp
    then show "card (?R2 - {b}) \<le> 1023" using ring_card(2)[OF assms(1), of py px "d + 1"] by simp
  qed
  finally show ?thesis by simp
qed

lemma sorted_map_bounds:
  assumes "sorted (map f l)" "x \<in> set l"
  shows "f (hd l) \<le> f x" and "f x \<le> f (last l)"
proof -
  from assms(2) obtain i where i: "i < length l" "l ! i = x" by (auto simp: in_set_conv_nth)
  then have ne: "l \<noteq> []" by auto
  have "map f l ! 0 \<le> map f l ! i"
    by (rule sorted_nth_mono[OF assms(1)]) (use i in simp_all)
  then show "f (hd l) \<le> f x" using i ne by (simp add: hd_conv_nth)
  have "map f l ! i \<le> map f l ! (length l - 1)"
    by (rule sorted_nth_mono[OF assms(1)]) (use i in simp_all)
  then show "f x \<le> f (last l)" using i ne by (simp add: last_conv_nth)
qed

lemma grid_stamp [simp]: "grid (stamp n k r c) = grid c"
  by (simp add: grid_def)

lemma stamped_stamp:
  assumes "0 \<le> n" "n < 256" "r \<in> grid c"
  shows "stamped n (stamp n k r c) = insert r (stamped n c)"
proof -
  have w: "\<And>p. when_c (stamp n k r c) p = (if p = r then n else when_c c p)"
    using assms(1,2) by (simp add: stamp_def)
  show ?thesis unfolding stamped_def grid_stamp w using assms(3) by auto
qed

lemma when_stamp_mono:
  assumes "0 \<le> n" "n < 256" "when_c c p = n"
  shows "when_c (stamp n k r c) p = n"
  using assms by (simp add: stamp_def)

lemma cost_stamp_other: "p \<noteq> r \<Longrightarrow> cost (stamp n k r c) p = cost c p"
  by (simp add: stamp_def)

lemma cost_stamp_same: "cost (stamp n k r c) r = k mod 256"
  by (simp add: stamp_def)

lemma done_cell_stamp:
  assumes "0 \<le> n" "n < 256" "done_cell n D py px c p"
  shows "done_cell n D py px (stamp n k r c) p"
  using assms(3) when_stamp_mono[OF assms(1,2)] unfolding done_cell_def grid_stamp by blast

lemma cheb_grid_bound:
  assumes "small_grid c" "p \<in> grid c" "(py, px) \<in> grid c"
  shows "0 \<le> cheb py px p" "cheb py px p \<le> 255"
  using assms by (auto simp: small_grid_def grid_def square_in_bounds_def cheb_def)

lemma grid_mod:
  assumes "small_grid c" "p \<in> grid c"
  shows "(fst p mod 256, snd p mod 256) = p"
  using in_bounds_small[OF assms(1), of "fst p" "snd p"] assms(2) by (simp add: grid_def)

lemma stamped_grid: "p \<in> stamped n c \<Longrightarrow> p \<in> grid c"
  by (simp add: stamped_def)

lemma stamped_when: "p \<in> stamped n c \<Longrightarrow> when_c c p = n"
  by (simp add: stamped_def)

lemma stampedI: "p \<in> grid c \<Longrightarrow> when_c c p = n \<Longrightarrow> p \<in> stamped n c"
  by (simp add: stamped_def)

text \<open>Taking the front entry.\<close>

lemma bfs_front:
  assumes inv: "bfs_inv f_info n D py px (c, q)" and ne: "flow_head q \<noteq> flow_tail q"
  shows "queue_list q = front q # queue_list (dequeue q)"
    and "front q \<in> stamped n c"
    and "cost c (front q) = cheb py px (front q)"
    and "front q \<notin> set (queue_list (dequeue q))"
    and "bfs_queue n py px c (queue_list (dequeue q))"
    and "\<forall>p \<in> set (queue_list (dequeue q)).
           cheb py px (front q) \<le> cheb py px p \<and> cheb py px p \<le> cheb py px (front q) + 1"
    and "\<forall>p \<in> grid c. cheb py px p \<le> cheb py px (front q) \<longrightarrow> when_c c p = n"
proof -
  have ok: "indices_ok q" using inv by (simp add: bfs_inv_def)
  show l: "queue_list q = front q # queue_list (dequeue q)"
    by (rule queue_list_dequeue[OF ok ne])
  have bq: "bfs_queue n py px c (queue_list q)" using inv by (simp add: bfs_inv_def)
  then have d: "distinct (queue_list q)" and sub: "set (queue_list q) \<subseteq> stamped n c"
    and so: "sorted (map (cheb py px) (queue_list q))"
    by (simp_all add: bfs_queue_def)
  show st: "front q \<in> stamped n c" using sub unfolding l by simp
  have base: "bfs_base f_info n D py px c" using inv by (simp add: bfs_inv_def)
  then show "cost c (front q) = cheb py px (front q)" using st by (simp add: bfs_base_def)
  show "front q \<notin> set (queue_list (dequeue q))" using d unfolding l by simp
  show "bfs_queue n py px c (queue_list (dequeue q))"
    using d sub so unfolding l bfs_queue_def by simp
  have nn: "queue_list q \<noteq> []" unfolding l by simp
  have hd: "hd (queue_list q) = front q" unfolding l by simp
  have la: "cheb py px (last (queue_list q)) \<le> cheb py px (front q) + 1"
    and al: "\<forall>p \<in> grid c. cheb py px p \<le> cheb py px (front q) \<longrightarrow> when_c c p = n"
    using inv nn unfolding bfs_inv_def hd[symmetric] by simp_all
  show "\<forall>p \<in> grid c. cheb py px p \<le> cheb py px (front q) \<longrightarrow> when_c c p = n" by (rule al)
  show "\<forall>p \<in> set (queue_list (dequeue q)).
           cheb py px (front q) \<le> cheb py px p \<and> cheb py px p \<le> cheb py px (front q) + 1"
  proof
    fix p assume "p \<in> set (queue_list (dequeue q))"
    then have p: "p \<in> set (queue_list q)" unfolding l by simp
    from sorted_map_bounds[OF so p] la show
      "cheb py px (front q) \<le> cheb py px p \<and> cheb py px p \<le> cheb py px (front q) + 1"
      unfolding hd by linarith
  qed
qed

lemma bfs_skip:
  assumes inv: "bfs_inv f_info n D py px (c, q)" and ne: "flow_head q \<noteq> flow_tail q"
    and k: "cost c (front q) + 1 = D"
  shows "bfs_inv f_info n D py px (c, dequeue q)"
proof -
  note f = bfs_front[OF inv ne]
  have ok: "indices_ok q" using inv by (simp add: bfs_inv_def)
  have base: "bfs_base f_info n D py px c" using inv by (simp add: bfs_inv_def)
  have dn: "\<forall>p \<in> stamped n c. p \<notin> set (queue_list q) \<longrightarrow> done_cell n D py px c p"
    using inv by (simp add: bfs_inv_def)
  have kd: "cheb py px (front q) + 1 = D" using k f(3) by simp
  have dn': "\<forall>p \<in> stamped n c. p \<notin> set (queue_list (dequeue q)) \<longrightarrow> done_cell n D py px c p"
  proof (intro ballI impI)
    fix p assume p: "p \<in> stamped n c" "p \<notin> set (queue_list (dequeue q))"
    show "done_cell n D py px c p"
    proof (cases "p = front q")
      case True
      then show ?thesis using kd by (simp add: done_cell_def)
    next
      case False
      then have "p \<notin> set (queue_list q)" using p(2) unfolding f(1) by simp
      then show ?thesis using dn p(1) by blast
    qed
  qed
  have fr: "queue_list (dequeue q) \<noteq> [] \<longrightarrow>
         cheb py px (last (queue_list (dequeue q))) \<le> cheb py px (hd (queue_list (dequeue q))) + 1 \<and>
         (\<forall>p \<in> grid c. cheb py px p \<le> cheb py px (hd (queue_list (dequeue q))) \<longrightarrow> when_c c p = n)"
  proof
    assume nn: "queue_list (dequeue q) \<noteq> []"
    let ?h = "hd (queue_list (dequeue q))"
    have h: "?h \<in> set (queue_list (dequeue q))" using nn by simp
    have la: "last (queue_list (dequeue q)) \<in> set (queue_list (dequeue q))" using nn by simp
    have "?h \<in> stamped n c" using f(5) h by (auto simp: bfs_queue_def)
    then have "cheb py px ?h < D" using base by (simp add: bfs_base_def)
    moreover have "cheb py px (front q) \<le> cheb py px ?h" using f(6) h by blast
    ultimately have e: "cheb py px ?h = cheb py px (front q)" using kd by linarith
    have "cheb py px (last (queue_list (dequeue q))) \<le> cheb py px (front q) + 1"
      using f(6) la by blast
    then show "cheb py px (last (queue_list (dequeue q))) \<le> cheb py px ?h + 1 \<and>
         (\<forall>p \<in> grid c. cheb py px p \<le> cheb py px ?h \<longrightarrow> when_c c p = n)"
      unfolding e using f(7) by simp
  qed
  show ?thesis
    unfolding bfs_inv_def fst_conv snd_conv
    using dequeue_indices_ok[OF ok] base f(5) dn' fr by blast
qed

lemma bfs_expand_start:
  assumes inv: "bfs_inv f_info n D py px (c, q)" and ne: "flow_head q \<noteq> flow_tail q"
    and k: "cost c (front q) + 1 \<noteq> D"
  shows "bfs_mid f_info n D py px (front q) [] (c, dequeue q)"
proof -
  note f = bfs_front[OF inv ne]
  have ok: "indices_ok q" using inv by (simp add: bfs_inv_def)
  have base: "bfs_base f_info n D py px c" using inv by (simp add: bfs_inv_def)
  have dn: "\<forall>p \<in> stamped n c. p \<notin> set (queue_list q) \<longrightarrow> done_cell n D py px c p"
    using inv by (simp add: bfs_inv_def)
  have kd: "cheb py px (front q) + 1 \<noteq> D" using k f(3) by simp
  have dn': "\<forall>p \<in> stamped n c. p \<notin> set (queue_list (dequeue q)) \<longrightarrow> p \<noteq> front q \<longrightarrow>
               done_cell n D py px c p"
    using dn unfolding f(1) by simp
  show ?thesis
    unfolding bfs_mid_def fst_conv snd_conv
    using dequeue_indices_ok[OF ok] base f(5) f(2) f(4) kd dn' f(6) f(7) by simp
qed

lemma bfs_child:
  assumes n: "0 \<le> n" "n < 256"
    and mid: "bfs_mid f_info n D py px pp ds s" and d: "d < 8"
  shows "bfs_mid f_info n D py px pp (ds @ [d])
           (flow_child f_info n (cheb py px pp + 1) (fst pp) (snd pp) s d)"
proof -
  obtain c q where s: "s = (c, q)" by (cases s)
  let ?l = "queue_list q"
  let ?r = "child_of pp d"
  let ?k = "cheb py px pp + 1"
  have ok: "indices_ok q" and base: "bfs_base f_info n D py px c"
    and bq: "bfs_queue n py px c ?l"
    and pp: "pp \<in> stamped n c" "pp \<notin> set ?l" "cheb py px pp + 1 \<noteq> D"
    and dn: "\<forall>p \<in> stamped n c. p \<notin> set ?l \<longrightarrow> p \<noteq> pp \<longrightarrow> done_cell n D py px c p"
    and bd: "\<forall>p \<in> set ?l. cheb py px pp \<le> cheb py px p \<and> cheb py px p \<le> cheb py px pp + 1"
    and al: "\<forall>p \<in> grid c. cheb py px p \<le> cheb py px pp \<longrightarrow> when_c c p = n"
    and pr: "\<forall>d \<in> set ds. child_of pp d \<in> grid c \<longrightarrow> when_c c (child_of pp d) = n"
    using mid unfolding s bfs_mid_def fst_conv snd_conv by blast+
  have sg: "small_grid c" and op: "open_room f_info c" and pl: "(py, px) \<in> stamped n c"
    and cs: "\<forall>p \<in> stamped n c. cost c p = cheb py px p \<and> cheb py px p < D"
    using base unfolding bfs_base_def by blast+
  have e: "flow_child f_info n ?k (fst pp) (snd pp) (c, q) d =
     (if flows_to f_info n c ?r then (stamp n ?k ?r c, enqueue ?r q) else (c, q))"
    unfolding flow_child_eq child_of_def ..
  show ?thesis
  proof (cases "flows_to f_info n c ?r")
    case False
    have "?r \<in> grid c \<longrightarrow> when_c c ?r = n"
    proof
      assume g: "?r \<in> grid c"
      then have "\<not> tf_has (flags (f_info (feat c ?r))) TF_NO_FLOW" using op by (simp add: open_room_def)
      then show "when_c c ?r = n" using False g by (simp add: flows_to_def grid_def)
    qed
    then have pr': "\<forall>d \<in> set (ds @ [d]). child_of pp d \<in> grid c \<longrightarrow> when_c c (child_of pp d) = n"
      using pr by simp
    have e': "flow_child f_info n ?k (fst pp) (snd pp) s d = (c, q)"
      unfolding s e using False by simp
    show ?thesis
      unfolding e' bfs_mid_def fst_conv snd_conv
      using ok base bq pp dn bd al pr' by blast
  next
    case True
    then have rg: "?r \<in> grid c" and rn: "when_c c ?r \<noteq> n"
      by (simp_all add: flows_to_def grid_def)
    have rs: "?r \<notin> stamped n c" using rn by (simp add: stamped_def)
    have rl: "?r \<notin> set ?l" using bq rs by (auto simp: bfs_queue_def)
    have ppg: "pp \<in> grid c" by (rule stamped_grid[OF pp(1)])
    have "\<not> cheb py px ?r \<le> cheb py px pp" using al rg rn by blast
    moreover have "cheb py px ?r \<le> cheb py px pp + 1"
      by (rule adjacent_cheb[OF child_adjacent[OF d]])
    ultimately have cr: "cheb py px ?r = ?k" by linarith
    have kb: "0 \<le> ?k" "?k \<le> 255"
      using cheb_grid_bound[OF sg rg stamped_grid[OF pl]] unfolding cr by simp_all
    have km: "?k mod 256 = ?k" using kb by simp
    have kD: "?k < D" using cs pp(1) pp(3) by fastforce
    have "card (set ?l) \<le> 2046"
    proof (rule two_rings_card[OF sg _ ppg _ pp(2) rg _ rl, where py = py and px = px and d = "cheb py px pp"])
      show "set ?l \<subseteq> {p \<in> grid c. cheb py px p = cheb py px pp \<or> cheb py px p = cheb py px pp + 1}"
      proof
        fix p assume p: "p \<in> set ?l"
        then have "p \<in> grid c" using bq by (auto simp: bfs_queue_def stamped_def)
        moreover have "cheb py px p = cheb py px pp \<or> cheb py px p = cheb py px pp + 1"
          using bd p by fastforce
        ultimately show "p \<in> {p \<in> grid c. cheb py px p = cheb py px pp \<or> cheb py px p = cheb py px pp + 1}"
          by simp
      qed
    qed (simp_all add: cr)
    moreover have "card (set ?l) = queue_length q"
      using bq distinct_card[of ?l] by (simp add: bfs_queue_def)
    ultimately have nf: "queue_length q \<noteq> 2047" by simp
    have l': "queue_list (enqueue ?r q) = ?l @ [?r]"
      unfolding queue_list_enqueue[OF ok nf] grid_mod[OF sg rg] ..
    let ?c = "stamp n ?k ?r c"
    have st': "stamped n ?c = insert ?r (stamped n c)" by (rule stamped_stamp[OF n rg])
    have base': "bfs_base f_info n D py px ?c"
      unfolding bfs_base_def st'
    proof (intro conjI ballI)
      show "small_grid ?c" using sg by (simp add: small_grid_def)
      show "open_room f_info ?c" using op by (simp add: open_room_def)
      show "(py, px) \<in> insert ?r (stamped n c)" using pl by simp
    next
      fix p assume p: "p \<in> insert ?r (stamped n c)"
      show "cost ?c p = cheb py px p"
      proof (cases "p = ?r")
        case True then show ?thesis by (simp add: cost_stamp_same km cr)
      next
        case False then show ?thesis using p cs by (simp add: cost_stamp_other)
      qed
      show "cheb py px p < D" using p cs kD cr by auto
    qed
    have bq': "bfs_queue n py px ?c (?l @ [?r])"
      unfolding bfs_queue_def st'
    proof (intro conjI)
      show "distinct (?l @ [?r])" using bq rl by (simp add: bfs_queue_def)
      show "set (?l @ [?r]) \<subseteq> insert ?r (stamped n c)" using bq by (auto simp: bfs_queue_def)
      show "sorted (map (cheb py px) (?l @ [?r]))"
        using bq bd by (simp add: bfs_queue_def sorted_append cr)
    qed
    have pp': "pp \<in> insert ?r (stamped n c)" "pp \<notin> set (?l @ [?r])"
      using pp rs by auto
    have dn': "\<forall>p \<in> insert ?r (stamped n c). p \<notin> set (?l @ [?r]) \<longrightarrow> p \<noteq> pp \<longrightarrow>
                 done_cell n D py px ?c p"
    proof (intro ballI impI)
      fix p assume p: "p \<in> insert ?r (stamped n c)" "p \<notin> set (?l @ [?r])" "p \<noteq> pp"
      then have "p \<in> stamped n c" "p \<notin> set ?l" by auto
      then have "done_cell n D py px c p" using dn p(3) by blast
      then show "done_cell n D py px ?c p" by (rule done_cell_stamp[OF n])
    qed
    have bd': "\<forall>p \<in> set (?l @ [?r]). cheb py px pp \<le> cheb py px p \<and> cheb py px p \<le> cheb py px pp + 1"
      using bd cr by simp
    have al': "\<forall>p \<in> grid ?c. cheb py px p \<le> cheb py px pp \<longrightarrow> when_c ?c p = n"
      using al when_stamp_mono[OF n] by simp
    have pr': "\<forall>d' \<in> set (ds @ [d]). child_of pp d' \<in> grid ?c \<longrightarrow> when_c ?c (child_of pp d') = n"
    proof (intro ballI impI)
      fix d' assume a: "d' \<in> set (ds @ [d])" "child_of pp d' \<in> grid ?c"
      show "when_c ?c (child_of pp d') = n"
      proof (cases "child_of pp d' = ?r")
        case True
        then show ?thesis using n by (simp add: stamp_def)
      next
        case False
        then have "d' \<in> set ds" using a(1) by auto
        then have "when_c c (child_of pp d') = n" using pr a(2) by simp
        then show ?thesis by (rule when_stamp_mono[OF n])
      qed
    qed
    have e': "flow_child f_info n ?k (fst pp) (snd pp) s d = (?c, enqueue ?r q)"
      unfolding s e using True by simp
    show ?thesis
      unfolding e' bfs_mid_def fst_conv snd_conv l' st'
      using enqueue_indices_ok[OF ok] base' bq' pp' pp(3) dn' bd' al' pr' by blast
  qed
qed

lemma bfs_children_fold:
  assumes n: "0 \<le> n" "n < 256"
    and mid: "bfs_mid f_info n D py px pp ds s" and es: "\<forall>d \<in> set es. d < 8"
  shows "bfs_mid f_info n D py px pp (ds @ es)
           (foldl (flow_child f_info n (cheb py px pp + 1) (fst pp) (snd pp)) s es)"
  using mid es
proof (induction es arbitrary: ds s)
  case Nil
  then show ?case by simp
next
  case (Cons d es)
  have "bfs_mid f_info n D py px pp (ds @ [d]) (flow_child f_info n (cheb py px pp + 1) (fst pp) (snd pp) s d)"
    by (rule bfs_child[OF n Cons.prems(1)]) (use Cons.prems(2) in simp)
  from Cons.IH[OF this] Cons.prems(2) show ?case by simp
qed

lemma bfs_children:
  assumes n: "0 \<le> n" "n < 256"
    and mid: "bfs_mid f_info n D py px pp [] s"
  shows "bfs_mid f_info n D py px pp [0..<8]
           (flow_children f_info n (cheb py px pp + 1) (fst pp) (snd pp) s)"
  unfolding flow_children_def
  using bfs_children_fold[OF n mid, of "[0..<8]"] by simp

lemma bfs_finish:
  assumes mid: "bfs_mid f_info n D py px pp [0..<8] s"
  shows "bfs_inv f_info n D py px s"
proof -
  obtain c q where s: "s = (c, q)" by (cases s)
  let ?l = "queue_list q"
  have ok: "indices_ok q" and base: "bfs_base f_info n D py px c"
    and bq: "bfs_queue n py px c ?l"
    and pp: "pp \<in> stamped n c" "pp \<notin> set ?l" "cheb py px pp + 1 \<noteq> D"
    and dn: "\<forall>p \<in> stamped n c. p \<notin> set ?l \<longrightarrow> p \<noteq> pp \<longrightarrow> done_cell n D py px c p"
    and bd: "\<forall>p \<in> set ?l. cheb py px pp \<le> cheb py px p \<and> cheb py px p \<le> cheb py px pp + 1"
    and al: "\<forall>p \<in> grid c. cheb py px p \<le> cheb py px pp \<longrightarrow> when_c c p = n"
    and pr: "\<forall>d \<in> set [0..<8]. child_of pp d \<in> grid c \<longrightarrow> when_c c (child_of pp d) = n"
    using mid unfolding s bfs_mid_def fst_conv snd_conv by blast+
  have pl: "(py, px) \<in> stamped n c" using base by (simp add: bfs_base_def)
  have dpp: "done_cell n D py px c pp"
    unfolding done_cell_def
  proof (intro disjI2 ballI impI)
    fix r assume r: "r \<in> grid c" "adjacent pp r"
    from adjacent_child[OF r(2)] obtain d where d: "d < 8" "r = child_of pp d" by blast
    then show "when_c c r = n" using pr r(1) by simp
  qed
  have dn': "\<forall>p \<in> stamped n c. p \<notin> set ?l \<longrightarrow> done_cell n D py px c p"
    using dn dpp by blast
  have fr: "?l \<noteq> [] \<longrightarrow>
         cheb py px (last ?l) \<le> cheb py px (hd ?l) + 1 \<and>
         (\<forall>p \<in> grid c. cheb py px p \<le> cheb py px (hd ?l) \<longrightarrow> when_c c p = n)"
  proof
    assume nn: "?l \<noteq> []"
    have h: "hd ?l \<in> set ?l" and la: "last ?l \<in> set ?l" using nn by simp_all
    have hb: "cheb py px pp \<le> cheb py px (hd ?l)" "cheb py px (hd ?l) \<le> cheb py px pp + 1"
      using bd h by blast+
    have lb: "cheb py px (last ?l) \<le> cheb py px pp + 1" using bd la by blast
    have so: "sorted (map (cheb py px) ?l)" using bq by (simp add: bfs_queue_def)
    have "\<forall>p \<in> grid c. cheb py px p \<le> cheb py px (hd ?l) \<longrightarrow> when_c c p = n"
    proof (intro ballI impI)
      fix p assume p: "p \<in> grid c" "cheb py px p \<le> cheb py px (hd ?l)"
      show "when_c c p = n"
      proof (cases "cheb py px p \<le> cheb py px pp")
        case True
        then show ?thesis using al p(1) by blast
      next
        case False
        then have cp: "cheb py px p = cheb py px pp + 1" and ch: "cheb py px (hd ?l) = cheb py px pp + 1"
          using p(2) hb by linarith+
        have "0 \<le> cheb py px pp" by (simp add: cheb_def)
        then have pos: "0 < cheb py px p" using cp by simp
        let ?p' = "nearer py px p"
        have c': "cheb py px ?p' = cheb py px pp" using nearer_props(1)[OF pos] cp by simp
        have a': "adjacent ?p' p" by (rule nearer_props(2)[OF pos])
        have g': "?p' \<in> grid c"
          using nearer_in_bounds[of c p py px] p(1) stamped_grid[OF pl] by (simp add: grid_def)
        have s': "?p' \<in> stamped n c" using al g' c' by (intro stampedI) simp_all
        have "?p' \<notin> set ?l"
        proof
          assume "?p' \<in> set ?l"
          from sorted_map_bounds(1)[OF so this] show False using ch c' by simp
        qed
        then have "done_cell n D py px c ?p'" using dn' s' by blast
        then show ?thesis unfolding done_cell_def c' using pp(3) a' p(1) by blast
      qed
    qed
    then show "cheb py px (last ?l) \<le> cheb py px (hd ?l) + 1 \<and>
         (\<forall>p \<in> grid c. cheb py px p \<le> cheb py px (hd ?l) \<longrightarrow> when_c c p = n)"
      using lb hb by simp
  qed
  show ?thesis
    unfolding s bfs_inv_def fst_conv snd_conv using ok base bq dn' fr by blast
qed

lemma bfs_expand:
  assumes n: "0 \<le> n" "n < 256"
    and inv: "bfs_inv f_info n D py px (c, q)" and ne: "flow_head q \<noteq> flow_tail q"
    and k: "cost c (front q) + 1 \<noteq> D"
  shows "bfs_inv f_info n D py px
           (flow_children f_info n (cost c (front q) + 1) (fst (front q)) (snd (front q)) (c, dequeue q))"
proof -
  have e: "cost c (front q) = cheb py px (front q)" by (rule bfs_front(3)[OF inv ne])
  show ?thesis
    unfolding e
    by (rule bfs_finish[OF bfs_children[OF n bfs_expand_start[OF inv ne k]]])
qed

lemma bfs_complete:
  assumes inv: "bfs_inv f_info n D py px (c, q)" and em: "flow_head q = flow_tail q"
    and p: "p \<in> grid c" "cheb py px p < D"
  shows "p \<in> stamped n c"
proof -
  have ok: "indices_ok q" and base: "bfs_base f_info n D py px c"
    and dn: "\<forall>p \<in> stamped n c. p \<notin> set (queue_list q) \<longrightarrow> done_cell n D py px c p"
    using inv unfolding bfs_inv_def fst_conv snd_conv by blast+
  have l: "queue_list q = []" using queue_list_empty[OF ok] em by simp
  have pl: "(py, px) \<in> stamped n c" using base by (simp add: bfs_base_def)
  have "\<forall>p \<in> grid c. cheb py px p = int k \<longrightarrow> int k < D \<longrightarrow> p \<in> stamped n c" for k
  proof (induction k)
    case 0
    show ?case
    proof (intro ballI impI)
      fix p assume "p \<in> grid c" "cheb py px p = int 0"
      then have "p = (py, px)" by (auto simp: cheb_def prod_eq_iff max_def split: if_splits)
      then show "p \<in> stamped n c" using pl by simp
    qed
  next
    case (Suc k)
    show ?case
    proof (intro ballI impI)
      fix p assume p: "p \<in> grid c" "cheb py px p = int (Suc k)" "int (Suc k) < D"
      have pos: "0 < cheb py px p" using p(2) by simp
      let ?p' = "nearer py px p"
      have c': "cheb py px ?p' = int k" using nearer_props(1)[OF pos] p(2) by simp
      have a': "adjacent ?p' p" by (rule nearer_props(2)[OF pos])
      have g': "?p' \<in> grid c"
        using nearer_in_bounds[of c p py px] p(1) stamped_grid[OF pl] by (simp add: grid_def)
      have "?p' \<in> stamped n c" using Suc.IH g' c' p(3) by simp
      then have "done_cell n D py px c ?p'" using dn l by simp
      then have "when_c c p = n" unfolding done_cell_def c' using a' p(1,3) by auto
      then show "p \<in> stamped n c" using p(1) by (rule stampedI[rotated])
    qed
  qed
  moreover have "0 \<le> cheb py px p" by (simp add: cheb_def)
  ultimately show ?thesis using p by (metis nonneg_int_cases)
qed

lemma queue_list_seed:
  "queue_list \<lparr>flow_y = iy(0 := a), flow_x = ix(0 := b), flow_head = 0, flow_tail = 1\<rparr> = [(a, b)]"
  by (simp add: queue_list_def queue_length_def slot_def FLOW_MAX_def)

lemma bfs_seed:
  assumes n: "1 \<le> n" "n \<le> 255"
    and sg: "small_grid c" and op: "open_room f_info c"
    and w: "when_range (n - 1) c" and p: "square_in_bounds c py px" and D: "1 \<le> D"
  shows "bfs_inv f_info n D py px
           (stamp n 0 (py, px) c,
            \<lparr>flow_y = iy(0 := py mod 256), flow_x = ix(0 := px mod 256), flow_head = 0, flow_tail = 1\<rparr>)"
proof -
  let ?q = "\<lparr>flow_y = iy(0 := py mod 256), flow_x = ix(0 := px mod 256), flow_head = 0, flow_tail = 1\<rparr>"
  let ?c = "stamp n 0 (py, px) c"
  have nn: "0 \<le> n" "n < 256" using n by simp_all
  have pg: "(py, px) \<in> grid c" using p by (simp add: grid_def)
  have pm: "py mod 256 = py" "px mod 256 = px" using in_bounds_small[OF sg p] by simp_all
  have l: "queue_list ?q = [(py, px)]" unfolding queue_list_seed pm ..
  have "stamped n c = {}"
    using w n by (fastforce simp: stamped_def when_range_def grid_def)
  then have st: "stamped n ?c = {(py, px)}" using stamped_stamp[OF nn pg, of 0] by simp
  have c0: "cheb py px (py, px) = 0" by (simp add: cheb_def)
  have ok: "indices_ok ?q" by (simp add: indices_ok_def FLOW_MAX_def)
  have base: "bfs_base f_info n D py px ?c"
    unfolding bfs_base_def st using sg op D
    by (simp add: small_grid_def open_room_def c0 cost_stamp_same)
  have bq: "bfs_queue n py px ?c [(py, px)]"
    unfolding bfs_queue_def st by simp
  have al: "\<forall>p \<in> grid ?c. cheb py px p \<le> cheb py px (py, px) \<longrightarrow> when_c ?c p = n"
  proof (intro ballI impI)
    fix p assume "p \<in> grid ?c" "cheb py px p \<le> cheb py px (py, px)"
    then have "cheb py px p \<le> 0" by (simp add: c0)
    then have "p = (py, px)" by (auto simp: cheb_def prod_eq_iff max_def split: if_splits)
    then show "when_c ?c p = n" using nn by (simp add: stamp_def)
  qed
  show ?thesis
    unfolding bfs_inv_def fst_conv snd_conv l st
    using ok base bq al by simp
qed
section \<open>The flow field: the cost of a cell\<close>

text \<open>
  Claim C2, as stated, fails. In the open 3x3 room with the player at \<open>(0, 0)\<close>, a single
  call with maximum depth 32 stores the cost 2 for the cell \<open>(2, 2)\<close>, which is reached by
  two diagonal steps; its octagonal distance from the player, as \<open>distance\<close> computes it,
  is 3.
\<close>

theorem flow_cost_octagonal_counterexample:
  "cost_after (cave_update_flow floor_or_granite 32 blank_array blank_array 0 0
                 (room_with_walls 3 3 [], 0)) 2 2 = Some 2 \<and>
   distance 2 2 0 0 = 3 \<and> distance 2 2 0 0 < 32"
proof -
  have "cost_after (cave_update_flow floor_or_granite 32 blank_array blank_array 0 0
                 (room_with_walls 3 3 [], 0)) 2 2 = Some 2"
    by (simp add: cost_after_def cave_update_flow_def flow_loop.simps flow_children_def flow_child_def
          room_with_walls_def floor_or_granite_def square_in_bounds_def tf_has_def FLOW_MAX_def
          ddy_ddd_def ddx_ddd_def upt8 Let_def)
  moreover have "distance 2 2 0 0 = 3" by (simp add: distance_def)
  ultimately show ?thesis by simp
qed

text \<open>
  Claim C2, amended: the cost is the number of king moves, \<open>max |dy| |dx|\<close>. In an open
  room of at most 256 rows and columns with the player on the grid, starting from a state
  in which no stamp is newer than the generation counter and with a maximum depth of at
  least 1, a single call returns; the cells that carry the new generation are the cells
  of the grid whose distance \<open>chebyshev\<close> from the player is below the maximum depth, and
  the cost stored for each of them is that distance.
\<close>

theorem flow_cost_chebyshev:
  assumes r: "flow_ready (c, flow_save)" and sg: "small_grid c" and op: "open_room f_info c"
    and p: "square_in_bounds c py px" and D: "1 \<le> flow_depth"
  shows "\<exists>c' n. cave_update_flow f_info flow_depth init_y init_x py px (c, flow_save) = Some (c', n) \<and>
           (\<forall>y x. square_in_bounds c y x \<longrightarrow>
              ((when_c c' (y, x) = n) = (chebyshev y x py px < flow_depth)) \<and>
              (chebyshev y x py px < flow_depth \<longrightarrow> cost c' (y, x) = chebyshev y x py px))"
proof -
  from flow_begin_ready[OF r] obtain c1 n where b: "flow_begin (c, flow_save) = Some (c1, n)"
    "1 \<le> n" "n \<le> 255" "same_level c c1" "when_range (n - 1) c1" by blast
  have nn: "0 \<le> n" "n < 256" using b by simp_all
  have sg1: "small_grid c1" using sg b(4) by (simp add: small_grid_def same_level_def)
  have g1: "grid c1 = grid c" using b(4) by (simp add: grid_def same_level_def square_in_bounds_def)
  have op1: "open_room f_info c1" using op b(4) unfolding open_room_def g1 by (simp add: same_level_def)
  have p1: "square_in_bounds c1 py px" using p b(4) by (simp add: same_level_def square_in_bounds_def)
  let ?q = "\<lparr>flow_y = init_y(0 := py mod 256), flow_x = init_x(0 := px mod 256), flow_head = 0, flow_tail = 1\<rparr>"
  let ?s = "(stamp n 0 (py, px) c1, ?q)"
  define I where "I = (\<lambda>s. bfs_inv f_info n flow_depth py px s \<and> same_level c1 (fst s))"
  have "\<exists>c' q'. flow_loop f_info flow_depth n ?s = Some c' \<and> I (c', q') \<and> flow_head q' = flow_tail q'"
  proof (rule flow_loop_inv_rule[OF nn, where I = I])
    show "I ?s" unfolding I_def using bfs_seed[OF b(2,3) sg1 op1 b(5) p1 D] by (simp add: same_level_def)
  next
    fix c2 q2 assume "I (c2, q2)"
    then have i: "bfs_inv f_info n flow_depth py px (c2, q2)" by (simp add: I_def)
    then have "indices_ok q2" by (simp add: bfs_inv_def)
    moreover have "flow_head q2 \<noteq> flow_tail q2 \<longrightarrow> square_in_bounds c2 (fst (front q2)) (snd (front q2))"
      using bfs_front(2)[OF i] by (auto simp: stamped_def grid_def)
    ultimately show "indices_ok q2 \<and>
      (flow_head q2 \<noteq> flow_tail q2 \<longrightarrow> square_in_bounds c2 (fst (front q2)) (snd (front q2)))" by simp
  next
    fix c2 q2 assume "I (c2, q2)" "flow_head q2 \<noteq> flow_tail q2" "cost c2 (front q2) + 1 = flow_depth"
    then show "I (c2, dequeue q2)" unfolding I_def using bfs_skip by simp
  next
    fix c2 q2 assume a: "I (c2, q2)" "flow_head q2 \<noteq> flow_tail q2" "cost c2 (front q2) + 1 \<noteq> flow_depth"
    then have i: "bfs_inv f_info n flow_depth py px (c2, q2)" and lv: "same_level c1 (fst (c2, dequeue q2))"
      by (simp_all add: I_def)
    show "I (flow_children f_info n (cost c2 (front q2) + 1) (fst (front q2)) (snd (front q2)) (c2, dequeue q2))"
      unfolding I_def using bfs_expand[OF nn i a(2,3)] flow_children_level[OF lv] by simp
  qed
  then obtain c' q' where f: "flow_loop f_info flow_depth n ?s = Some c'"
    "bfs_inv f_info n flow_depth py px (c', q')" "same_level c1 c'" "flow_head q' = flow_tail q'"
    by (auto simp: I_def)
  have call: "cave_update_flow f_info flow_depth init_y init_x py px (c, flow_save) = Some (c', n)"
    unfolding cave_update_flow_eq b(1) using p1 f(1) by simp
  have g': "grid c' = grid c"
    using f(3) g1 by (simp add: grid_def same_level_def square_in_bounds_def)
  have base: "bfs_base f_info n flow_depth py px c'" using f(2) by (simp add: bfs_inv_def)
  have "\<forall>y x. square_in_bounds c y x \<longrightarrow>
              ((when_c c' (y, x) = n) = (chebyshev y x py px < flow_depth)) \<and>
              (chebyshev y x py px < flow_depth \<longrightarrow> cost c' (y, x) = chebyshev y x py px)"
  proof (intro allI impI)
    fix y x assume "square_in_bounds c y x"
    then have g: "(y, x) \<in> grid c'" unfolding g' by (simp add: grid_def)
    have ch: "chebyshev y x py px = cheb py px (y, x)" by (simp add: chebyshev_def cheb_def)
    have 1: "chebyshev y x py px < flow_depth \<Longrightarrow> (y, x) \<in> stamped n c'"
      unfolding ch by (rule bfs_complete[OF f(2) f(4) g])
    have 2: "(y, x) \<in> stamped n c' \<Longrightarrow>
               cost c' (y, x) = chebyshev y x py px \<and> chebyshev y x py px < flow_depth"
      unfolding ch using base by (simp add: bfs_base_def)
    have 3: "(when_c c' (y, x) = n) = ((y, x) \<in> stamped n c')" using g by (simp add: stamped_def)
    show "((when_c c' (y, x) = n) = (chebyshev y x py px < flow_depth)) \<and>
              (chebyshev y x py px < flow_depth \<longrightarrow> cost c' (y, x) = chebyshev y x py px)"
      unfolding 3 using 1 2 by blast
  qed
  then show ?thesis using call by blast
qed

theorem flow_cost_chebyshev_witness:
  "flow_ready (room_with_walls 3 3 [], 0) \<and> small_grid (room_with_walls 3 3 []) \<and>
   open_room floor_or_granite (room_with_walls 3 3 []) \<and>
   square_in_bounds (room_with_walls 3 3 []) 0 0 \<and>
   (\<exists>c' n. cave_update_flow floor_or_granite 32 blank_array blank_array 0 0
              (room_with_walls 3 3 [], 0) = Some (c', n) \<and>
           when_c c' (2, 2) = n \<and> cost c' (2, 2) = 2)"
proof -
  have r: "flow_ready (room_with_walls 3 3 [], 0)"
    by (simp add: flow_ready_def when_range_def room_with_walls_def)
  have g: "small_grid (room_with_walls 3 3 [])"
    by (simp add: small_grid_def room_with_walls_def)
  have o: "open_room floor_or_granite (room_with_walls 3 3 [])"
    by (simp add: open_room_def room_with_walls_def floor_or_granite_def tf_has_def)
  have p: "square_in_bounds (room_with_walls 3 3 []) 0 0"
    "square_in_bounds (room_with_walls 3 3 []) 2 2"
    by (simp_all add: square_in_bounds_def room_with_walls_def)
  have d: "chebyshev 2 2 0 0 = 2" by (simp add: chebyshev_def)
  from flow_cost_chebyshev[OF r g o p(1), of 32 blank_array blank_array]
  obtain c' n where
    a: "cave_update_flow floor_or_granite 32 blank_array blank_array 0 0
          (room_with_walls 3 3 [], 0) = Some (c', n)"
       "\<forall>y x. square_in_bounds (room_with_walls 3 3 []) y x \<longrightarrow>
              ((when_c c' (y, x) = n) = (chebyshev y x 0 0 < 32)) \<and>
              (chebyshev y x 0 0 < 32 \<longrightarrow> cost c' (y, x) = chebyshev y x 0 0)"
    by auto
  have "when_c c' (2, 2) = n \<and> cost c' (2, 2) = 2" using a(2) p(2) d by auto
  then show ?thesis using r g o p(1) a(1) by blast
qed
section \<open>Lighting a room: proofs\<close>







lemma interesting_info [simp]: "interesting f_info (c\<lparr>info := i\<rparr>) q = interesting f_info c q"
  by (simp add: interesting_def)






lemma same_map_info [simp]: "same_map c (c'\<lparr>info := i\<rparr>) = same_map c c'"
  by (simp add: same_map_def)

lemma same_map_refl [simp]: "same_map c c"
  by (simp add: same_map_def)












section \<open>Lighting a room: claims\<close>




end
